(* ===== verification/Kernel_Prelude.thy ===== *)
theory Kernel_Prelude
  imports Main "HOL-Library.Word" "HOL-Library.While_Combinator"
begin

text \<open>
  Shared vocabulary of the development.

  \<^item> The C integer types as words of their width. Unsigned arithmetic of the source is
    word arithmetic, so wrap-around is part of every definition that adds or shifts.
  \<^item> The C \<open>for\<close> loop over an unsigned counter, \<open>for_loop\<close>, as a \<open>while\<close> over a word
    counter and a loop state, with the lemma that a loop whose counter reaches its bound
    without wrapping is a \<open>fold\<close> over the values of the counter.
  \<^item> Lemmas on bits of bytes, alignment masks and overflow checks that several
    components share, collected in the named theorems \<open>word_nat\<close> (word conditions read
    on natural numbers) and \<open>mask_simps\<close> (masks read as \<open>div\<close> and \<open>mod\<close>).
\<close>

unbundle bit_operations_syntax

named_theorems word_nat \<open>word conditions restated on natural numbers\<close>
named_theorems mask_simps \<open>alignment masks restated with div and mod\<close>

type_synonym u8 = "8 word"
type_synonym u16 = "16 word"
type_synonym u32 = "32 word"
type_synonym u64 = "64 word"

subsection \<open>The C for loop over an unsigned counter\<close>

definition for_loop ::
  "'a::len word \<Rightarrow> 'a word \<Rightarrow> 'a word \<Rightarrow> ('a word \<Rightarrow> 's \<Rightarrow> 's) \<Rightarrow> 's \<Rightarrow> 's" where
  "for_loop start stop step body s =
     snd (while (\<lambda>(i, _). i < stop) (\<lambda>(i, s). (i + step, body i s)) (start, s))"

lemma for_loop_unfold:
  "for_loop start stop step body s =
     (if start < stop then for_loop (start + step) stop step body (body start s) else s)"
  by (subst for_loop_def, subst while_unfold) (simp add: for_loop_def)

lemmas [word_nat] = word_less_nat_alt word_le_nat_alt word_unat_eq_iff

lemma unat_u64_bound: "unat (x :: u64) < 18446744073709551616"
  using unsigned_less [of x, where 'a = nat] by simp

lemma unat_add_no_wrap:
  fixes a b :: "'a::len word"
  assumes "unat a + unat b < 2 ^ LENGTH('a)"
  shows "unat (a + b) = unat a + unat b"
  using assms by (simp add: unat_word_ariths)

lemma unat_plus_one_less:
  fixes i n :: "'a::len word"
  assumes "i < n"
  shows "unat (i + 1) = unat i + 1"
proof -
  have "unat i < unat n" and "unat n < 2 ^ LENGTH('a)"
    using assms by (simp_all add: word_less_nat_alt)
  then have "unat i + unat (1 :: 'a word) < 2 ^ LENGTH('a)"
    by (simp only: unat_1)
  from unat_add_no_wrap [OF this] show ?thesis by simp
qed

lemma for_loop_stride:
  fixes start stop step :: "'a::len word"
  assumes "unat start + n * unat step = unat stop" and "step \<noteq> 0"
  shows "for_loop start stop step body s =
           fold (\<lambda>k. body (start + of_nat k * step)) [0..<n] s"
  using assms(1)
proof (induction n arbitrary: start s)
  case 0
  then have "start = stop" by (simp add: word_unat_eq_iff)
  then show ?case by (subst for_loop_unfold) simp
next
  case (Suc n)
  have bound: "unat start + unat step \<le> unat stop"
    using Suc.prems by simp
  have "0 < unat step" using assms(2) by (simp add: unat_gt_0)
  with bound have less: "start < stop"
    by (simp add: word_less_nat_alt)
  have "unat stop < 2 ^ LENGTH('a)" by simp
  with bound have next_start: "unat (start + step) = unat start + unat step"
    by (intro unat_add_no_wrap) linarith
  have ih: "for_loop (start + step) stop step body (body start s) =
      fold (\<lambda>k. body (start + step + of_nat k * step)) [0..<n] (body start s)"
    by (rule Suc.IH) (use Suc.prems next_start in simp)
  have "[0..<Suc n] = 0 # map Suc [0..<n]"
    by (simp only: upt_conv_Cons map_Suc_upt zero_less_Suc)
  then have "fold (\<lambda>k. body (start + of_nat k * step)) [0..<Suc n] s =
      fold (\<lambda>k. body (start + step + of_nat k * step)) [0..<n] (body start s)"
    by (simp add: fold_map comp_def algebra_simps del: upt_Suc)
  with ih less show ?case
    by (subst for_loop_unfold) simp
qed

lemma for_loop_count:
  fixes n :: "'a::len word"
  shows "for_loop 0 n 1 body s = fold (\<lambda>k. body (of_nat k)) [0..<unat n] s"
proof -
  have "unat (0 :: 'a word) + unat n * unat (1 :: 'a word) = unat n" by simp
  from for_loop_stride [OF this, of body s] show ?thesis by simp
qed

lemma for_loop_index:
  fixes n :: "'a::len word"
  shows "for_loop 0 n 1 (\<lambda>i. body (unat i)) s = fold body [0..<unat n] s"
proof -
  have "unat (of_nat k :: 'a word) = k" if "k < unat n" for k
    using that by (metis le_unat_uoi less_imp_le)
  then show ?thesis
    by (subst for_loop_count) (rule fold_cong, simp_all)
qed

lemma for_loop_list:
  assumes "unat n \<le> length xs"
  shows "for_loop 0 n 1 (\<lambda>i. f (xs ! unat i)) s = fold f (take (unat n) xs) s"
proof -
  have "for_loop 0 n 1 (\<lambda>i. f (xs ! unat i)) s = fold (\<lambda>k. f (xs ! k)) [0..<unat n] s"
    by (rule for_loop_index)
  also have "\<dots> = fold f (map ((!) xs) [0..<unat n]) s"
    by (simp add: fold_map comp_def)
  also have "map ((!) xs) [0..<unat n] = take (unat n) xs"
    using assms by (intro nth_equalityI) simp_all
  finally show ?thesis .
qed

subsection \<open>Folds that keep an invariant\<close>

lemma fold_invariant:
  assumes "P s" and "\<And>x s. x \<in> set xs \<Longrightarrow> P s \<Longrightarrow> P (f x s)"
  shows "P (fold f xs s)"
  using assms by (induction xs arbitrary: s) auto

subsection \<open>Masks and overflow checks\<close>

lemma unat_and_mask: "unat (x AND mask n) = unat x mod 2 ^ n"
  by (simp only: take_bit_eq_mask [symmetric] unsigned_take_bit_eq)
     (simp only: take_bit_eq_mod)

lemma and_not_eq_minus: "(x :: 'a::len word) AND NOT m = x - (x AND m)"
proof -
  have "(x AND NOT m) + (x AND m) = (x AND NOT m) OR (x AND m)"
    by (rule disjunctive_add) (auto simp: bit_simps)
  also have "\<dots> = x"
    by (rule bit_word_eqI) (auto simp: bit_simps)
  finally show ?thesis by (simp add: algebra_simps)
qed

lemma unat_and_not_mask: "unat (x AND NOT (mask n)) = unat x - unat x mod 2 ^ n"
proof -
  have "x AND mask n \<le> x" by (rule word_and_le2)
  then show ?thesis
    by (simp add: and_not_eq_minus unat_sub unat_and_mask)
qed

lemma mask_literals:
  "(7 :: 'a::len word) = mask 3" "(15 :: 'a word) = mask 4"
  "(511 :: 'a word) = mask 9" "(4095 :: 'a word) = mask 12"
  by (simp_all add: mask_eq_exp_minus_1)

lemma unat_and_literal [mask_simps]:
  fixes x :: "'a::len word"
  shows "unat (x AND 7) = unat x mod 8" and "unat (x AND 15) = unat x mod 16"
    and "unat (x AND 511) = unat x mod 512" and "unat (x AND 4095) = unat x mod 4096"
  using unat_and_mask [of x 3] unat_and_mask [of x 4] unat_and_mask [of x 9]
    unat_and_mask [of x 12]
  by (simp_all flip: mask_literals)

lemma unat_and_not_literal [mask_simps]:
  fixes x :: "'a::len word"
  shows "unat (x AND NOT 15) = unat x - unat x mod 16"
    and "unat (x AND NOT 4095) = unat x - unat x mod 4096"
    and "unat (x AND - 16) = unat x - unat x mod 16"
    and "unat (x AND - 4096) = unat x - unat x mod 4096"
proof -
  show a: "unat (x AND NOT 15) = unat x - unat x mod 16"
    using unat_and_not_mask [of x 4] by (simp only: mask_literals) simp
  show b: "unat (x AND NOT 4095) = unat x - unat x mod 4096"
    using unat_and_not_mask [of x 12] by (simp only: mask_literals) simp
  from a show "unat (x AND - 16) = unat x - unat x mod 16" by simp
  from b show "unat (x AND - 4096) = unat x - unat x mod 4096" by simp
qed

subsection \<open>Loops that write an array from its start\<close>

lemma fold_set_prefix:
  "n \<le> length xs \<Longrightarrow> fold (\<lambda>i xs. xs[i := f i]) [0..<n] xs = map f [0..<n] @ drop n xs"
proof (induction n)
  case (Suc n)
  then have "(map f [0..<n] @ drop n xs)[n := f n] = map f [0..<n] @ f n # drop (Suc n) xs"
    by (simp add: list_update_append Cons_nth_drop_Suc [symmetric])
  with Suc show ?case by simp
qed simp

lemma fold_update_each:
  "n \<le> length xs \<Longrightarrow>
     fold (\<lambda>i xs. xs[i := f (xs ! i)]) [0..<n] xs = map f (take n xs) @ drop n xs"
proof (induction n)
  case (Suc n)
  then have "(map f (take n xs) @ drop n xs)[n := f (xs ! n)] =
      map f (take n xs) @ f (xs ! n) # drop (Suc n) xs"
    by (simp add: list_update_append Cons_nth_drop_Suc [symmetric])
  moreover have "(map f (take n xs) @ drop n xs) ! n = xs ! n"
    using Suc.prems by (simp add: nth_append)
  ultimately show ?case
    using Suc by (simp add: take_Suc_conv_app_nth)
qed simp

end
