(* ===== verification/Frame_Allocator.thy ===== *)
theory Frame_Allocator
  imports Kernel_Prelude
begin

text \<open>
  The interface between the physical memory manager and its clients: what a source of
  page frames promises. \<open>avail s\<close> is the set of physical addresses the allocator may
  still hand out; \<open>alloc\<close> takes one of them or reports \<open>invalid\<close>, \<open>release\<close> gives
  one back. The clients' lemmas are proved here once; \<open>Pmm\<close> interprets the locale on
  \<open>pmm_alloc_frame\<close> and \<open>pmm_free_frame\<close>, and \<open>Vmm\<close> relies on it.
\<close>

primrec alloc_many :: "('s \<Rightarrow> u64 \<times> 's) \<Rightarrow> nat \<Rightarrow> 's \<Rightarrow> u64 list \<times> 's" where
  "alloc_many alloc 0 s = ([], s)"
| "alloc_many alloc (Suc n) s =
     (let (a, s') = alloc s; (as, s'') = alloc_many alloc n s' in (a # as, s''))"

locale frame_allocator =
  fixes alloc :: "'s \<Rightarrow> u64 \<times> 's"
    and release :: "'s \<Rightarrow> u64 \<Rightarrow> bool \<times> 's"
    and inv :: "'s \<Rightarrow> bool"
    and avail :: "'s \<Rightarrow> u64 set"
    and invalid :: u64
  assumes alloc_none: "inv s \<Longrightarrow> avail s = {} \<Longrightarrow> alloc s = (invalid, s)"
    and alloc_some: "inv s \<Longrightarrow> avail s \<noteq> {} \<Longrightarrow> alloc s = (a, s') \<Longrightarrow>
          a \<in> avail s \<and> avail s' = avail s - {a} \<and> inv s'"
    and avail_valid: "inv s \<Longrightarrow> a \<in> avail s \<Longrightarrow> a \<noteq> invalid \<and> unat a mod 4096 = 0"
    and avail_finite: "inv s \<Longrightarrow> finite (avail s)"
    and release_avail: "inv s \<Longrightarrow> a \<in> avail s \<Longrightarrow> release s a = (False, s)"
    and release_some: "inv s \<Longrightarrow> release s a = (True, s') \<Longrightarrow>
          avail s' = insert a (avail s) \<and> inv s'"
    and release_refused: "inv s \<Longrightarrow> release s a = (False, s') \<Longrightarrow> s' = s"
begin

lemma alloc_not_avail: "inv s \<Longrightarrow> avail s \<noteq> {} \<Longrightarrow> alloc s = (a, s') \<Longrightarrow> a \<notin> avail s'"
  using alloc_some by blast

lemma alloc_many_distinct:
  assumes "inv s" and "n \<le> card (avail s)" and "alloc_many alloc n s = (as, s')"
  shows "length as = n \<and> distinct as \<and> set as \<subseteq> avail s \<and>
         avail s' = avail s - set as \<and> inv s' \<and> invalid \<notin> set as"
  using assms
proof (induction n arbitrary: s as)
  case 0
  then show ?case by simp
next
  case (Suc n)
  obtain a s1 where a: "alloc s = (a, s1)" by fastforce
  obtain bs where bs: "alloc_many alloc n s1 = (bs, s')" and as: "as = a # bs"
    using Suc.prems(3) a by (auto split: prod.splits)
  have "avail s \<noteq> {}" using Suc.prems(2) by auto
  from alloc_some [OF Suc.prems(1) this a]
  have s1: "a \<in> avail s" "avail s1 = avail s - {a}" "inv s1" by auto
  have "n \<le> card (avail s1)"
    using Suc.prems(2) s1 avail_finite [OF Suc.prems(1)] by simp
  from Suc.IH [OF s1(3) this bs] s1 avail_valid [OF Suc.prems(1) s1(1)]
  show ?case by (auto simp: as)
qed

lemma alloc_release:
  assumes "inv s" and "avail s \<noteq> {}" and "alloc s = (a, s')" and "release s' a = (True, s'')"
  shows "avail s'' = avail s \<and> inv s''"
  using alloc_some [OF assms(1-3)] release_some [OF _ assms(4)] by auto

lemma no_double_release:
  assumes "inv s" and "release s a = (True, s')"
  shows "release s' a = (False, s')"
  using release_some [OF assms] release_avail [of s' a] by auto

end

end
