(* ===== verification/Pmm.thy ===== *)
theory Pmm
  imports Frame_Allocator
begin

text \<open>
  The physical memory manager, \<open>src/pmm.c\<close> with \<open>include/pmm.h\<close>: a bitmap with one
  bit per 4 KiB frame (set: used), counters of free and used frames, and a hint below
  which no frame is free. A C pointer argument that the code compares with \<open>NULL\<close> is
  an option; the bitmap is the list of its bytes.
\<close>

subsection \<open>Data\<close>

definition PMM_PAGE_SIZE :: u64 where "PMM_PAGE_SIZE = 4096"

definition PMM_INVALID_FRAME :: u64 where "PMM_INVALID_FRAME = 0xffffffffffffffff"

definition BOOT_MEM_USABLE :: u32 where "BOOT_MEM_USABLE = 1"

record boot_mem_region =
  region_base :: u64
  region_length :: u64
  region_type :: u32

record pmm_state =
  pmm_bitmap :: "u8 list"
  bitmap_bytes :: u64
  max_phys :: u64
  frame_count :: u64
  free_frames :: u64
  used_frames :: u64
  reserved_frames :: u64
  ignored_frames :: u64
  next_hint :: u64
  initialized :: bool

subsection \<open>Arithmetic and bitmap helpers\<close>

definition align_down :: "u64 \<Rightarrow> u64 \<Rightarrow> u64" where
  "align_down value align = value AND NOT (align - 1)"

definition align_up :: "u64 \<Rightarrow> u64 \<Rightarrow> u64" where
  "align_up value align = (value + align - 1) AND NOT (align - 1)"

definition checked_add_u64 :: "u64 \<Rightarrow> u64 \<Rightarrow> u64 option" where
  "checked_add_u64 a b = (if 0xffffffffffffffff - a < b then None else Some (a + b))"

definition bitmap_set :: "u8 list \<Rightarrow> u64 \<Rightarrow> u8 list" where
  "bitmap_set bitmap index =
     (let i = unat (drop_bit 3 index)
      in bitmap[i := bitmap ! i OR push_bit (unat (index AND 7)) 1])"

definition bitmap_clear :: "u8 list \<Rightarrow> u64 \<Rightarrow> u8 list" where
  "bitmap_clear bitmap index =
     (let i = unat (drop_bit 3 index)
      in bitmap[i := bitmap ! i AND NOT (push_bit (unat (index AND 7)) 1)])"

definition bitmap_test :: "u8 list \<Rightarrow> u64 \<Rightarrow> bool" where
  "bitmap_test bitmap index =
     (bitmap ! unat (drop_bit 3 index) AND push_bit (unat (index AND 7)) 1 \<noteq> 0)"

subsection \<open>Marking frames and ranges\<close>

definition mark_frame_free :: "u64 \<Rightarrow> pmm_state \<Rightarrow> pmm_state" where
  "mark_frame_free frame pmm =
     (if frame \<ge> frame_count pmm then pmm
      else if bitmap_test (pmm_bitmap pmm) frame then
        let pmm = pmm\<lparr>pmm_bitmap := bitmap_clear (pmm_bitmap pmm) frame\<rparr>;
            pmm = pmm\<lparr>free_frames := free_frames pmm + 1\<rparr>;
            pmm = (if used_frames pmm > 0 then pmm\<lparr>used_frames := used_frames pmm - 1\<rparr> else pmm)
        in (if frame < next_hint pmm then pmm\<lparr>next_hint := frame\<rparr> else pmm)
      else pmm)"

definition mark_frame_used :: "u64 \<Rightarrow> pmm_state \<Rightarrow> pmm_state" where
  "mark_frame_used frame pmm =
     (if frame \<ge> frame_count pmm then pmm
      else if \<not> bitmap_test (pmm_bitmap pmm) frame then
        let pmm = pmm\<lparr>pmm_bitmap := bitmap_set (pmm_bitmap pmm) frame\<rparr>;
            pmm = (if free_frames pmm > 0 then pmm\<lparr>free_frames := free_frames pmm - 1\<rparr> else pmm)
        in pmm\<lparr>used_frames := used_frames pmm + 1\<rparr>
      else pmm)"

definition mark_range_free :: "u64 \<Rightarrow> u64 \<Rightarrow> pmm_state \<Rightarrow> pmm_state" where
  "mark_range_free base len pmm =
     (if len = 0 then pmm
      else case checked_add_u64 base len of
        None \<Rightarrow> pmm
      | Some range_end \<Rightarrow>
          let start = align_up base PMM_PAGE_SIZE;
              stop = align_down range_end PMM_PAGE_SIZE
          in if stop \<le> start \<or> start \<ge> max_phys pmm then pmm
             else let stop = (if stop > max_phys pmm then max_phys pmm else stop)
                  in for_loop start stop PMM_PAGE_SIZE
                       (\<lambda>addr. mark_frame_free (addr div PMM_PAGE_SIZE)) pmm)"

text \<open>The body of the loop of \<open>mark_range_used\<close>.\<close>

definition reserve_frame :: "u64 \<Rightarrow> pmm_state \<Rightarrow> pmm_state" where
  "reserve_frame frame pmm =
     (let was_free = (\<not> bitmap_test (pmm_bitmap pmm) frame);
          pmm = mark_frame_used frame pmm
      in if was_free then pmm\<lparr>reserved_frames := reserved_frames pmm + 1\<rparr> else pmm)"

definition mark_range_used :: "u64 \<Rightarrow> u64 \<Rightarrow> pmm_state \<Rightarrow> pmm_state" where
  "mark_range_used base len pmm =
     (if len = 0 then pmm
      else case checked_add_u64 base len of
        None \<Rightarrow> pmm
      | Some range_end \<Rightarrow>
          let start = align_down base PMM_PAGE_SIZE;
              stop = align_up range_end PMM_PAGE_SIZE
          in if stop \<le> start \<or> start \<ge> max_phys pmm then pmm
             else let stop = (if stop > max_phys pmm then max_phys pmm else stop)
                  in for_loop start stop PMM_PAGE_SIZE
                       (\<lambda>addr. reserve_frame (addr div PMM_PAGE_SIZE)) pmm)"

subsection \<open>The public operations\<close>

definition pmm_zero_state :: "pmm_state option \<Rightarrow> pmm_state option" where
  "pmm_zero_state pmm =
     map_option (\<lambda>_. \<lparr>pmm_bitmap = [], bitmap_bytes = 0, max_phys = 0, frame_count = 0, free_frames = 0,
      used_frames = 0, reserved_frames = 0, ignored_frames = 0, next_hint = 0,
      initialized = False\<rparr>) pmm"

text \<open>The bodies of the two loops of \<open>pmm_init_from_map\<close> over the boot memory map.\<close>

definition init_usable_region :: "boot_mem_region \<Rightarrow> pmm_state \<Rightarrow> pmm_state" where
  "init_usable_region r pmm =
     (if region_type r = BOOT_MEM_USABLE
      then mark_range_free (region_base r) (region_length r) pmm else pmm)"

definition init_reserved_region :: "boot_mem_region \<Rightarrow> pmm_state \<Rightarrow> pmm_state" where
  "init_reserved_region r pmm =
     (if region_type r \<noteq> BOOT_MEM_USABLE
      then mark_range_used (region_base r) (region_length r) pmm else pmm)"

definition pmm_init_from_map ::
  "pmm_state option \<Rightarrow> boot_mem_region list option \<Rightarrow> u64 \<Rightarrow> u8 list option \<Rightarrow> u64 \<Rightarrow> u64
     \<Rightarrow> bool \<times> pmm_state option" where
  "pmm_init_from_map pmm regions region_count bitmap_storage bitmap_storage_bytes max_phys_bytes =
     (case (pmm, regions, bitmap_storage) of
        (Some p, Some rs, Some storage) \<Rightarrow>
          if region_count = 0 then (False, pmm)
          else if max_phys_bytes = 0 \<or> max_phys_bytes AND (PMM_PAGE_SIZE - 1) \<noteq> 0
          then (False, pmm)
          else
            let frame_count' = max_phys_bytes div PMM_PAGE_SIZE;
                required = (frame_count' + 7) div 8
            in if bitmap_storage_bytes < required then (False, pmm)
               else
                 let p = the (pmm_zero_state (Some p));
                     p = p\<lparr>bitmap_bytes := required, max_phys := max_phys_bytes,
                           frame_count := frame_count', used_frames := frame_count'\<rparr>;
                     p = p\<lparr>pmm_bitmap :=
                           for_loop 0 required 1 (\<lambda>i storage. storage[unat i := 0xff]) storage\<rparr>;
                     p = for_loop 0 region_count 1
                           (\<lambda>i. init_usable_region (rs ! unat i)) p;
                     p = mark_range_used 0 PMM_PAGE_SIZE p;
                     p = for_loop 0 region_count 1
                           (\<lambda>i. init_reserved_region (rs ! unat i)) p
                 in (True, Some (p\<lparr>initialized := True\<rparr>))
      | _ \<Rightarrow> (False, pmm))"

function find_free_frame :: "u8 list \<Rightarrow> u64 \<Rightarrow> u64 \<Rightarrow> u64 option" where
  "find_free_frame bitmap f stop =
     (if f < stop
      then if \<not> bitmap_test bitmap f then Some f else find_free_frame bitmap (f + 1) stop
      else None)"
  by pat_completeness auto
termination
proof (relation "measure (\<lambda>(bitmap, f, stop). unat stop - unat f)")
  fix bitmap and f stop :: u64
  assume "f < stop"
  from unat_plus_one_less [OF this] \<open>f < stop\<close> show "((bitmap, f + 1, stop), bitmap, f, stop)
      \<in> measure (\<lambda>(bitmap, f, stop). unat stop - unat f)"
    by (simp add: word_less_nat_alt)
qed simp

definition pmm_alloc_frame :: "pmm_state option \<Rightarrow> u64 \<times> pmm_state option" where
  "pmm_alloc_frame pmm =
     (case pmm of
        None \<Rightarrow> (PMM_INVALID_FRAME, None)
      | Some p \<Rightarrow>
          if \<not> initialized p \<or> free_frames p = 0 then (PMM_INVALID_FRAME, pmm)
          else case find_free_frame (pmm_bitmap p) (next_hint p) (frame_count p) of
            Some f \<Rightarrow> (f * PMM_PAGE_SIZE, Some ((mark_frame_used f p)\<lparr>next_hint := f + 1\<rparr>))
          | None \<Rightarrow>
              (case find_free_frame (pmm_bitmap p) 0 (next_hint p) of
                 Some f \<Rightarrow> (f * PMM_PAGE_SIZE, Some ((mark_frame_used f p)\<lparr>next_hint := f + 1\<rparr>))
               | None \<Rightarrow> (PMM_INVALID_FRAME, pmm)))"

definition pmm_free_frame :: "pmm_state option \<Rightarrow> u64 \<Rightarrow> bool \<times> pmm_state option" where
  "pmm_free_frame pmm phys_addr =
     (case pmm of
        None \<Rightarrow> (False, None)
      | Some p \<Rightarrow>
          if \<not> initialized p then (False, pmm)
          else if phys_addr AND (PMM_PAGE_SIZE - 1) \<noteq> 0 \<or> phys_addr = 0 \<or> phys_addr \<ge> max_phys p
          then (False, pmm)
          else let frame = phys_addr div PMM_PAGE_SIZE
               in if \<not> bitmap_test (pmm_bitmap p) frame then (False, pmm)
                  else (True, Some (mark_frame_free frame p)))"

definition pmm_reserve_range :: "pmm_state option \<Rightarrow> u64 \<Rightarrow> u64 \<Rightarrow> bool \<times> pmm_state option" where
  "pmm_reserve_range pmm base len =
     (case pmm of
        None \<Rightarrow> (False, None)
      | Some p \<Rightarrow>
          if \<not> initialized p \<or> len = 0 then (False, pmm)
          else (True, Some (mark_range_used base len p)))"

definition pmm_is_frame_free :: "pmm_state option \<Rightarrow> u64 \<Rightarrow> bool" where
  "pmm_is_frame_free pmm phys_addr =
     (case pmm of
        None \<Rightarrow> False
      | Some p \<Rightarrow>
          if \<not> initialized p then False
          else if phys_addr AND (PMM_PAGE_SIZE - 1) \<noteq> 0 \<or> phys_addr \<ge> max_phys p then False
          else \<not> bitmap_test (pmm_bitmap p) (phys_addr div PMM_PAGE_SIZE))"

definition pmm_free_count :: "pmm_state option \<Rightarrow> u64" where
  "pmm_free_count pmm = (case pmm of Some p \<Rightarrow> free_frames p | None \<Rightarrow> 0)"

definition pmm_used_count :: "pmm_state option \<Rightarrow> u64" where
  "pmm_used_count pmm = (case pmm of Some p \<Rightarrow> used_frames p | None \<Rightarrow> 0)"

definition pmm_frame_count :: "pmm_state option \<Rightarrow> u64" where
  "pmm_frame_count pmm = (case pmm of Some p \<Rightarrow> frame_count p | None \<Rightarrow> 0)"

declare find_free_frame.simps [simp del]

subsection \<open>The bitmap as a set of frame numbers\<close>

definition bitmap_bit :: "u8 list \<Rightarrow> nat \<Rightarrow> bool" where
  "bitmap_bit bitmap f = bit (bitmap ! (f div 8)) (f mod 8)"

definition used_set :: "pmm_state \<Rightarrow> nat set" where
  "used_set p = {f \<in> {..<unat (frame_count p)}. bitmap_bit (pmm_bitmap p) f}"

definition free_set :: "pmm_state \<Rightarrow> nat set" where
  "free_set p = {f \<in> {..<unat (frame_count p)}. \<not> bitmap_bit (pmm_bitmap p) f}"

definition pmm_wf :: "pmm_state \<Rightarrow> bool" where
  "pmm_wf p \<longleftrightarrow>
     unat (frame_count p) * 4096 = unat (max_phys p) \<and>
     unat (frame_count p) \<le> 8 * length (pmm_bitmap p) \<and>
     unat (free_frames p) = card (free_set p) \<and>
     unat (used_frames p) = card (used_set p) \<and>
     (\<forall>f < unat (next_hint p). f \<in> used_set p)"

lemma byte_index [word_nat]:
  "unat (drop_bit 3 (i :: u64)) = unat i div 8" "unat ((i :: u64) AND 7) = unat i mod 8"
  by (simp_all only: unat_drop_bit_eq mask_simps) (simp add: drop_bit_eq_div)

lemma bitmap_test_bit: "bitmap_test bitmap i = bitmap_bit bitmap (unat i)"
  by (simp add: bitmap_test_def bitmap_bit_def byte_index bit_iff_and_push_bit_not_eq_0)

lemma frame_div_mod_eq: "(f :: nat) = g \<longleftrightarrow> f div 8 = g div 8 \<and> f mod 8 = g mod 8"
  by (metis div_mult_mod_eq)

lemma length_bitmap_upd [simp]:
  "length (bitmap_set bitmap i) = length bitmap" "length (bitmap_clear bitmap i) = length bitmap"
  by (simp_all add: bitmap_set_def bitmap_clear_def Let_def)

lemma bitmap_bit_set:
  assumes "unat i < 8 * length bitmap"
  shows "bitmap_bit (bitmap_set bitmap i) f \<longleftrightarrow> f = unat i \<or> bitmap_bit bitmap f"
proof -
  have "unat i div 8 < length bitmap" using assms by (simp add: div_less_iff_less_mult)
  then show ?thesis
    by (auto simp: bitmap_bit_def bitmap_set_def byte_index Let_def nth_list_update
        frame_div_mod_eq [of f] bit_simps)
qed

lemma bitmap_bit_clear:
  assumes "unat i < 8 * length bitmap"
  shows "bitmap_bit (bitmap_clear bitmap i) f \<longleftrightarrow> f \<noteq> unat i \<and> bitmap_bit bitmap f"
proof -
  have "unat i div 8 < length bitmap" using assms by (simp add: div_less_iff_less_mult)
  then show ?thesis
    by (auto simp: bitmap_bit_def bitmap_clear_def byte_index Let_def nth_list_update
        frame_div_mod_eq [of f] bit_simps)
qed

lemma used_set_subset: "used_set p \<subseteq> {..<unat (frame_count p)}"
  by (auto simp: used_set_def)

lemma finite_used_set [simp]: "finite (used_set p)" "finite (free_set p)"
  by (simp_all add: used_set_def free_set_def)

lemma free_set_eq: "free_set p = {..<unat (frame_count p)} - used_set p"
  by (auto simp: used_set_def free_set_def)

lemma card_free_used: "card (free_set p) + card (used_set p) = unat (frame_count p)"
proof -
  have "card (used_set p) \<le> card {..<unat (frame_count p)}"
    by (rule card_mono [OF finite_lessThan used_set_subset])
  then show ?thesis
    by (simp add: free_set_eq card_Diff_subset used_set_subset)
qed

lemma pmm_wfD:
  assumes "pmm_wf p"
  shows "unat (frame_count p) * 4096 = unat (max_phys p)"
    and "unat (frame_count p) \<le> 8 * length (pmm_bitmap p)"
    and "unat (free_frames p) = card (free_set p)"
    and "unat (used_frames p) = card (used_set p)"
    and "\<And>f. f < unat (next_hint p) \<Longrightarrow> f \<in> used_set p"
  using assms by (auto simp: pmm_wf_def)

text \<open>A state change described by what it does to the set of used frames.\<close>

definition pmm_update :: "pmm_state \<Rightarrow> pmm_state \<Rightarrow> nat set \<Rightarrow> bool" where
  "pmm_update p q U \<longleftrightarrow>
     pmm_wf q \<and> used_set q = U \<and> frame_count q = frame_count p \<and> max_phys q = max_phys p \<and>
     initialized q = initialized p \<and> bitmap_bytes q = bitmap_bytes p"

lemma unat_inc: "unat x < unat y \<Longrightarrow> unat (x + 1) = unat x + 1" for x y :: u64
  using unat_plus_one_less [of x y] by (simp add: word_less_nat_alt)

lemma unat_dec: "0 < unat x \<Longrightarrow> unat (x - 1) = unat x - 1" for x :: u64
  by (metis unat_gt_0 unat_minus_one)

lemma mark_frame_free_update:
  assumes "pmm_wf p"
  shows "pmm_update p (mark_frame_free f p) (used_set p - {unat f})"
proof (cases "f < frame_count p \<and> bitmap_test (pmm_bitmap p) f")
  case False
  then have "mark_frame_free f p = p" and "unat f \<notin> used_set p"
    by (auto simp: mark_frame_free_def used_set_def bitmap_test_bit word_nat not_le)
  with assms show ?thesis by (simp add: pmm_update_def)
next
  case True
  note wf = pmm_wfD [OF assms]
  let ?q = "mark_frame_free f p"
  have used: "unat f \<in> used_set p"
    using True by (simp add: used_set_def bitmap_test_bit word_nat)
  then have pos: "0 < unat (used_frames p)"
    by (metis card_gt_0_iff empty_iff finite_used_set(1) wf(4))
  have fields: "frame_count ?q = frame_count p" "max_phys ?q = max_phys p"
    "initialized ?q = initialized p" "bitmap_bytes ?q = bitmap_bytes p"
    "pmm_bitmap ?q = bitmap_clear (pmm_bitmap p) f"
    "free_frames ?q = free_frames p + 1" "used_frames ?q = used_frames p - 1"
    "next_hint ?q = (if f < next_hint p then f else next_hint p)"
    using True pos by (auto simp: mark_frame_free_def Let_def word_nat)
  have in_map: "unat f < 8 * length (pmm_bitmap p)"
    using True wf(2) by (simp add: word_nat)
  have U: "used_set ?q = used_set p - {unat f}"
    using bitmap_bit_clear [OF in_map] by (auto simp: used_set_def fields)
  have F: "free_set ?q = insert (unat f) (free_set p)"
    using U True by (auto simp: free_set_eq fields word_nat)
  have "unat f \<notin> free_set p" using used by (simp add: free_set_eq)
  then have cards: "card (free_set ?q) = card (free_set p) + 1"
      "card (used_set ?q) = card (used_set p) - 1"
    using used by (simp_all add: F U)
  have "unat (free_frames p) < unat (frame_count p)"
    using card_free_used [of p] pos wf(3,4) by simp
  then have "unat (free_frames ?q) = card (free_set ?q)"
    using unat_inc [of "free_frames p" "frame_count p"] by (simp add: fields cards wf(3))
  moreover have "unat (used_frames ?q) = card (used_set ?q)"
    using unat_dec [OF pos] by (simp add: fields cards wf(4))
  moreover have "\<forall>g < unat (next_hint ?q). g \<in> used_set ?q"
    using wf(5) by (auto simp: U fields word_nat)
  ultimately show ?thesis
    using wf(1,2) by (simp add: pmm_update_def pmm_wf_def U fields)
qed

lemma mark_frame_used_update:
  assumes "pmm_wf p"
  shows "pmm_update p (mark_frame_used f p)
           (used_set p \<union> ({unat f} \<inter> {..<unat (frame_count p)}))"
proof (cases "f < frame_count p \<and> \<not> bitmap_test (pmm_bitmap p) f")
  case False
  then have "mark_frame_used f p = p"
      and "{unat f} \<inter> {..<unat (frame_count p)} \<subseteq> used_set p"
    by (auto simp: mark_frame_used_def used_set_def bitmap_test_bit word_nat not_le)
  with assms show ?thesis by (auto simp: pmm_update_def)
next
  case True
  note wf = pmm_wfD [OF assms]
  let ?q = "mark_frame_used f p"
  have free: "unat f \<in> free_set p"
    using True by (simp add: free_set_def bitmap_test_bit word_nat)
  then have pos: "0 < unat (free_frames p)"
    by (metis card_gt_0_iff empty_iff finite_used_set(2) wf(3))
  have fields: "frame_count ?q = frame_count p" "max_phys ?q = max_phys p"
    "initialized ?q = initialized p" "bitmap_bytes ?q = bitmap_bytes p"
    "pmm_bitmap ?q = bitmap_set (pmm_bitmap p) f"
    "free_frames ?q = free_frames p - 1" "used_frames ?q = used_frames p + 1"
    "next_hint ?q = next_hint p"
    using True pos by (auto simp: mark_frame_used_def Let_def word_nat)
  have in_map: "unat f < 8 * length (pmm_bitmap p)"
    using True wf(2) by (simp add: word_nat)
  have U: "used_set ?q = insert (unat f) (used_set p)"
    using bitmap_bit_set [OF in_map] True by (auto simp: used_set_def fields word_nat)
  have F: "free_set ?q = free_set p - {unat f}"
    by (auto simp: free_set_eq fields U)
  have "unat f \<notin> used_set p" using free by (simp add: free_set_eq)
  then have cards: "card (free_set ?q) = card (free_set p) - 1"
      "card (used_set ?q) = card (used_set p) + 1"
    using free by (simp_all add: F U)
  have "unat (used_frames p) < unat (frame_count p)"
    using card_free_used [of p] pos wf(3,4) by simp
  then have "unat (used_frames ?q) = card (used_set ?q)"
    using unat_inc [of "used_frames p" "frame_count p"] by (simp add: fields cards wf(4))
  moreover have "unat (free_frames ?q) = card (free_set ?q)"
    using unat_dec [OF pos] by (simp add: fields cards wf(3))
  moreover have "\<forall>g < unat (next_hint ?q). g \<in> used_set ?q"
    using wf(5) by (auto simp: U fields)
  ultimately show ?thesis
    using wf(1,2) True by (simp add: pmm_update_def pmm_wf_def U fields word_nat)
qed
subsection \<open>Alignment and ranges of frames\<close>

lemma unat_PAGE_SIZE [simp]: "unat PMM_PAGE_SIZE = 4096"
  by (simp add: PMM_PAGE_SIZE_def)

lemma unat_align_down: "unat (align_down v PMM_PAGE_SIZE) = unat v div 4096 * 4096"
  by (simp add: align_down_def PMM_PAGE_SIZE_def mask_simps minus_mod_eq_div_mult)

lemma unat_align_up:
  assumes "unat v \<le> 2 ^ 64 - 4096"
  shows "unat (align_up v PMM_PAGE_SIZE) = (unat v + 4095) div 4096 * 4096"
proof -
  have "unat (v + 4095) = unat v + 4095"
    using unat_add_no_wrap [of v 4095] assms by simp
  then show ?thesis
    by (simp add: align_up_def PMM_PAGE_SIZE_def mask_simps minus_mod_eq_div_mult
        add_diff_eq [symmetric])
qed

lemma checked_add_u64_eq:
  "checked_add_u64 a b = (if unat a + unat b < 2 ^ 64 then Some (a + b) else None)"
proof -
  have "unat (0xffffffffffffffff - a) = 0xffffffffffffffff - unat a"
    using unat_sub [of a "0xffffffffffffffff"] unat_u64_bound [of a] by (simp add: word_le_nat_alt)
  with unat_u64_bound [of a] show ?thesis
    by (auto simp: checked_add_u64_def word_less_nat_alt)
qed

definition frames_inside :: "nat \<Rightarrow> nat \<Rightarrow> nat set" where
  "frames_inside base len = {f. base \<le> f * 4096 \<and> (f + 1) * 4096 \<le> base + len}"

definition frames_touched :: "nat \<Rightarrow> nat \<Rightarrow> nat set" where
  "frames_touched base len = {f. 0 < len \<and> f * 4096 < base + len \<and> base < (f + 1) * 4096}"

lemma frames_inside_eq:
  "frames_inside base len = {(base + 4095) div 4096..<(base + len) div 4096}"
  by (auto simp: frames_inside_def)

lemma frames_touched_eq:
  "0 < len \<Longrightarrow> frames_touched base len = {base div 4096..<(base + len + 4095) div 4096}"
  by (auto simp: frames_touched_def)

lemma page_loop_fold:
  fixes g :: "u64 \<Rightarrow> 's \<Rightarrow> 's"
  assumes "unat start = a * 4096" and "unat stop = b * 4096" and "a \<le> b"
  shows "for_loop start stop PMM_PAGE_SIZE (\<lambda>addr. g (addr div PMM_PAGE_SIZE)) s =
           fold (\<lambda>f. g (of_nat f)) [a..<b] s"
proof -
  have n: "unat start + (b - a) * unat PMM_PAGE_SIZE = unat stop"
    using assms by (simp add: diff_mult_distrib)
  have idx: "(start + of_nat k * PMM_PAGE_SIZE) div PMM_PAGE_SIZE = of_nat (a + k)"
    if "k < b - a" for k
  proof -
    have "start + of_nat k * PMM_PAGE_SIZE = of_nat ((a + k) * 4096)"
    proof -
      have "of_nat (a * 4096) = start" by (simp only: assms(1) [symmetric] of_nat_unat ucast_id)
      then show ?thesis by (simp add: PMM_PAGE_SIZE_def distrib_right)
    qed
    moreover have "(a + k) * 4096 < 2 ^ 64"
    proof -
      have "(a + k) * 4096 < b * 4096" using that by simp
      also have "\<dots> < 2 ^ 64" using assms(2) unat_u64_bound [of stop] by simp
      finally show ?thesis .
    qed
    ultimately have "unat (start + of_nat k * PMM_PAGE_SIZE) = (a + k) * 4096"
      by (simp only: unat_of_nat) simp
    then show ?thesis
      by (simp only: word_arith_nat_div unat_PAGE_SIZE) simp
  qed
  have "for_loop start stop PMM_PAGE_SIZE (\<lambda>addr. g (addr div PMM_PAGE_SIZE)) s =
      fold (\<lambda>k. g ((start + of_nat k * PMM_PAGE_SIZE) div PMM_PAGE_SIZE)) [0..<b - a] s"
    by (rule for_loop_stride [OF n]) (simp add: PMM_PAGE_SIZE_def)
  also have "\<dots> = fold (\<lambda>k. g (of_nat (a + k))) [0..<b - a] s"
    by (rule fold_cong) (simp_all only: idx set_upt atLeastLessThan_iff)
  also have "\<dots> = fold (\<lambda>f. g (of_nat f)) (map (\<lambda>k. k + a) [0..<b - a]) s"
    by (simp add: fold_map comp_def add.commute)
  also have "map (\<lambda>k. k + a) [0..<b - a] = [a..<b]"
    using assms(3) by (simp add: map_add_upt)
  finally show ?thesis .
qed

lemma pmm_update_trans:
  "pmm_update p q U \<Longrightarrow> pmm_update q r V \<Longrightarrow> pmm_update p r V"
  by (simp add: pmm_update_def)

lemma fold_pmm_update:
  assumes "pmm_wf p"
    and "\<And>x q. x \<in> set xs \<Longrightarrow> pmm_wf q \<Longrightarrow> frame_count q = frame_count p \<Longrightarrow>
           pmm_update q (g x q) (h x (used_set q))"
  shows "pmm_update p (fold g xs p) (fold h xs (used_set p))"
  using assms
proof (induction xs arbitrary: p)
  case Nil
  then show ?case by (simp add: pmm_update_def)
next
  case (Cons x xs)
  let ?q = "g x p"
  have q: "pmm_update p ?q (h x (used_set p))"
    by (rule Cons.prems) (use Cons.prems in simp_all)
  then have "pmm_update ?q (fold g xs ?q) (fold h xs (used_set ?q))"
    by (intro Cons.IH Cons.prems(2)) (simp_all add: pmm_update_def)
  with q have "pmm_update p (fold g xs ?q) (fold h xs (used_set ?q))"
    by (rule pmm_update_trans)
  moreover have "used_set ?q = h x (used_set p)" using q by (simp add: pmm_update_def)
  ultimately show ?case by simp
qed

lemma fold_frames_update:
  fixes g :: "u64 \<Rightarrow> pmm_state \<Rightarrow> pmm_state"
  assumes "pmm_wf p" and "b \<le> 2 ^ 64"
    and "\<And>f q. pmm_wf q \<Longrightarrow> frame_count q = frame_count p \<Longrightarrow>
           pmm_update q (g f q) (h (unat f) (used_set q))"
  shows "pmm_update p (fold (\<lambda>f. g (of_nat f)) [a..<b] p) (fold h [a..<b] (used_set p))"
proof (rule fold_pmm_update [OF assms(1)])
  fix x q
  assume "x \<in> set [a..<b]" and q: "pmm_wf q" "frame_count q = frame_count p"
  then have "unat (of_nat x :: u64) = x"
    using assms(2) by (simp add: unat_of_nat)
  with assms(3) [OF q, of "of_nat x"]
  show "pmm_update q (g (of_nat x) q) (h x (used_set q))" by simp
qed

lemma fold_remove: "fold (\<lambda>f U. U - {f}) xs U = U - set xs"
  by (induction xs arbitrary: U) auto

lemma fold_add_below: "fold (\<lambda>f U. U \<union> ({f} \<inter> N)) xs U = U \<union> (set xs \<inter> N)"
  by (induction xs arbitrary: U) auto

lemma used_set_reserved [simp]: "used_set (p\<lparr>reserved_frames := x\<rparr>) = used_set p"
    "free_set (p\<lparr>reserved_frames := x\<rparr>) = free_set p"
    "pmm_wf (p\<lparr>reserved_frames := x\<rparr>) = pmm_wf p"
  by (simp_all add: used_set_def free_set_def pmm_wf_def)

theorem mark_range_free_update:
  assumes wf: "pmm_wf p"
    and sum: "unat base + unat len < 2 ^ 64" and top: "unat base \<le> 2 ^ 64 - 4096"
  shows "pmm_update p (mark_range_free base len p)
           (used_set p - frames_inside (unat base) (unat len))"
proof -
  define a where "a = (unat base + 4095) div 4096"
  define b where "b = (unat base + unat len) div 4096"
  let ?fc = "unat (frame_count p)"
  have below: "used_set p - frames_inside (unat base) (unat len) = used_set p - {a..<min b ?fc}"
    using used_set_subset [of p] by (auto simp: frames_inside_eq a_def b_def)
  have start: "unat (align_up base PMM_PAGE_SIZE) = a * 4096"
    using unat_align_up [OF top] by (simp add: a_def)
  have stop: "unat (align_down (base + len) PMM_PAGE_SIZE) = b * 4096"
    using unat_align_down unat_add_no_wrap [of base len] sum by (simp add: b_def)
  have max: "unat (max_phys p) = ?fc * 4096"
    using pmm_wfD(1) [OF wf] by simp
  show ?thesis
  proof (cases "len = 0 \<or> b \<le> a \<or> ?fc \<le> a")
    case True
    then have "mark_range_free base len p = p"
      using start stop max sum
      by (auto simp: mark_range_free_def checked_add_u64_eq Let_def word_nat)
    moreover have "{a..<min b ?fc} = {}"
    proof -
      have "b \<le> a" if "len = 0" using that by (simp add: a_def b_def)
      with True show ?thesis by auto
    qed
    ultimately show ?thesis
      using wf by (simp only: below pmm_update_def) simp
  next
    case False
    define stop' where
      "stop' = (if align_down (base + len) PMM_PAGE_SIZE > max_phys p then max_phys p
                else align_down (base + len) PMM_PAGE_SIZE)"
    have stop': "unat stop' = min b ?fc * 4096"
      using stop max by (auto simp: stop'_def word_nat min_def)
    have "mark_range_free base len p =
        for_loop (align_up base PMM_PAGE_SIZE) stop' PMM_PAGE_SIZE
          (\<lambda>addr. mark_frame_free (addr div PMM_PAGE_SIZE)) p"
      using False start stop max sum
      by (auto simp: mark_range_free_def checked_add_u64_eq Let_def word_nat stop'_def)
    also have "\<dots> = fold (\<lambda>f. mark_frame_free (of_nat f)) [a..<min b ?fc] p"
      by (rule page_loop_fold [OF start stop']) (use False in auto)
    finally have loop: "mark_range_free base len p =
        fold (\<lambda>f. mark_frame_free (of_nat f)) [a..<min b ?fc] p" .
    have "min b ?fc \<le> 2 ^ 64"
      using unat_u64_bound [of "frame_count p"] by simp
    from fold_frames_update [where h = "\<lambda>f U. U - {f}" and g = mark_frame_free and a = a,
        OF wf this mark_frame_free_update]
    show ?thesis by (simp add: loop below fold_remove)
  qed
qed


lemma reserve_frame_update:
  assumes "pmm_wf p" and "frame_count p = n"
  shows "pmm_update p (reserve_frame f p) (used_set p \<union> ({unat f} \<inter> {..<unat n}))"
  using mark_frame_used_update [OF assms(1), of f] assms(2)
  by (auto simp: reserve_frame_def Let_def pmm_update_def)

theorem mark_range_used_update:
  assumes wf: "pmm_wf p" and sum: "unat base + unat len \<le> 2 ^ 64 - 4096"
  shows "pmm_update p (mark_range_used base len p)
           (used_set p \<union> (frames_touched (unat base) (unat len) \<inter> {..<unat (frame_count p)}))"
proof (cases "len = 0")
  case True
  with wf show ?thesis
    by (simp add: mark_range_used_def frames_touched_def pmm_update_def)
next
  case False
  define a where "a = unat base div 4096"
  define b where "b = (unat base + unat len + 4095) div 4096"
  let ?fc = "unat (frame_count p)"
  have "0 < unat len" using False by (simp add: unat_gt_0)
  then have below: "frames_touched (unat base) (unat len) \<inter> {..<?fc} = {a..<min b ?fc}"
    by (auto simp: frames_touched_eq a_def b_def)
  have "a < b" using \<open>0 < unat len\<close> by (simp add: a_def b_def)
  have add: "unat (base + len) = unat base + unat len"
    by (rule unat_add_no_wrap) (use sum in simp)
  have start: "unat (align_down base PMM_PAGE_SIZE) = a * 4096"
    by (simp add: unat_align_down a_def)
  have stop: "unat (align_up (base + len) PMM_PAGE_SIZE) = b * 4096"
    using unat_align_up [of "base + len"] sum by (simp add: add b_def)
  have max: "unat (max_phys p) = ?fc * 4096"
    using pmm_wfD(1) [OF wf] by simp
  show ?thesis
  proof (cases "?fc \<le> a")
    case True
    then have "mark_range_used base len p = p" and "{a..<min b ?fc} = {}"
      using start stop max sum
      by (auto simp: mark_range_used_def checked_add_u64_eq Let_def word_nat)
    with wf show ?thesis
      by (simp only: below pmm_update_def) simp
  next
    case False
    define stop' where
      "stop' = (if align_up (base + len) PMM_PAGE_SIZE > max_phys p then max_phys p
                else align_up (base + len) PMM_PAGE_SIZE)"
    have stop': "unat stop' = min b ?fc * 4096"
      using stop max by (auto simp: stop'_def word_nat min_def)
    have "mark_range_used base len p =
        for_loop (align_down base PMM_PAGE_SIZE) stop' PMM_PAGE_SIZE
          (\<lambda>addr. reserve_frame (addr div PMM_PAGE_SIZE)) p"
      using False \<open>len \<noteq> 0\<close> \<open>a < b\<close> start stop max sum
      by (auto simp: mark_range_used_def checked_add_u64_eq Let_def word_nat stop'_def)
    also have "\<dots> = fold (\<lambda>f. reserve_frame (of_nat f)) [a..<min b ?fc] p"
      by (rule page_loop_fold [OF start stop']) (use False \<open>a < b\<close> in auto)
    finally have loop: "mark_range_used base len p =
        fold (\<lambda>f. reserve_frame (of_nat f)) [a..<min b ?fc] p" .
    have "min b ?fc \<le> 2 ^ 64"
      using unat_u64_bound [of "frame_count p"] by simp
    from fold_frames_update [where h = "\<lambda>f U. U \<union> ({f} \<inter> {..<?fc})" and g = reserve_frame
        and a = a, OF wf this reserve_frame_update]
    have "pmm_update p (mark_range_used base len p)
        (used_set p \<union> ({a..<min b ?fc} \<inter> {..<?fc}))"
      by (simp add: loop fold_add_below)
    moreover have "{a..<min b ?fc} \<inter> {..<?fc} = {a..<min b ?fc}" by auto
    ultimately show ?thesis by (simp only: below)
  qed
qed

subsection \<open>Allocation takes the lowest free frame\<close>

lemma find_free_frame_correct:
  "case find_free_frame bitmap f stop of
     None \<Rightarrow> \<forall>g. unat f \<le> g \<and> g < unat stop \<longrightarrow> bitmap_bit bitmap g
   | Some g \<Rightarrow> f \<le> g \<and> g < stop \<and> \<not> bitmap_bit bitmap (unat g) \<and>
               (\<forall>h. unat f \<le> h \<and> h < unat g \<longrightarrow> bitmap_bit bitmap h)"
proof (induction bitmap f stop rule: find_free_frame.induct)
  case (1 bitmap f stop)
  show ?case
  proof (cases "f < stop \<and> bitmap_test bitmap f")
    case False
    then show ?thesis
      by (auto simp: find_free_frame.simps [of bitmap f stop] bitmap_test_bit word_nat)
  next
    case True
    have succ: "unat (f + 1) = unat f + 1"
      using True unat_plus_one_less by blast
    have split: "unat f \<le> h \<longleftrightarrow> h = unat f \<or> unat (f + 1) \<le> h" for h
      by (auto simp: succ)
    show ?thesis
      using 1 True by (auto simp: find_free_frame.simps [of bitmap f stop] bitmap_test_bit split
          word_nat split: option.splits)
  qed
qed

lemma pmm_next_hint_le:
  assumes "pmm_wf p"
  shows "unat (next_hint p) \<le> unat (frame_count p)"
proof (rule ccontr)
  assume "\<not> ?thesis"
  then have "unat (frame_count p) \<in> used_set p"
    using pmm_wfD(5) [OF assms] by simp
  then show False by (simp add: used_set_def)
qed

lemma find_free_from_hint:
  assumes "pmm_wf p"
  shows "find_free_frame (pmm_bitmap p) (next_hint p) (frame_count p) =
           (if free_set p = {} then None else Some (of_nat (Min (free_set p))))"
proof -
  let ?r = "find_free_frame (pmm_bitmap p) (next_hint p) (frame_count p)"
  note correct = find_free_frame_correct [where bitmap = "pmm_bitmap p" and f = "next_hint p" and stop = "frame_count p"]
  have low: "bitmap_bit (pmm_bitmap p) g" if "g < unat (next_hint p)" for g
    using pmm_wfD(5) [OF assms that] by (simp add: used_set_def)
  show ?thesis
  proof (cases ?r)
    case None
    have "bitmap_bit (pmm_bitmap p) g" if "g < unat (frame_count p)" for g
      using None correct low [of g] that by (cases "g < unat (next_hint p)") auto
    with None show ?thesis by (auto simp: free_set_def)
  next
    case (Some g)
    have mem: "unat g \<in> free_set p"
      using correct Some by (simp add: free_set_def word_nat)
    have least: "unat g \<le> h" if "h \<in> free_set p" for h
    proof (rule ccontr)
      assume "\<not> unat g \<le> h"
      then have "bitmap_bit (pmm_bitmap p) h"
        using correct Some low by (cases "h < unat (next_hint p)") (auto simp: not_le)
      with that show False by (simp add: free_set_def)
    qed
    have "Min (free_set p) = unat g"
      by (rule Min_eqI) (use mem least in auto)
    with Some mem show ?thesis by auto
  qed
qed

lemma frame_addr_unat:
  assumes "pmm_wf p" and "f < unat (frame_count p)"
  shows "unat (of_nat f * PMM_PAGE_SIZE) = f * 4096"
    and "unat (of_nat f :: u64) = f"
proof -
  have lt: "f * 4096 < 2 ^ 64"
    using assms(2) pmm_wfD(1) [OF assms(1)] unat_u64_bound [of "max_phys p"] by simp
  then show "unat (of_nat f * PMM_PAGE_SIZE) = f * 4096"
  proof -
    have "of_nat f * PMM_PAGE_SIZE = of_nat (f * 4096)" by (simp add: PMM_PAGE_SIZE_def)
    with lt show ?thesis by (simp only: unat_of_nat) simp
  qed
  from lt show "unat (of_nat f :: u64) = f"
    by (simp add: unat_of_nat)
qed

lemma page_addr_eq:
  fixes x a :: u64
  assumes "unat a mod 4096 = 0"
  shows "x = a \<longleftrightarrow> unat x mod 4096 = 0 \<and> unat x div 4096 = unat a div 4096"
  using assms by (metis div_mult_mod_eq word_unat_eq_iff)

lemma used_set_hint [simp]: "used_set (p\<lparr>next_hint := x\<rparr>) = used_set p"
    "free_set (p\<lparr>next_hint := x\<rparr>) = free_set p"
  by (simp_all add: used_set_def free_set_def)

lemma pmm_alloc_update:
  assumes wf: "pmm_wf p" and init: "initialized p" and avail: "free_set p \<noteq> {}"
  defines "f \<equiv> Min (free_set p)"
  shows "\<exists>q. pmm_alloc_frame (Some p) = (of_nat f * PMM_PAGE_SIZE, Some q) \<and>
             pmm_update p q (insert f (used_set p))"
proof -
  have f: "f \<in> free_set p" unfolding f_def by (rule Min_in) (use avail in auto)
  then have lt: "f < unat (frame_count p)" by (simp add: free_set_def)
  note uf = frame_addr_unat [OF wf lt]
  let ?q = "mark_frame_used (of_nat f) p"
  have upd: "pmm_update p ?q (insert f (used_set p))"
    using mark_frame_used_update [OF wf, of "of_nat f"] lt uf by simp
  have "unat (of_nat f + 1 :: u64) = f + 1"
    using unat_plus_one_less [of "of_nat f :: u64" "frame_count p"] lt uf
    by (simp add: word_less_nat_alt)
  moreover have "g \<in> insert f (used_set p)" if "g < f + 1" for g
  proof -
    have "g \<notin> free_set p" if "g < f"
      using Min_le [OF finite_used_set(2) [of p], of g] that unfolding f_def by linarith
    with \<open>g < f + 1\<close> lt show ?thesis by (cases "g < f") (auto simp: free_set_eq)
  qed
  ultimately have "pmm_update p (?q\<lparr>next_hint := of_nat f + 1\<rparr>) (insert f (used_set p))"
    using upd by (auto simp: pmm_update_def pmm_wf_def)
  moreover have "free_frames p \<noteq> 0"
    using f pmm_wfD(3) [OF wf] by (metis card_0_eq avail finite_used_set(2) unat_0)
  ultimately show ?thesis
    using init avail find_free_from_hint [OF wf] by (simp add: pmm_alloc_frame_def f_def)
qed

lemma pmm_alloc_exhausted:
  assumes "pmm_wf p" and "free_set p = {}"
  shows "pmm_alloc_frame (Some p) = (PMM_INVALID_FRAME, Some p)"
  using pmm_wfD(3) [OF assms(1)] assms(2)
  by (simp add: pmm_alloc_frame_def unat_0_iff)

subsection \<open>Freeing\<close>

lemma pmm_free_frame_cases:
  assumes "pmm_wf p" and "initialized p"
  shows "pmm_free_frame (Some p) a =
     (if unat a mod 4096 = 0 \<and> a \<noteq> 0 \<and> unat a div 4096 \<in> used_set p
      then (True, Some (mark_frame_free (a div PMM_PAGE_SIZE) p)) else (False, Some p))"
proof -
  have frame: "unat (a div PMM_PAGE_SIZE) = unat a div 4096"
    by (simp add: unat_div)
  have mask: "a AND (PMM_PAGE_SIZE - 1) = 0 \<longleftrightarrow> unat a mod 4096 = 0"
    by (simp add: PMM_PAGE_SIZE_def flip: unat_0_iff) (simp add: mask_simps)
  have range: "max_phys p \<le> a \<longleftrightarrow> \<not> unat a div 4096 < unat (frame_count p)"
    using pmm_wfD(1) [OF assms(1)]
    by (simp add: word_le_nat_alt div_less_iff_less_mult not_less)
  show ?thesis
    using assms(2)
    by (auto simp: pmm_free_frame_def Let_def bitmap_test_bit frame mask range used_set_def
        not_le)
qed

lemma pmm_free_update:
  assumes "pmm_wf p" and "initialized p" and "pmm_free_frame (Some p) a = (True, s)"
  shows "\<exists>q. s = Some q \<and> pmm_update p q (used_set p - {unat a div 4096}) \<and>
             unat a div 4096 \<in> used_set p \<and> unat a mod 4096 = 0"
  using pmm_free_frame_cases [OF assms(1,2), of a] assms(3)
    mark_frame_free_update [OF assms(1), of "a div PMM_PAGE_SIZE"]
  by (auto simp: unat_div split: if_splits)

subsection \<open>The memory manager provides the allocator interface\<close>

definition pmm_inv :: "pmm_state option \<Rightarrow> bool" where
  "pmm_inv s = (case s of None \<Rightarrow> False | Some p \<Rightarrow> pmm_wf p \<and> initialized p)"

definition pmm_avail :: "pmm_state option \<Rightarrow> u64 set" where
  "pmm_avail s = (case s of None \<Rightarrow> {} | Some p \<Rightarrow> (\<lambda>f. of_nat f * PMM_PAGE_SIZE) ` free_set p)"

lemma pmm_avail_iff:
  assumes "pmm_wf p"
  shows "a \<in> pmm_avail (Some p) \<longleftrightarrow> unat a mod 4096 = 0 \<and> unat a div 4096 \<in> free_set p"
proof
  assume "a \<in> pmm_avail (Some p)"
  then obtain f where f: "f \<in> free_set p" "a = of_nat f * PMM_PAGE_SIZE"
    by (auto simp: pmm_avail_def)
  then have "f < unat (frame_count p)" by (simp add: free_set_def)
  from frame_addr_unat(1) [OF assms this] f
  show "unat a mod 4096 = 0 \<and> unat a div 4096 \<in> free_set p" by simp
next
  assume r: "unat a mod 4096 = 0 \<and> unat a div 4096 \<in> free_set p"
  then have "unat a div 4096 < unat (frame_count p)" by (simp add: free_set_def)
  from frame_addr_unat(1) [OF assms this] r
  have "unat (of_nat (unat a div 4096) * PMM_PAGE_SIZE) = unat a" by auto
  then have "a = of_nat (unat a div 4096) * PMM_PAGE_SIZE"
    by (simp add: word_unat_eq_iff)
  with r show "a \<in> pmm_avail (Some p)" by (auto simp: pmm_avail_def)
qed

lemma pmm_avail_update:
  assumes "pmm_wf p" and "pmm_update p q U"
  shows "a \<in> pmm_avail (Some q) \<longleftrightarrow> unat a mod 4096 = 0 \<and>
           unat a div 4096 < unat (frame_count p) \<and> unat a div 4096 \<notin> U"
  using pmm_avail_iff [of q a] assms(2) by (auto simp: pmm_update_def free_set_eq)

interpretation pmm: frame_allocator pmm_alloc_frame pmm_free_frame pmm_inv pmm_avail
  PMM_INVALID_FRAME
proof
  fix s a s'
  assume inv: "pmm_inv s"
  then obtain p where s: "s = Some p" and wf: "pmm_wf p" and init: "initialized p"
    by (auto simp: pmm_inv_def split: option.splits)
  note avail = pmm_avail_iff [OF wf]
  show "finite (pmm_avail s)" by (simp add: s pmm_avail_def)
  show "pmm_alloc_frame s = (PMM_INVALID_FRAME, s)" if "pmm_avail s = {}"
    using that pmm_alloc_exhausted [OF wf] by (simp add: s pmm_avail_def)
  show "a \<in> pmm_avail s \<and> pmm_avail s' = pmm_avail s - {a} \<and> pmm_inv s'"
    if "pmm_avail s \<noteq> {}" and ret: "pmm_alloc_frame s = (a, s')"
  proof -
    have ne: "free_set p \<noteq> {}" using that by (simp add: s pmm_avail_def)
    define m where "m = Min (free_set p)"
    have f: "m \<in> free_set p" unfolding m_def by (rule Min_in) (use ne in auto)
    then have lt: "m < unat (frame_count p)" by (simp add: free_set_def)
    from pmm_alloc_update [OF wf init ne, folded m_def] ret s
    obtain q where q: "a = of_nat m * PMM_PAGE_SIZE" "s' = Some q"
      and upd: "pmm_update p q (insert m (used_set p))" by auto
    have a: "unat a = m * 4096" using frame_addr_unat(1) [OF wf lt] q by simp
    have "x \<in> pmm_avail s' \<longleftrightarrow> x \<in> pmm_avail s - {a}" for x
      unfolding q(2) pmm_avail_update [OF wf upd]
      using page_addr_eq [of a x] a by (auto simp: s avail free_set_eq)
    moreover have "pmm_inv s'" using upd init by (simp add: q pmm_inv_def pmm_update_def)
    moreover have "a \<in> pmm_avail s" using a f by (simp add: s avail)
    ultimately show ?thesis by blast
  qed
  show "a \<noteq> PMM_INVALID_FRAME \<and> unat a mod 4096 = 0" if "a \<in> pmm_avail s"
    using that by (auto simp: s avail PMM_INVALID_FRAME_def)
  show "pmm_free_frame s a = (False, s)" if "a \<in> pmm_avail s"
    using that pmm_free_frame_cases [OF wf init, of a] by (auto simp: s avail free_set_eq)
  show "pmm_avail s' = insert a (pmm_avail s) \<and> pmm_inv s'" if "pmm_free_frame s a = (True, s')"
  proof -
    from pmm_free_update [OF wf init that [unfolded s]]
    obtain q where q: "s' = Some q" and upd: "pmm_update p q (used_set p - {unat a div 4096})"
      and a: "unat a div 4096 \<in> used_set p" "unat a mod 4096 = 0" by auto
    have lt: "unat a div 4096 < unat (frame_count p)" using a by (simp add: used_set_def)
    have "x \<in> pmm_avail s' \<longleftrightarrow> x \<in> insert a (pmm_avail s)" for x
      unfolding q pmm_avail_update [OF wf upd]
      using page_addr_eq [OF a(2), of x] lt by (auto simp: s avail free_set_eq)
    moreover have "pmm_inv s'" using upd init by (simp add: q pmm_inv_def pmm_update_def)
    ultimately show ?thesis by blast
  qed
  show "s' = s" if "pmm_free_frame s a = (False, s')"
    using that pmm_free_frame_cases [OF wf init, of a] by (auto simp: s split: if_splits)
qed

subsection \<open>Ranges with arbitrary arguments keep the invariant\<close>

lemma align_up_multiple:
  "unat (align_up v PMM_PAGE_SIZE) = unat (v + 4095) div 4096 * 4096"
  by (simp add: align_up_def PMM_PAGE_SIZE_def mask_simps minus_mod_eq_div_mult
      add_diff_eq [symmetric])

lemma page_loop_update:
  fixes g :: "u64 \<Rightarrow> pmm_state \<Rightarrow> pmm_state"
  assumes wf: "pmm_wf p"
    and "unat start = a * 4096" and "unat stop = b * 4096" and "start < stop"
    and step: "\<And>f q. pmm_wf q \<Longrightarrow> frame_count q = frame_count p \<Longrightarrow>
           pmm_update q (g f q) (h (unat f) (used_set q))"
  shows "\<exists>U. pmm_update p
           (for_loop start stop PMM_PAGE_SIZE (\<lambda>addr. g (addr div PMM_PAGE_SIZE)) p) U"
proof -
  have "a \<le> b" using assms(2-4) by (simp add: word_less_nat_alt)
  moreover have "b \<le> 2 ^ 64" using assms(3) unat_u64_bound [of stop] by simp
  moreover from this have "pmm_update p (fold (\<lambda>f. g (of_nat f)) [a..<b] p)
      (fold h [a..<b] (used_set p))"
    by (intro fold_frames_update wf step)
  ultimately show ?thesis
    using page_loop_fold [OF assms(2,3), of g p] by auto
qed

lemma mark_range_free_wf:
  assumes wf: "pmm_wf p"
  shows "\<exists>U. pmm_update p (mark_range_free base len p) U"
proof -
  define start where "start = align_up base PMM_PAGE_SIZE"
  define stop where "stop = align_down (base + len) PMM_PAGE_SIZE"
  define stop' where "stop' = (if stop > max_phys p then max_phys p else stop)"
  have stop': "\<exists>b. unat stop' = b * 4096"
    using pmm_wfD(1) [OF wf] by (metis stop'_def stop_def unat_align_down)
  show ?thesis
  proof (cases "mark_range_free base len p = p")
    case True
    with wf show ?thesis by (auto simp: pmm_update_def)
  next
    case False
    then have "mark_range_free base len p = for_loop start stop' PMM_PAGE_SIZE
          (\<lambda>addr. mark_frame_free (addr div PMM_PAGE_SIZE)) p" and "start < stop'"
      by (auto simp: mark_range_free_def checked_add_u64_eq Let_def start_def stop_def stop'_def
          split: if_splits)
    with page_loop_update [where g = mark_frame_free and h = "\<lambda>f U. U - {f}",
        OF wf _ _ _ mark_frame_free_update] stop' align_up_multiple [of base]
    show ?thesis by (auto simp: start_def)
  qed
qed

lemma mark_range_used_wrap:
  assumes "unat base + unat len > 2 ^ 64 - 4096"
  shows "mark_range_used base len p = p"
proof -
  have "align_up (base + len) PMM_PAGE_SIZE = 0" if "unat base + unat len < 2 ^ 64"
  proof -
    have "unat (base + len) = unat base + unat len"
      using that by (intro unat_add_no_wrap) simp
    then have "unat (base + len + 4095) = unat base + unat len + 4095 - 2 ^ 64"
      using assms that by (simp add: unat_word_ariths le_mod_geq)
    then have "unat (align_up (base + len) PMM_PAGE_SIZE) = 0"
      using assms that by (simp add: align_up_multiple)
    then show ?thesis by (simp add: unat_0_iff)
  qed
  then show ?thesis
    by (auto simp: mark_range_used_def checked_add_u64_eq Let_def)
qed

lemma mark_range_used_wf:
  assumes "pmm_wf p"
  shows "\<exists>U. used_set p \<subseteq> U \<and> pmm_update p (mark_range_used base len p) U"
proof (cases "unat base + unat len > 2 ^ 64 - 4096")
  case True
  with assms mark_range_used_wrap show ?thesis by (auto simp: pmm_update_def)
next
  case False
  with mark_range_used_update [OF assms, of base len] show ?thesis by (auto intro: exI)
qed

subsection \<open>Initialisation\<close>

lemma fill_bytes:
  "n \<le> length storage \<Longrightarrow> fold (\<lambda>k s. s[k := v]) [0..<n] storage = replicate n v @ drop n storage"
proof (induction n)
  case (Suc n)
  then have "(replicate n v @ drop n storage)[n := v] = replicate n v @ v # drop (Suc n) storage"
    by (simp add: list_update_append Cons_nth_drop_Suc [symmetric])
  with Suc show ?case by (simp add: replicate_app_Cons_same)
qed simp

lemma bitmap_bit_filled:
  "f < 8 * n \<Longrightarrow> bitmap_bit (replicate n 0xff @ rest) f"
proof -
  assume "f < 8 * n"
  then have "f div 8 < n" by (simp add: div_less_iff_less_mult)
  moreover have "(0xff :: u8) = - 1" by simp
  then have "bit (0xff :: u8) (f mod 8)" by (simp only: bit_minus_1_iff) simp
  ultimately show ?thesis by (simp add: bitmap_bit_def nth_append)
qed

definition region_ok :: "boot_mem_region \<Rightarrow> bool" where
  "region_ok r \<longleftrightarrow> unat (region_base r) + unat (region_length r) \<le> 2 ^ 64 - 4096"

definition init_free_set :: "boot_mem_region list \<Rightarrow> nat \<Rightarrow> nat set" where
  "init_free_set rs n = {f \<in> {..<n}. f \<noteq> 0 \<and>
     (\<exists>r \<in> set rs. region_type r = BOOT_MEM_USABLE \<and>
        f \<in> frames_inside (unat (region_base r)) (unat (region_length r))) \<and>
     \<not> (\<exists>r \<in> set rs. region_type r \<noteq> BOOT_MEM_USABLE \<and>
        f \<in> frames_touched (unat (region_base r)) (unat (region_length r)))}"

lemma usable_loop_update:
  assumes "pmm_wf p" and "\<And>r. r \<in> set rs \<Longrightarrow> region_ok r"
  defines "frees \<equiv> \<lambda>r. if region_type r = BOOT_MEM_USABLE
                        then frames_inside (unat (region_base r)) (unat (region_length r)) else {}"
  shows "pmm_update p
     (fold init_usable_region rs p)
     (used_set p - (\<Union>r \<in> set rs. frees r))"
proof -
  have sets: "fold (\<lambda>r U. U - frees r) rs U = U - (\<Union>r \<in> set rs. frees r)" for U
    by (induction rs arbitrary: U) auto
  have "pmm_update p
     (fold init_usable_region rs p)
     (fold (\<lambda>r U. U - frees r) rs (used_set p))"
  proof (rule fold_pmm_update [OF assms(1)])
    fix r q
    assume "r \<in> set rs" and "pmm_wf q"
    then show "pmm_update q (init_usable_region r q) (used_set q - frees r)"
      using mark_range_free_update [of q "region_base r" "region_length r"] assms(2) [of r]
      by (auto simp: frees_def init_usable_region_def region_ok_def pmm_update_def)
  qed
  then show ?thesis by (simp only: sets)
qed

lemma reserved_loop_update:
  assumes "pmm_wf p" and "\<And>r. r \<in> set rs \<Longrightarrow> region_ok r"
  defines "takes \<equiv> \<lambda>r. if region_type r \<noteq> BOOT_MEM_USABLE
                        then frames_touched (unat (region_base r)) (unat (region_length r)) else {}"
  shows "pmm_update p
     (fold init_reserved_region rs p)
     (used_set p \<union> ((\<Union>r \<in> set rs. takes r) \<inter> {..<unat (frame_count p)}))"
proof -
  let ?N = "{..<unat (frame_count p)}"
  have sets: "fold (\<lambda>r U. U \<union> (takes r \<inter> ?N)) rs U = U \<union> ((\<Union>r \<in> set rs. takes r) \<inter> ?N)" for U
    by (induction rs arbitrary: U) auto
  have "pmm_update p
     (fold init_reserved_region rs p)
     (fold (\<lambda>r U. U \<union> (takes r \<inter> ?N)) rs (used_set p))"
  proof (rule fold_pmm_update [OF assms(1)])
    fix r q
    assume "r \<in> set rs" and "pmm_wf q" and "frame_count q = frame_count p"
    then show "pmm_update q (init_reserved_region r q)
        (used_set q \<union> (takes r \<inter> ?N))"
      using mark_range_used_update [of q "region_base r" "region_length r"] assms(2) [of r]
      by (auto simp: takes_def init_reserved_region_def region_ok_def pmm_update_def)
  qed
  then show ?thesis by (simp only: sets)
qed


text \<open>The state before the regions are processed: every frame is used.\<close>

lemma blank_pmm:
  assumes "frame_count p = maxb div PMM_PAGE_SIZE" and "max_phys p = maxb"
    and "unat maxb mod 4096 = 0" and "used_frames p = frame_count p" and "free_frames p = 0"
    and "next_hint p = 0" and "pmm_bitmap p = replicate n 0xff @ rest"
    and "unat (frame_count p) \<le> 8 * n"
  shows "pmm_wf p \<and> used_set p = {..<unat (frame_count p)}"
proof -
  have "used_set p = {..<unat (frame_count p)}"
    using assms(7,8) bitmap_bit_filled by (auto simp: used_set_def)
  moreover have "unat (frame_count p) * 4096 = unat maxb"
    using assms(1,3) by (auto simp: unat_div)
  ultimately show ?thesis
    using assms by (simp add: pmm_wf_def free_set_eq)
qed

lemma required_bytes:
  fixes maxb :: u64
  defines "fc \<equiv> maxb div PMM_PAGE_SIZE"
  shows "unat ((fc + 7) div 8) = (unat fc + 7) div 8" and "unat fc \<le> 8 * unat ((fc + 7) div 8)"
proof -
  have "unat fc < 2 ^ 52"
    using unat_u64_bound [of maxb] by (simp add: fc_def unat_div less_mult_imp_div_less)
  then have "unat (fc + 7) = unat fc + 7"
    using unat_add_no_wrap [of fc 7] by simp
  then show "unat ((fc + 7) div 8) = (unat fc + 7) div 8" by (simp add: unat_div)
  then show "unat fc \<le> 8 * unat ((fc + 7) div 8)" by simp
qed

lemma used_set_initialized [simp]: "used_set (p\<lparr>initialized := b\<rparr>) = used_set p"
    "free_set (p\<lparr>initialized := b\<rparr>) = free_set p"
    "pmm_wf (p\<lparr>initialized := b\<rparr>) = pmm_wf p"
  by (simp_all add: used_set_def free_set_def pmm_wf_def)

subsection \<open>Reachable states\<close>

inductive pmm_reachable :: "pmm_state option \<Rightarrow> bool" where
  init: "pmm_init_from_map (Some p0) (Some rs) n (Some storage) bytes maxb = (True, s) \<Longrightarrow>
     unat n \<le> length rs \<Longrightarrow> unat bytes \<le> length storage \<Longrightarrow> pmm_reachable s"
| alloc: "pmm_reachable s \<Longrightarrow> pmm_reachable (snd (pmm_alloc_frame s))"
| free: "pmm_reachable s \<Longrightarrow> pmm_reachable (snd (pmm_free_frame s a))"
| reserve: "pmm_reachable s \<Longrightarrow> pmm_reachable (snd (pmm_reserve_range s base len))"

lemma fold_pmm_wf:
  assumes "pmm_wf p" and "\<And>x q. x \<in> set xs \<Longrightarrow> pmm_wf q \<Longrightarrow> \<exists>U. pmm_update q (g x q) U"
  shows "pmm_wf (fold g xs p) \<and> frame_count (fold g xs p) = frame_count p"
  using assms
proof (induction xs arbitrary: p)
  case (Cons x xs)
  then obtain U where "pmm_update p (g x p) U" by (meson list.set_intros(1))
  with Cons show ?case by (simp add: pmm_update_def)
qed simp

lemma init_usable_region_wf: "pmm_wf p \<Longrightarrow> \<exists>U. pmm_update p (init_usable_region r p) U"
  using mark_range_free_wf by (auto simp: init_usable_region_def pmm_update_def)

lemma init_reserved_region_wf:
  assumes "pmm_wf p"
  shows "\<exists>U. used_set p \<subseteq> U \<and> pmm_update p (init_reserved_region r p) U"
  using mark_range_used_wf [OF assms] assms
  by (auto simp: init_reserved_region_def pmm_update_def)

lemma fold_reserved_keeps:
  "pmm_wf p \<Longrightarrow> used_set p \<subseteq> used_set (fold init_reserved_region rs p)"
proof (induction rs arbitrary: p)
  case (Cons r rs)
  obtain U where "used_set p \<subseteq> U" "pmm_update p (init_reserved_region r p) U"
    using init_reserved_region_wf [OF Cons.prems] by blast
  with Cons.IH [of "init_reserved_region r p"] show ?case by (auto simp: pmm_update_def)
qed simp

lemma pmm_init_stages:
  assumes run: "pmm_init_from_map (Some p0) (Some rs) n (Some storage) bytes maxb = (True, s)"
    and n: "unat n \<le> length rs" and bytes: "unat bytes \<le> length storage"
  defines "rs' \<equiv> take (unat n) rs"
  obtains p where "pmm_wf p" and "used_set p = {..<unat (frame_count p)}"
    and "frame_count p = maxb div PMM_PAGE_SIZE" and "0 < unat (frame_count p)"
    and "s = Some ((fold init_reserved_region rs'
              (mark_range_used 0 PMM_PAGE_SIZE (fold init_usable_region rs' p)))
              \<lparr>initialized := True\<rparr>)"
proof -
  let ?fc = "maxb div PMM_PAGE_SIZE" let ?req = "(?fc + 7) div 8"
  define p1 where "p1 = (the (pmm_zero_state (Some p0)))\<lparr>bitmap_bytes := ?req, max_phys := maxb,
      frame_count := ?fc, used_frames := ?fc,
      pmm_bitmap := for_loop 0 ?req 1 (\<lambda>i storage. storage[unat i := 0xff]) storage\<rparr>"
  have guards: "n \<noteq> 0" "maxb \<noteq> 0" "maxb AND (PMM_PAGE_SIZE - 1) = 0" "?req \<le> bytes"
    using run by (auto simp: pmm_init_from_map_def Let_def not_less split: if_splits)
  have aligned: "unat maxb mod 4096 = 0"
    using guards(3) by (simp add: PMM_PAGE_SIZE_def mask_simps flip: unat_0_iff)
  have "unat ?req \<le> length storage" using guards(4) bytes by (simp add: word_le_nat_alt)
  from fill_bytes [OF this, of "0xff"] for_loop_index [of ?req "\<lambda>k s. s[k := 0xff]" storage]
  have "pmm_bitmap p1 = replicate (unat ?req) 0xff @ drop (unat ?req) storage"
    by (simp add: p1_def)
  then have wf: "pmm_wf p1" "used_set p1 = {..<unat ?fc}"
    using blank_pmm [of p1 maxb "unat ?req"] aligned required_bytes(2) [of maxb]
    by (simp_all add: p1_def pmm_zero_state_def)
  have "0 < unat ?fc"
  proof -
    have "unat maxb \<noteq> 0" using guards(2) by (simp add: unat_0_iff)
    with aligned have "0 < unat maxb div 4096" by (auto simp: div_greater_zero_iff)
    then show ?thesis by (simp add: unat_div)
  qed
  moreover have "frame_count p1 = ?fc" by (simp add: p1_def)
  moreover have "s = Some ((fold init_reserved_region rs'
      (mark_range_used 0 PMM_PAGE_SIZE (fold init_usable_region rs' p1)))\<lparr>initialized := True\<rparr>)"
    using run guards(1-3) leD [OF guards(4)]
    by (simp add: pmm_init_from_map_def Let_def for_loop_list [OF n] p1_def rs'_def)
  ultimately show ?thesis using that [of p1] wf by simp
qed

lemma pmm_init_succeeds:
  assumes "n \<noteq> 0" and "maxb \<noteq> 0" and "unat maxb mod 4096 = 0"
    and "(maxb div 4096 + 7) div 8 \<le> bytes"
  shows "\<exists>s. pmm_init_from_map (Some p0) (Some rs) n (Some storage) bytes maxb = (True, s)"
proof -
  have "maxb AND (PMM_PAGE_SIZE - 1) = 0"
    using assms(3) by (simp add: PMM_PAGE_SIZE_def mask_simps flip: unat_0_iff)
  with assms(1,2) leD [OF assms(4)] show ?thesis
    by (simp add: pmm_init_from_map_def Let_def PMM_PAGE_SIZE_def)
qed

lemma pmm_init_invariant:
  assumes "pmm_init_from_map (Some p0) (Some rs) n (Some storage) bytes maxb = (True, s)"
    and "unat n \<le> length rs" and "unat bytes \<le> length storage"
  shows "\<exists>p. s = Some p \<and> pmm_wf p \<and> initialized p \<and> 0 \<in> used_set p"
proof -
  let ?rs = "take (unat n) rs"
  from assms obtain p where wf: "pmm_wf p" and fc: "0 < unat (frame_count p)"
    and s: "s = Some ((fold init_reserved_region ?rs
          (mark_range_used 0 PMM_PAGE_SIZE (fold init_usable_region ?rs p)))\<lparr>initialized := True\<rparr>)"
    by (rule pmm_init_stages)
  let ?p2 = "fold init_usable_region ?rs p" let ?p3 = "mark_range_used 0 PMM_PAGE_SIZE ?p2"
  have p2: "pmm_wf ?p2" "frame_count ?p2 = frame_count p"
    using fold_pmm_wf [OF wf, of ?rs init_usable_region] init_usable_region_wf by blast+
  have "0 \<in> frames_touched 0 4096" by (simp add: frames_touched_def)
  then have p3: "pmm_wf ?p3" "0 \<in> used_set ?p3"
    using mark_range_used_update [OF p2(1), of 0 PMM_PAGE_SIZE] fc p2(2)
    by (simp_all add: pmm_update_def)
  have "pmm_wf (fold init_reserved_region ?rs ?p3)"
    using fold_pmm_wf [OF p3(1), of ?rs init_reserved_region] init_reserved_region_wf by blast
  with p3 fold_reserved_keeps [OF p3(1), of ?rs] show ?thesis by (auto simp: s)
qed

lemma pmm_reachable_inv:
  "pmm_reachable s \<Longrightarrow> \<exists>p. s = Some p \<and> pmm_wf p \<and> initialized p \<and> 0 \<in> used_set p"
proof (induction rule: pmm_reachable.induct)
  case (init p0 rs n storage bytes maxb s)
  then show ?case by (rule pmm_init_invariant)
next
  case (alloc s)
  then obtain p where p: "s = Some p" "pmm_wf p" "initialized p" "0 \<in> used_set p" by blast
  show ?case
  proof (cases "free_set p = {}")
    case True
    with p pmm_alloc_exhausted show ?thesis by simp
  next
    case False
    from pmm_alloc_update [OF p(2,3) this] p show ?thesis by (auto simp: pmm_update_def)
  qed
next
  case (free s a)
  then obtain p where p: "s = Some p" "pmm_wf p" "initialized p" "0 \<in> used_set p" by blast
  have nz: "unat a div 4096 \<noteq> 0" if "unat a mod 4096 = 0" "a \<noteq> 0"
    using that by (metis div_mult_mod_eq mult_0 add_0 unat_0_iff)
  have "pmm_update p (mark_frame_free (a div PMM_PAGE_SIZE) p) (used_set p - {unat a div 4096})"
    using mark_frame_free_update [OF p(2), of "a div PMM_PAGE_SIZE"] by (simp add: unat_div)
  with p nz show ?case
    by (auto simp: pmm_free_frame_cases pmm_update_def)
next
  case (reserve s base len)
  then obtain p where p: "s = Some p" "pmm_wf p" "initialized p" "0 \<in> used_set p" by blast
  with mark_range_used_wf [OF p(2), of base len] show ?case
    by (auto simp: pmm_reserve_range_def pmm_update_def)
qed

subsection \<open>Properties\<close>

text \<open>A small memory manager for the witnesses: 16 frames, frames 1 to 8 usable except
  frames 3 and 4, which a reserved region touches.\<close>

definition sample_regions :: "boot_mem_region list" where
  "sample_regions =
     [\<lparr>region_base = 0x1000, region_length = 0x8000, region_type = 1\<rparr>,
      \<lparr>region_base = 0x3000, region_length = 0x1001, region_type = 2\<rparr>]"

definition sample_pmm :: pmm_state where
  "sample_pmm =
     \<lparr>pmm_bitmap = [0x19, 0xfe], bitmap_bytes = 2, max_phys = 0x10000, frame_count = 16,
      free_frames = 6, used_frames = 10, reserved_frames = 2, ignored_frames = 0,
      next_hint = 0, initialized = True\<rparr>"

lemma sample_pmm_sets:
  "free_set sample_pmm = {1, 2, 5, 6, 7, 8}"
  "used_set sample_pmm = {0, 3, 4, 9, 10, 11, 12, 13, 14, 15}"
  by code_simp+

lemma sample_pmm_wf: "pmm_wf sample_pmm" "initialized sample_pmm"
proof -
  have "unat (frame_count sample_pmm) * 4096 = unat (max_phys sample_pmm)"
    "unat (frame_count sample_pmm) \<le> 8 * length (pmm_bitmap sample_pmm)"
    "unat (free_frames sample_pmm) = 6" "unat (used_frames sample_pmm) = 10"
    "unat (next_hint sample_pmm) = 0"
    by (simp_all add: sample_pmm_def)
  then show "pmm_wf sample_pmm" by (simp add: pmm_wf_def sample_pmm_sets)
  show "initialized sample_pmm" by (simp add: sample_pmm_def)
qed

text \<open>C1: On a well-formed memory manager \<open>pmm_alloc_frame\<close> returns the lowest free
  frame, marks exactly that frame used and keeps the bitmap, both counters and the hint
  consistent; when no frame is free it returns \<open>PMM_INVALID_FRAME\<close> and changes nothing.\<close>

theorem pmm_alloc_frame_lowest:
  assumes "pmm_wf p" and "initialized p"
  shows "if free_set p = {} then pmm_alloc_frame (Some p) = (PMM_INVALID_FRAME, Some p)
         else \<exists>q. pmm_alloc_frame (Some p) = (of_nat (Min (free_set p)) * PMM_PAGE_SIZE, Some q) \<and>
                  pmm_wf q \<and> initialized q \<and> frame_count q = frame_count p \<and>
                  used_set q = insert (Min (free_set p)) (used_set p)"
  using pmm_alloc_exhausted [OF assms(1)] pmm_alloc_update [OF assms] assms(2)
  by (auto simp: pmm_update_def)

theorem pmm_alloc_frame_lowest_witness:
  "free_set sample_pmm = {1, 2, 5, 6, 7, 8} \<and> fst (pmm_alloc_frame (Some sample_pmm)) = 0x1000"
proof -
  have free: "free_set sample_pmm = {1, 2, 5, 6, 7, 8}" by (rule sample_pmm_sets)
  then have "Min (free_set sample_pmm) = 1" and "free_set sample_pmm \<noteq> {}" by simp_all
  with pmm_alloc_frame_lowest [OF sample_pmm_wf]
  have "fst (pmm_alloc_frame (Some sample_pmm)) = of_nat 1 * PMM_PAGE_SIZE" by auto
  with free show ?thesis by (simp add: PMM_PAGE_SIZE_def)
qed

lemma pmm_init_free_set:
  assumes n: "n \<noteq> 0" "unat n \<le> length rs" and maxb: "maxb \<noteq> 0" "unat maxb mod 4096 = 0"
    and bytes: "(maxb div 4096 + 7) div 8 \<le> bytes" "unat bytes \<le> length storage"
    and ok: "\<And>r. r \<in> set (take (unat n) rs) \<Longrightarrow> region_ok r"
  shows "\<exists>p. pmm_init_from_map (Some p0) (Some rs) n (Some storage) bytes maxb = (True, Some p) \<and>
     pmm_wf p \<and> initialized p \<and> unat (frame_count p) = unat maxb div 4096 \<and>
     free_set p = init_free_set (take (unat n) rs) (unat maxb div 4096)"
proof -
  let ?rs = "take (unat n) rs"
  from pmm_init_succeeds [OF n(1) maxb bytes(1)] obtain s where
    run: "pmm_init_from_map (Some p0) (Some rs) n (Some storage) bytes maxb = (True, s)" by blast
  from run n(2) bytes(2) obtain p1 where p1: "pmm_wf p1" "used_set p1 = {..<unat (frame_count p1)}"
    "frame_count p1 = maxb div PMM_PAGE_SIZE"
    and s: "s = Some ((fold init_reserved_region ?rs
          (mark_range_used 0 PMM_PAGE_SIZE (fold init_usable_region ?rs p1)))\<lparr>initialized := True\<rparr>)"
    by (rule pmm_init_stages)
  let ?p2 = "fold init_usable_region ?rs p1" let ?p3 = "mark_range_used 0 PMM_PAGE_SIZE ?p2"
  let ?p4 = "fold init_reserved_region ?rs ?p3" let ?N = "unat (frame_count p1)"
  define F where "F = (\<Union>r \<in> set ?rs. if region_type r = BOOT_MEM_USABLE
      then frames_inside (unat (region_base r)) (unat (region_length r)) else {})"
  define T where "T = (\<Union>r \<in> set ?rs. if region_type r \<noteq> BOOT_MEM_USABLE
      then frames_touched (unat (region_base r)) (unat (region_length r)) else {})"
  note u2 = usable_loop_update [OF p1(1), of ?rs, OF ok, folded F_def]
  then have "pmm_wf ?p2" by (simp add: pmm_update_def)
  note u3 = mark_range_used_update [OF this, of 0 PMM_PAGE_SIZE]
  then have "pmm_wf ?p3" by (simp add: pmm_update_def)
  note u4 = reserved_loop_update [OF this, of ?rs, OF ok, folded T_def]
  have fc: "frame_count ?p4 = frame_count p1" and wf4: "pmm_wf ?p4"
    using u2 u3 u4 by (simp_all add: pmm_update_def)
  have "frames_touched 0 4096 = {0}" by (auto simp: frames_touched_def)
  then have U4: "used_set ?p4 = ({..<?N} - F) \<union> ({0} \<inter> {..<?N}) \<union> (T \<inter> {..<?N})"
    using u2 u3 u4 p1(2) by (simp add: pmm_update_def)
  have "free_set ?p4 = {..<?N} - (({..<?N} - F) \<union> ({0} \<inter> {..<?N}) \<union> (T \<inter> {..<?N}))"
    by (simp only: free_set_eq fc U4)
  also have "\<dots> = {f \<in> {..<?N}. f \<noteq> 0 \<and> f \<in> F \<and> f \<notin> T}"
    by auto
  also have "\<dots> = init_free_set ?rs ?N"
  proof -
    have "f \<in> F \<longleftrightarrow> (\<exists>r \<in> set ?rs. region_type r = BOOT_MEM_USABLE \<and>
        f \<in> frames_inside (unat (region_base r)) (unat (region_length r)))" for f
      unfolding F_def by (auto split: if_splits)
    moreover have "f \<in> T \<longleftrightarrow> (\<exists>r \<in> set ?rs. region_type r \<noteq> BOOT_MEM_USABLE \<and>
        f \<in> frames_touched (unat (region_base r)) (unat (region_length r)))" for f
      unfolding T_def by (auto split: if_splits)
    ultimately show ?thesis unfolding init_free_set_def by simp
  qed
  finally show ?thesis
    using wf4 fc p1(3) by (simp add: run s unat_div)
qed

text \<open>C2: For a non-empty boot memory map whose regions all end at or below 2^64 - 4096,
  a memory limit that is a positive multiple of the page size and a bitmap large enough for it,
  pmm_init_from_map succeeds and makes free exactly the frames below the limit that lie inside
  a usable region, are not frame 0, and are touched by no region of another type. (A region in
  the last page of the address space makes the code's round-up wrap around.)\<close>

theorem pmm_init_free_frames:
  assumes n: "n \<noteq> 0" "unat n \<le> length rs" and maxb: "maxb \<noteq> 0" "unat maxb mod 4096 = 0"
    and bytes: "(maxb div 4096 + 7) div 8 \<le> bytes" "unat bytes \<le> length storage"
    and ok: "\<And>r. r \<in> set (take (unat n) rs) \<Longrightarrow> region_ok r"
  shows "\<exists>p. pmm_init_from_map (Some p0) (Some rs) n (Some storage) bytes maxb = (True, Some p) \<and>
     pmm_wf p \<and> initialized p \<and> unat (frame_count p) = unat maxb div 4096 \<and>
     free_set p = init_free_set (take (unat n) rs) (unat maxb div 4096)"
  using assms by (rule pmm_init_free_set)

theorem pmm_init_free_frames_witness:
  "\<exists>p. pmm_init_from_map (Some sample_pmm) (Some sample_regions) 2 (Some [0, 0]) 2 0x10000 =
          (True, Some p) \<and> pmm_wf p \<and> free_set p = init_free_set sample_regions 16"
proof -
  have "\<And>r. r \<in> set (take (unat (2 :: u64)) sample_regions) \<Longrightarrow> region_ok r"
    by (auto simp: sample_regions_def region_ok_def)
  from pmm_init_free_frames [of 2 sample_regions "0x10000" 2 "[0, 0]" sample_pmm, OF _ _ _ _ _ _ this]
  show ?thesis by (auto simp: sample_regions_def)
qed

text \<open>C3: In every state reached from a successful initialisation, with any memory map, by
  any sequence of allocations, frees and reservations, the invariant holds, the counters
  add up to the number of frames, and frame 0 is never free.\<close>

theorem pmm_reachable_invariant:
  assumes "pmm_reachable s"
  shows "\<exists>p. s = Some p \<and> pmm_wf p \<and> initialized p \<and> 0 \<notin> free_set p \<and>
             unat (free_frames p) + unat (used_frames p) = unat (frame_count p)"
proof -
  from pmm_reachable_inv [OF assms] obtain p where
    p: "s = Some p" "pmm_wf p" "initialized p" "0 \<in> used_set p" by blast
  with card_free_used [of p] pmm_wfD(3,4) [OF p(2)] show ?thesis by (auto simp: free_set_eq)
qed

theorem pmm_reachable_invariant_witness:
  "\<exists>p. snd (pmm_alloc_frame (snd (pmm_init_from_map (Some sample_pmm) (Some sample_regions) 2
          (Some [0, 0]) 2 0x10000))) = Some p \<and> pmm_wf p"
proof -
  let ?r = "pmm_init_from_map (Some sample_pmm) (Some sample_regions) 2 (Some [0, 0]) 2 0x10000"
  have "fst ?r" by code_simp
  then have "?r = (True, snd ?r)" by (metis prod.collapse)
  then have "pmm_reachable (snd ?r)"
    by (rule pmm_reachable.init) (simp_all add: sample_regions_def)
  from pmm_reachable_invariant [OF pmm_reachable.alloc [OF this]] show ?thesis by auto
qed

text \<open>As many allocations in a row as there are free frames all succeed, and return
  distinct page-aligned frames that were free and no longer are.\<close>

theorem pmm_alloc_many_distinct:
  assumes "pmm_wf p" and "initialized p" and "n \<le> card (free_set p)"
    and "alloc_many pmm_alloc_frame n (Some p) = (as, s)"
  shows "length as = n \<and> distinct as \<and> set as \<subseteq> pmm_avail (Some p) \<and>
         pmm_avail s = pmm_avail (Some p) - set as \<and> PMM_INVALID_FRAME \<notin> set as"
proof -
  have "inj_on (\<lambda>f. of_nat f * PMM_PAGE_SIZE) (free_set p)"
    by (rule inj_onI) (metis (no_types, lifting) frame_addr_unat(1) [OF assms(1)] free_set_def
        lessThan_iff mem_Collect_eq mult_cancel2 zero_neq_numeral)
  then have "n \<le> card (pmm_avail (Some p))"
    using assms(3) by (simp add: pmm_avail_def card_image)
  moreover have "pmm_inv (Some p)" using assms(1,2) by (simp add: pmm_inv_def)
  ultimately show ?thesis using pmm.alloc_many_distinct assms(4) by blast
qed

theorem pmm_alloc_many_distinct_witness:
  "distinct (fst (alloc_many pmm_alloc_frame 6 (Some sample_pmm)))"
proof -
  have "6 \<le> card (free_set sample_pmm)" by (simp add: sample_pmm_sets)
  from pmm_alloc_many_distinct [OF sample_pmm_wf this surjective_pairing] show ?thesis by blast
qed

text \<open>C4: \<open>pmm_free_frame\<close> succeeds exactly on the address of a used frame other than
  frame 0; it then makes that frame free, so that a second free of it is refused, and a
  refused free changes nothing.\<close>

theorem pmm_free_frame_exact:
  assumes "pmm_wf p" and "initialized p"
  shows "if unat a mod 4096 = 0 \<and> a \<noteq> 0 \<and> unat a div 4096 \<in> used_set p
         then \<exists>q. pmm_free_frame (Some p) a = (True, Some q) \<and> pmm_wf q \<and>
                  used_set q = used_set p - {unat a div 4096} \<and>
                  pmm_free_frame (Some q) a = (False, Some q)
         else pmm_free_frame (Some p) a = (False, Some p)"
proof (cases "unat a mod 4096 = 0 \<and> a \<noteq> 0 \<and> unat a div 4096 \<in> used_set p")
  case False
  with pmm_free_frame_cases [OF assms, of a] show ?thesis by auto
next
  case True
  let ?q = "mark_frame_free (a div PMM_PAGE_SIZE) p"
  have run: "pmm_free_frame (Some p) a = (True, Some ?q)"
    using True pmm_free_frame_cases [OF assms, of a] by auto
  have "pmm_inv (Some p)" using assms by (simp add: pmm_inv_def)
  from pmm.no_double_release [OF this run] pmm_free_update [OF assms run] True run
  show ?thesis by (auto simp: pmm_update_def)
qed

theorem pmm_free_frame_exact_witness:
  "\<exists>q. pmm_free_frame (Some sample_pmm) 0x3000 = (True, Some q) \<and> used_set q = used_set sample_pmm - {3}"
proof -
  have "3 \<in> used_set sample_pmm" by (simp add: sample_pmm_sets)
  with pmm_free_frame_exact [OF sample_pmm_wf, of "0x3000"] show ?thesis by auto
qed

text \<open>\<open>pmm_reserve_range\<close> with a range ending at or below \<open>2 ^ 64 - 4096\<close> makes used
  every frame the range touches and no other; with any longer range it reports success
  without reserving anything.\<close>

theorem pmm_reserve_range_exact:
  assumes "pmm_wf p" and "initialized p" and "len \<noteq> 0"
  shows "\<exists>q. pmm_reserve_range (Some p) base len = (True, Some q) \<and> pmm_wf q \<and>
     (if unat base + unat len \<le> 2 ^ 64 - 4096
      then used_set q = used_set p \<union>
             (frames_touched (unat base) (unat len) \<inter> {..<unat (frame_count p)})
      else q = p)"
  using mark_range_used_update [OF assms(1), of base len] mark_range_used_wrap [of base len p] assms
  by (auto simp: pmm_reserve_range_def pmm_update_def)

theorem pmm_reserve_range_exact_witness:
  "pmm_reserve_range (Some sample_pmm) 0 0xffffffffffffffff = (True, Some sample_pmm)"
  using pmm_reserve_range_exact [OF sample_pmm_wf, of "0xffffffffffffffff" 0] by auto

text \<open>A usable region that starts in the last page of the address space wraps in
  \<open>align_up\<close> and frees every frame of the machine but frame 0.\<close>

lemma pmm_init_top_region_frees_all:
  "free_set (the (snd (pmm_init_from_map (Some sample_pmm)
     (Some [\<lparr>region_base = 0xfffffffffffff001, region_length = 1, region_type = 1\<rparr>]) 1
     (Some [0, 0]) 2 0x10000))) = {1..<16}"
  by code_simp

end
