(* ===== verification/Vmm.thy ===== *)
theory Vmm
  imports Frame_Allocator "HOL-Library.Sublist"
begin

text \<open>
  The virtual memory manager: \<open>src/src/vmm.c\<close> and \<open>src/include/vmm.h\<close>, four-level page tables
  that live in page frames.

  \<^item> The memory is a function from the address of a 64-bit word to its contents, and a table is
    the address of its first entry, so two tables that overlapped would really alias. The
    registers \<open>cr2\<close> and \<open>cr3\<close> and the addresses given to \<open>invlpg\<close> are the rest of the machine.
  \<^item> The three callbacks of a \<open>struct vmm_space\<close> are functions on the state behind its \<open>ctx\<close>
    pointer, which the model keeps in the record; 0 is the null pointer.
  \<^item> The locale \<open>page_memory\<close> states what the manager relies on: a frame allocator, and a
    \<open>phys_to_virt\<close> that gives every frame its own window. \<open>tbl\<close> follows the entries from the
    root, \<open>translation\<close> is the abstract map from pages to frames and flags, \<open>vmm_wf\<close> says that
    the tables form a tree of frames the allocator has handed out. Mapping, querying and
    unmapping are shown to be update, lookup and deletion of the abstract map. The allocator is
    that of \<open>Pmm\<close>.
\<close>

subsection \<open>Constants and data\<close>

definition VMM_PAGE_SIZE :: u64 where "VMM_PAGE_SIZE = 4096"
definition VMM_ENTRIES_PER_TABLE :: u32 where "VMM_ENTRIES_PER_TABLE = 512"
definition VMM_INVALID_PHYS :: u64 where "VMM_INVALID_PHYS = - 1"

definition VMM_PTE_PRESENT :: u64 where "VMM_PTE_PRESENT = push_bit 0 1"
definition VMM_PTE_WRITABLE :: u64 where "VMM_PTE_WRITABLE = push_bit 1 1"
definition VMM_PTE_USER :: u64 where "VMM_PTE_USER = push_bit 2 1"
definition VMM_PTE_WRITE_THROUGH :: u64 where "VMM_PTE_WRITE_THROUGH = push_bit 3 1"
definition VMM_PTE_CACHE_DISABLE :: u64 where "VMM_PTE_CACHE_DISABLE = push_bit 4 1"
definition VMM_PTE_HUGE :: u64 where "VMM_PTE_HUGE = push_bit 7 1"
definition VMM_PTE_GLOBAL :: u64 where "VMM_PTE_GLOBAL = push_bit 8 1"
definition VMM_PTE_NO_EXECUTE :: u64 where "VMM_PTE_NO_EXECUTE = push_bit 63 1"
definition VMM_PTE_ADDR_MASK :: u64 where "VMM_PTE_ADDR_MASK = 0x000FFFFFFFFFF000"

definition VMM_MAP_OK :: int where "VMM_MAP_OK = 0"
definition VMM_ERR_INVAL :: int where "VMM_ERR_INVAL = -1"
definition VMM_ERR_NOMEM :: int where "VMM_ERR_NOMEM = -2"
definition VMM_ERR_EXISTS :: int where "VMM_ERR_EXISTS = -3"
definition VMM_ERR_NOT_FOUND :: int where "VMM_ERR_NOT_FOUND = -4"

lemmas vmm_codes = VMM_MAP_OK_def VMM_ERR_INVAL_def VMM_ERR_NOMEM_def VMM_ERR_EXISTS_def
  VMM_ERR_NOT_FOUND_def

lemmas pte_defs = VMM_PTE_PRESENT_def VMM_PTE_WRITABLE_def VMM_PTE_USER_def
  VMM_PTE_WRITE_THROUGH_def VMM_PTE_CACHE_DISABLE_def VMM_PTE_HUGE_def VMM_PTE_GLOBAL_def
  VMM_PTE_NO_EXECUTE_def VMM_PTE_ADDR_MASK_def

record 'c vmm_space =
  root_paddr :: u64
  ctx :: 'c
  alloc_frame :: "('c \<Rightarrow> u64 \<times> 'c) option"
  free_frame :: "('c \<Rightarrow> u64 \<Rightarrow> 'c) option"
  phys_to_virt :: "('c \<Rightarrow> u64 \<Rightarrow> u64) option"

record vmm_mapping =
  map_vaddr :: u64
  map_paddr :: u64
  map_flags :: u64

record machine =
  mem :: "u64 \<Rightarrow> u64"
  cr2 :: u64
  cr3 :: u64
  invlpg_log :: "u64 list"

subsection \<open>Table entries in memory\<close>

definition slot :: "u64 \<Rightarrow> u64 \<Rightarrow> u64" where
  "slot table index = table + 8 * index"

definition load :: "machine \<Rightarrow> u64 \<Rightarrow> u64 \<Rightarrow> u64" where
  "load M table index = mem M (slot table index)"

definition store :: "machine \<Rightarrow> u64 \<Rightarrow> u64 \<Rightarrow> u64 \<Rightarrow> machine" where
  "store M table index v = M\<lparr>mem := (mem M)(slot table index := v)\<rparr>"

definition vmm_zero_page :: "machine \<Rightarrow> u64 \<Rightarrow> machine" where
  "vmm_zero_page M page =
     for_loop 0 (ucast VMM_ENTRIES_PER_TABLE) 1 (\<lambda>i M. store M page i 0) M"

definition vmm_is_aligned_4k :: "u64 \<Rightarrow> bool" where
  "vmm_is_aligned_4k value \<longleftrightarrow> value AND (VMM_PAGE_SIZE - 1) = 0"

definition vmm_is_canonical :: "u64 \<Rightarrow> bool" where
  "vmm_is_canonical vaddr =
     (let sign = drop_bit 47 vaddr AND 1;
          upper = drop_bit 48 vaddr
      in if sign \<noteq> 0 then upper = 0xFFFF else upper = 0)"

definition idx_pml4 :: "u64 \<Rightarrow> u32" where "idx_pml4 vaddr = ucast (drop_bit 39 vaddr AND 0x1FF)"
definition idx_pdpt :: "u64 \<Rightarrow> u32" where "idx_pdpt vaddr = ucast (drop_bit 30 vaddr AND 0x1FF)"
definition idx_pd :: "u64 \<Rightarrow> u32" where "idx_pd vaddr = ucast (drop_bit 21 vaddr AND 0x1FF)"
definition idx_pt :: "u64 \<Rightarrow> u32" where "idx_pt vaddr = ucast (drop_bit 12 vaddr AND 0x1FF)"

definition table_from_phys :: "'c vmm_space \<Rightarrow> u64 \<Rightarrow> u64" where
  "table_from_phys space paddr =
     (case phys_to_virt space of
        None \<Rightarrow> 0
      | Some f \<Rightarrow> if \<not> vmm_is_aligned_4k paddr then 0 else f (ctx space) paddr)"

definition get_or_alloc_next_table ::
  "'c vmm_space \<Rightarrow> machine \<Rightarrow> u64 \<Rightarrow> u32 \<Rightarrow> int \<times> 'c vmm_space \<times> machine \<times> u64" where
  "get_or_alloc_next_table space M table index =
     (let entry = load M table (ucast index) in
      if entry AND VMM_PTE_PRESENT \<noteq> 0 then
        if entry AND VMM_PTE_HUGE \<noteq> 0 then (VMM_ERR_EXISTS, space, M, 0)
        else let next_table = table_from_phys space (entry AND VMM_PTE_ADDR_MASK) in
          if next_table = 0 then (VMM_ERR_INVAL, space, M, 0)
          else (VMM_MAP_OK, space, M, next_table)
      else case alloc_frame space of
        None \<Rightarrow> (VMM_ERR_NOMEM, space, M, 0)
      | Some f \<Rightarrow>
          let (new_paddr, c) = f (ctx space);
              space = space\<lparr>ctx := c\<rparr>
          in if new_paddr = VMM_INVALID_PHYS \<or> \<not> vmm_is_aligned_4k new_paddr
             then (VMM_ERR_NOMEM, space, M, 0)
             else let new_table = table_from_phys space new_paddr in
               if new_table = 0 then
                 (VMM_ERR_INVAL,
                  (case free_frame space of None \<Rightarrow> space
                   | Some g \<Rightarrow> space\<lparr>ctx := g (ctx space) new_paddr\<rparr>), M, 0)
               else
                 let M = vmm_zero_page M new_table;
                     M = store M table (ucast index)
                           ((new_paddr AND VMM_PTE_ADDR_MASK) OR VMM_PTE_PRESENT OR VMM_PTE_WRITABLE)
                 in (VMM_MAP_OK, space, M, new_table))"

definition vmm_space_init ::
  "'c vmm_space option \<Rightarrow> u64 \<Rightarrow> 'c \<Rightarrow> ('c \<Rightarrow> u64 \<times> 'c) option \<Rightarrow>
     ('c \<Rightarrow> u64 \<Rightarrow> 'c) option \<Rightarrow> ('c \<Rightarrow> u64 \<Rightarrow> u64) option \<Rightarrow> int \<times> 'c vmm_space option" where
  "vmm_space_init space root c alloc release to_virt =
     (if space = None \<or> to_virt = None \<or> \<not> vmm_is_aligned_4k root then (VMM_ERR_INVAL, space)
      else (VMM_MAP_OK, Some \<lparr>root_paddr = root, ctx = c, alloc_frame = alloc,
              free_frame = release, phys_to_virt = to_virt\<rparr>))"

definition vmm_allowed :: u64 where
  "vmm_allowed = VMM_PTE_WRITABLE OR VMM_PTE_USER OR VMM_PTE_WRITE_THROUGH OR
     VMM_PTE_CACHE_DISABLE OR VMM_PTE_GLOBAL OR VMM_PTE_NO_EXECUTE"

definition vmm_map_page ::
  "'c vmm_space option \<Rightarrow> machine \<Rightarrow> u64 \<Rightarrow> u64 \<Rightarrow> u64 \<Rightarrow> int \<times> 'c vmm_space option \<times> machine" where
  "vmm_map_page space M vaddr paddr flags =
     (case space of
        None \<Rightarrow> (VMM_ERR_INVAL, space, M)
      | Some sp \<Rightarrow>
          if \<not> vmm_is_canonical vaddr \<or> \<not> vmm_is_aligned_4k vaddr \<or> \<not> vmm_is_aligned_4k paddr
          then (VMM_ERR_INVAL, space, M)
          else let pml4 = table_from_phys sp (root_paddr sp) in
            if pml4 = 0 then (VMM_ERR_INVAL, space, M)
            else
              let (rc, sp, M, pdpt) = get_or_alloc_next_table sp M pml4 (idx_pml4 vaddr) in
              if rc \<noteq> VMM_MAP_OK then (rc, Some sp, M)
              else let (rc, sp, M, pd) = get_or_alloc_next_table sp M pdpt (idx_pdpt vaddr) in
                if rc \<noteq> VMM_MAP_OK then (rc, Some sp, M)
                else let (rc, sp, M, pt) = get_or_alloc_next_table sp M pd (idx_pd vaddr) in
                  if rc \<noteq> VMM_MAP_OK then (rc, Some sp, M)
                  else
                    let pti = idx_pt vaddr in
                    if load M pt (ucast pti) AND VMM_PTE_PRESENT \<noteq> 0 then (VMM_ERR_EXISTS, Some sp, M)
                    else (VMM_MAP_OK, Some sp,
                      store M pt (ucast pti)
                        ((paddr AND VMM_PTE_ADDR_MASK) OR VMM_PTE_PRESENT OR (flags AND vmm_allowed))))"

text \<open>
  The lines that query and unmap repeat for each level: the next table, or the code to return.
\<close>

definition next_level :: "'c vmm_space \<Rightarrow> machine \<Rightarrow> u64 \<Rightarrow> u32 \<Rightarrow> int + u64" where
  "next_level space M table index =
     (let e = load M table (ucast index) in
      if e AND VMM_PTE_PRESENT = 0 \<or> e AND VMM_PTE_HUGE \<noteq> 0 then Inl VMM_ERR_NOT_FOUND
      else let t = table_from_phys space (e AND VMM_PTE_ADDR_MASK) in
        if t = 0 then Inl VMM_ERR_INVAL else Inr t)"

definition page_table :: "'c vmm_space \<Rightarrow> machine \<Rightarrow> u64 \<Rightarrow> int + u64" where
  "page_table space M vaddr =
     (let pml4 = table_from_phys space (root_paddr space) in
      if pml4 = 0 then Inl VMM_ERR_INVAL
      else case next_level space M pml4 (idx_pml4 vaddr) of Inl rc \<Rightarrow> Inl rc
         | Inr pdpt \<Rightarrow>
             (case next_level space M pdpt (idx_pdpt vaddr) of Inl rc \<Rightarrow> Inl rc
              | Inr pd \<Rightarrow> next_level space M pd (idx_pd vaddr)))"

definition vmm_query_page ::
  "'c vmm_space option \<Rightarrow> machine \<Rightarrow> u64 \<Rightarrow> vmm_mapping option \<Rightarrow> int \<times> vmm_mapping option" where
  "vmm_query_page space M vaddr out =
     (case (space, out) of
        (Some sp, Some old) \<Rightarrow>
          if \<not> vmm_is_canonical vaddr \<or> \<not> vmm_is_aligned_4k vaddr then (VMM_ERR_INVAL, out)
          else (case page_table sp M vaddr of
              Inl rc \<Rightarrow> (rc, out)
            | Inr pt \<Rightarrow>
                let e = load M pt (ucast (idx_pt vaddr)) in
                if e AND VMM_PTE_PRESENT = 0 then (VMM_ERR_NOT_FOUND, out)
                else (VMM_MAP_OK, Some \<lparr>map_vaddr = vaddr, map_paddr = e AND VMM_PTE_ADDR_MASK,
                        map_flags = e AND NOT VMM_PTE_ADDR_MASK\<rparr>))
      | _ \<Rightarrow> (VMM_ERR_INVAL, out))"

definition vmm_invalidate_page :: "machine \<Rightarrow> u64 \<Rightarrow> machine" where
  "vmm_invalidate_page M vaddr = M\<lparr>invlpg_log := invlpg_log M @ [vaddr]\<rparr>"

definition vmm_unmap_page :: "'c vmm_space option \<Rightarrow> machine \<Rightarrow> u64 \<Rightarrow> int \<times> machine" where
  "vmm_unmap_page space M vaddr =
     (case space of
        None \<Rightarrow> (VMM_ERR_INVAL, M)
      | Some sp \<Rightarrow>
          if \<not> vmm_is_canonical vaddr \<or> \<not> vmm_is_aligned_4k vaddr then (VMM_ERR_INVAL, M)
          else (case page_table sp M vaddr of
              Inl rc \<Rightarrow> (rc, M)
            | Inr pt \<Rightarrow>
                let pti = idx_pt vaddr in
                if load M pt (ucast pti) AND VMM_PTE_PRESENT = 0 then (VMM_ERR_NOT_FOUND, M)
                else (VMM_MAP_OK, vmm_invalidate_page (store M pt (ucast pti) 0) vaddr)))"

definition vmm_read_cr3 :: "machine \<Rightarrow> u64" where "vmm_read_cr3 M = cr3 M"
definition vmm_write_cr3 :: "machine \<Rightarrow> u64 \<Rightarrow> machine" where "vmm_write_cr3 M v = M\<lparr>cr3 := v\<rparr>"
definition vmm_read_cr2 :: "machine \<Rightarrow> u64" where "vmm_read_cr2 M = cr2 M"

subsection \<open>The abstract address space\<close>

abbreviation present :: "u64 \<Rightarrow> bool" where "present e \<equiv> e AND VMM_PTE_PRESENT \<noteq> 0"
abbreviation huge :: "u64 \<Rightarrow> bool" where "huge e \<equiv> e AND VMM_PTE_HUGE \<noteq> 0"

definition page_entry :: "(u64 \<Rightarrow> u64) \<Rightarrow> machine \<Rightarrow> u64 \<Rightarrow> u32 \<Rightarrow> u64" where
  "page_entry w M t i = load M (w t) (ucast i)"

fun tbl :: "(u64 \<Rightarrow> u64) \<Rightarrow> machine \<Rightarrow> u64 \<Rightarrow> u32 list \<Rightarrow> u64 option" where
  "tbl w M t [] = Some t"
| "tbl w M t (i # is) =
     (let e = page_entry w M t i in
      if present e \<and> \<not> huge e then tbl w M (e AND VMM_PTE_ADDR_MASK) is else None)"

definition leaf :: "(u64 \<Rightarrow> u64) \<Rightarrow> machine \<Rightarrow> u64 \<Rightarrow> u32 list \<Rightarrow> (u64 \<times> u64) option" where
  "leaf w M root p =
     (case tbl w M root (butlast p) of
        None \<Rightarrow> None
      | Some t \<Rightarrow> let e = page_entry w M t (last p) in
          if present e then Some (e AND VMM_PTE_ADDR_MASK, e AND NOT VMM_PTE_ADDR_MASK) else None)"

definition vpath :: "u64 \<Rightarrow> u32 list" where
  "vpath va = [idx_pml4 va, idx_pdpt va, idx_pd va, idx_pt va]"

definition translation :: "(u64 \<Rightarrow> u64) \<Rightarrow> machine \<Rightarrow> u64 \<Rightarrow> u64 \<Rightarrow> (u64 \<times> u64) option" where
  "translation w M root va = leaf w M root (vpath va)"

definition vmm_page :: "u64 \<Rightarrow> bool" where
  "vmm_page va \<longleftrightarrow> vmm_is_canonical va \<and> vmm_is_aligned_4k va"

text \<open>A path of table indices below a root: indices of a table, at most three of them.\<close>

definition tpath :: "u32 list \<Rightarrow> bool" where
  "tpath p \<longleftrightarrow> length p \<le> 3 \<and> (\<forall>i\<in>set p. i < 512)"

definition vmm_tree :: "(u64 \<Rightarrow> u64) \<Rightarrow> u64 set \<Rightarrow> machine \<Rightarrow> u64 \<Rightarrow> bool" where
  "vmm_tree w frames M root \<longleftrightarrow>
     (\<forall>p t. tpath p \<longrightarrow> tbl w M root p = Some t \<longrightarrow> t \<in> frames) \<and>
     (\<forall>p q t. tpath p \<longrightarrow> tpath q \<longrightarrow> tbl w M root p = Some t \<longrightarrow> tbl w M root q = Some t \<longrightarrow> p = q)"

lemma tbl_append:
  "tbl w M t (p @ q) = (case tbl w M t p of None \<Rightarrow> None | Some t \<Rightarrow> tbl w M t q)"
  by (induction p arbitrary: t) (simp_all add: Let_def)

lemma page_entry_cong: "mem M = mem N \<Longrightarrow> page_entry w M = page_entry w N"
  by (simp add: page_entry_def load_def fun_eq_iff)

lemma tpath_append: "tpath (p @ q) \<Longrightarrow> tpath p"
  by (simp add: tpath_def)

lemma tpath_snoc: "tpath (p @ [i]) \<longleftrightarrow> length p \<le> 2 \<and> i < 512 \<and> tpath p"
  by (auto simp: tpath_def)

lemma unat_ucast_u32_u64: "unat (ucast (i :: u32) :: u64) = unat i"
proof -
  have "unat i < 2 ^ 64" using unsigned_less [of i, where 'a = nat] by simp
  then show ?thesis by (simp add: unsigned_ucast_eq take_bit_nat_eq_self)
qed

lemma ucast_index_less: "(i :: u32) < 512 \<Longrightarrow> (ucast i :: u64) < 512"
  by (simp add: word_less_nat_alt unat_ucast_u32_u64)

lemma ucast_index_inj: "(ucast (i :: u32) :: u64) = ucast j \<longleftrightarrow> i = j"
  by (metis unat_ucast_u32_u64 word_unat_eq_iff)

lemma unat_ucast_and_511: "unat (ucast (x AND 511 :: u64) :: u32) = unat x mod 512"
proof -
  have "unat (x AND 511) < 512" by (simp add: mask_simps)
  then show ?thesis by (simp add: unsigned_ucast_eq take_bit_nat_eq_self mask_simps)
qed

lemma idx_less: "idx_pml4 v < 512" "idx_pdpt v < 512" "idx_pd v < 512" "idx_pt v < 512"
  by (simp_all add: idx_pml4_def idx_pdpt_def idx_pd_def idx_pt_def word_less_nat_alt
      unat_ucast_and_511)

subsection \<open>Pages and their indices\<close>

lemma unat_drop_bit: "unat (drop_bit n v) = unat v div 2 ^ n"
  by (simp only: unat_drop_bit_eq) (simp only: drop_bit_eq_div)

lemma aligned_iff: "vmm_is_aligned_4k v \<longleftrightarrow> unat v mod 4096 = 0"
  by (simp add: vmm_is_aligned_4k_def VMM_PAGE_SIZE_def flip: unat_0_iff) (simp add: mask_simps)

lemma canonical_iff:
  "vmm_is_canonical v \<longleftrightarrow> unat v < 140737488355328 \<or> 18446603336221196288 \<le> unat v"
proof -
  define k where "k = unat v div 140737488355328"
  have k: "k < 131072" using unat_u64_bound [of v] by (simp add: k_def less_mult_imp_div_less)
  have s: "unat (drop_bit 47 v AND 1) = k mod 2"
    using unat_and_mask [of "drop_bit 47 v" 1] by (simp add: unat_drop_bit k_def)
  have u: "unat (drop_bit 48 v) = k div 2"
    by (simp add: unat_drop_bit k_def div_mult2_eq [symmetric])
  have "vmm_is_canonical v \<longleftrightarrow> (if k mod 2 \<noteq> 0 then k div 2 = 65535 else k div 2 = 0)"
    unfolding vmm_is_canonical_def Let_def word_unat_eq_iff s u by simp
  also have "\<dots> \<longleftrightarrow> k = 0 \<or> 131071 \<le> k" using k by (cases "k mod 2 = 0") (simp, arith)+
  also have "131071 \<le> k \<longleftrightarrow> 18446603336221196288 \<le> unat v"
    by (simp add: k_def less_eq_div_iff_mult_less_eq)
  also have "k = 0 \<longleftrightarrow> unat v < 140737488355328" by (simp add: k_def div_eq_0_iff)
  finally show ?thesis .
qed

lemma mod_2_48:
  assumes "vmm_page v"
  shows "unat v mod 281474976710656 =
    (if unat v < 140737488355328 then unat v else unat v - 18446462598732840960)"
    and "140737488355328 \<le> unat v mod 281474976710656 \<longleftrightarrow> 18446603336221196288 \<le> unat v"
proof -
  have c: "unat v < 140737488355328 \<or> 18446603336221196288 \<le> unat v"
    using assms by (simp add: vmm_page_def canonical_iff)
  have "unat v mod 281474976710656 = unat v - 18446462598732840960" if "18446603336221196288 \<le> unat v"
  proof -
    define d where "d = unat v - 18446462598732840960"
    have "unat v = d + 65535 * 281474976710656" "d < 281474976710656"
      using that unat_u64_bound [of v] by (simp_all add: d_def)
    then have "unat v mod 281474976710656 = d" by (metis mod_less mod_mult_self1)
    then show ?thesis by (simp add: d_def)
  qed
  with c show "unat v mod 281474976710656 =
      (if unat v < 140737488355328 then unat v else unat v - 18446462598732840960)" by auto
  with c show "140737488355328 \<le> unat v mod 281474976710656 \<longleftrightarrow> 18446603336221196288 \<le> unat v"
    by auto
qed

lemma mod_2_48_split:
  "(n :: nat) mod 281474976710656 = 549755813888 * (n div 549755813888 mod 512) +
     (1073741824 * (n div 1073741824 mod 512) + (2097152 * (n div 2097152 mod 512) +
     (4096 * (n div 4096 mod 512) + n mod 4096)))"
  using mod_mult2_eq [of n 549755813888 512] mod_mult2_eq [of n 1073741824 512]
    mod_mult2_eq [of n 2097152 512] mod_mult2_eq [of n 4096 512]
  by simp

lemma vpath_inj:
  assumes v: "vmm_page v" and u: "vmm_page u" and eq: "vpath v = vpath u"
  shows "v = u"
proof -
  have "unat v mod 281474976710656 = unat u mod 281474976710656"
    using eq v u unfolding mod_2_48_split [of "unat v"] mod_2_48_split [of "unat u"]
    by (simp add: vpath_def idx_pml4_def idx_pdpt_def idx_pd_def idx_pt_def word_unat_eq_iff
        unat_ucast_and_511 unat_drop_bit vmm_page_def aligned_iff)
  then have "unat v = unat u"
    using mod_2_48 [OF v] mod_2_48 [OF u] v u by (auto simp: vmm_page_def canonical_iff split: if_splits)
  then show ?thesis by (simp add: word_unat_eq_iff)
qed

subsection \<open>Entries of new and updated tables\<close>

lemma push_bit_ptes:
  "VMM_PTE_PRESENT = 1" "VMM_PTE_WRITABLE = 2" "VMM_PTE_HUGE = 128"
  "vmm_allowed = 0x800000000000011E"
  by (simp_all add: pte_defs vmm_allowed_def)

lemma table_entry:
  assumes "n AND VMM_PTE_ADDR_MASK = n"
  defines "e \<equiv> (n AND VMM_PTE_ADDR_MASK) OR VMM_PTE_PRESENT OR VMM_PTE_WRITABLE"
  shows "present e" and "\<not> huge e" and "e AND VMM_PTE_ADDR_MASK = n"
proof -
  have "n AND k = n AND (VMM_PTE_ADDR_MASK AND k)" for k
    using assms(1) by (simp flip: and.assoc)
  from this [of 1] this [of 128] have n: "n AND 1 = 0" "n AND 128 = 0"
    by (simp_all add: VMM_PTE_ADDR_MASK_def)
  show "present e" "\<not> huge e" "e AND VMM_PTE_ADDR_MASK = n"
    using n unfolding e_def assms(1) push_bit_ptes bit.conj_disj_distrib2
    by (simp_all add: VMM_PTE_ADDR_MASK_def)
qed

lemma leaf_entry:
  defines "e \<equiv> \<lambda>p f. (p AND VMM_PTE_ADDR_MASK) OR VMM_PTE_PRESENT OR (f AND vmm_allowed)"
  shows "present (e p f)" and "e p f AND VMM_PTE_ADDR_MASK = p AND VMM_PTE_ADDR_MASK"
    and "e p f AND NOT VMM_PTE_ADDR_MASK = VMM_PTE_PRESENT OR (f AND vmm_allowed)"
proof -
  have a: "(f AND vmm_allowed) AND VMM_PTE_ADDR_MASK = 0"
    unfolding push_bit_ptes VMM_PTE_ADDR_MASK_def by (simp add: and.assoc)
  have b: "(f AND vmm_allowed) AND NOT VMM_PTE_ADDR_MASK = f AND vmm_allowed"
    unfolding push_bit_ptes VMM_PTE_ADDR_MASK_def by (simp add: and.assoc)
  have c: "(p AND VMM_PTE_ADDR_MASK) AND 1 = 0" "(f AND vmm_allowed) AND 1 = 0"
    unfolding push_bit_ptes VMM_PTE_ADDR_MASK_def by (simp_all add: and.assoc)
  show "present (e p f)" using c unfolding e_def push_bit_ptes(1) bit.conj_disj_distrib2 by simp
  show "e p f AND VMM_PTE_ADDR_MASK = p AND VMM_PTE_ADDR_MASK"
    using a unfolding e_def bit.conj_disj_distrib2
    by (simp add: and.assoc) (simp add: push_bit_ptes VMM_PTE_ADDR_MASK_def)
  show "e p f AND NOT VMM_PTE_ADDR_MASK = VMM_PTE_PRESENT OR (f AND vmm_allowed)"
    using b unfolding e_def bit.conj_disj_distrib2
    by (simp add: and.assoc) (simp add: push_bit_ptes VMM_PTE_ADDR_MASK_def)
qed

lemma mem_store: "mem (store M t i v) = (mem M)(slot t i := v)"
  by (simp add: store_def)

lemma zero_page_mem:
  "mem (vmm_zero_page M page) a = (if \<exists>i < 512. a = slot page i then 0 else mem M a)"
proof -
  have "mem (fold (\<lambda>k M. store M page (of_nat k) 0) [0..<n] M) a =
      (if \<exists>k < n. a = slot page (of_nat k) then 0 else mem M a)" for n
    by (induction n) (auto simp: mem_store less_Suc_eq)
  moreover have "(\<exists>k < 512. a = slot page (of_nat k)) \<longleftrightarrow> (\<exists>i < 512. a = slot page i)"
  proof
    assume "\<exists>k < 512. a = slot page (of_nat k)"
    then obtain k where "k < 512" "a = slot page (of_nat k)" by blast
    then show "\<exists>i < 512. a = slot page i"
      by (intro exI [of _ "of_nat k"]) (simp add: word_less_nat_alt unat_of_nat)
  next
    assume "\<exists>i < 512. a = slot page i"
    then obtain i where "i < 512" "a = slot page i" by blast
    then show "\<exists>k < 512. a = slot page (of_nat k)"
      by (intro exI [of _ "unat i"]) (simp add: word_less_nat_alt)
  qed
  ultimately show ?thesis
    unfolding vmm_zero_page_def VMM_ENTRIES_PER_TABLE_def by (simp add: for_loop_count)
qed

subsection \<open>What the manager relies on\<close>

text \<open>
  A direct map gives every frame of \<open>ram\<close> a window \<open>win\<close> of virtual addresses that does not depend
  on the context: not null, and apart from the windows of the other frames.
\<close>

locale direct_map =
  fixes to_virt :: "'c \<Rightarrow> u64 \<Rightarrow> u64"
    and win :: "u64 \<Rightarrow> u64"
    and ram :: "u64 set"
  assumes to_virt_win: "p \<in> ram \<Longrightarrow> to_virt c p = win p"
    and win_not_null: "p \<in> ram \<Longrightarrow> win p \<noteq> 0"
    and win_apart: "p \<in> ram \<Longrightarrow> q \<in> ram \<Longrightarrow> i < 512 \<Longrightarrow> j < 512 \<Longrightarrow>
          slot (win p) i = slot (win q) j \<Longrightarrow> p = q \<and> i = j"
    and ram_frame: "p \<in> ram \<Longrightarrow> p AND VMM_PTE_ADDR_MASK = p"
begin

lemma page_entry_store:
  assumes "t \<in> ram" and "u \<in> ram" and "i < 512" and "j < 512"
  shows "page_entry win (store M (win t) (ucast i) e) u j =
     (if u = t \<and> j = i then e else page_entry win M u j)"
  using win_apart [OF assms(1,2) ucast_index_less [OF assms(3)] ucast_index_less [OF assms(4)]]
  by (auto simp: page_entry_def load_def mem_store ucast_index_inj)

lemma page_entry_zero:
  assumes "n \<in> ram" and "u \<in> ram" and "j < 512"
  shows "page_entry win (vmm_zero_page M (win n)) u j = (if u = n then 0 else page_entry win M u j)"
proof -
  have "(\<exists>i < 512. slot (win u) (ucast j) = slot (win n) i) \<longleftrightarrow> u = n"
    using win_apart [OF assms(1,2) _ ucast_index_less [OF assms(3)]] ucast_index_less [OF assms(3)]
    by metis
  then show ?thesis by (simp add: page_entry_def load_def zero_page_mem)
qed

end

subsection \<open>Updates of a tree of tables\<close>

lemma tree_frame: "vmm_tree w F M root \<Longrightarrow> tpath p \<Longrightarrow> tbl w M root p = Some t \<Longrightarrow> t \<in> F"
  unfolding vmm_tree_def by blast

lemma tree_inj:
  "vmm_tree w F M root \<Longrightarrow> tpath p \<Longrightarrow> tpath q \<Longrightarrow> tbl w M root p = Some t \<Longrightarrow>
     tbl w M root q = Some t \<Longrightarrow> p = q"
  unfolding vmm_tree_def by blast

lemma tbl_snoc:
  "tbl w M r (q @ [j]) = (case tbl w M r q of None \<Rightarrow> None
     | Some t \<Rightarrow> let e = page_entry w M t j in
         if present e \<and> \<not> huge e then Some (e AND VMM_PTE_ADDR_MASK) else None)"
  by (simp add: tbl_append Let_def split: option.splits)

lemma tbl_other:
  assumes tree: "vmm_tree w F M root" and t: "tbl w M root p = Some t" "tpath p"
    and upd: "\<And>u j. u \<in> F \<Longrightarrow> j < 512 \<Longrightarrow>
      page_entry w N u j = (if u = t \<and> j = i then e else page_entry w M u j)"
    and q: "tpath q" "\<not> prefix (p @ [i]) q"
  shows "tbl w N root q = tbl w M root q"
  using q
proof (induction q rule: rev_induct)
  case Nil
  then show ?case by simp
next
  case (snoc j q)
  have q: "tpath q" "j < 512" using snoc.prems(1) by (simp_all add: tpath_snoc)
  have "\<not> prefix (p @ [i]) q" using snoc.prems(2) by (metis prefix_prefix prefixI)
  then have eq: "tbl w N root q = tbl w M root q" using snoc.IH q(1) by blast
  show ?case
  proof (cases "tbl w M root q")
    case None
    then show ?thesis by (simp add: tbl_snoc eq)
  next
    case (Some u)
    have "page_entry w N u j = page_entry w M u j"
      using upd [OF tree_frame [OF tree q(1) Some] q(2)] tree_inj [OF tree t(2) q(1) t(1)] Some
        snoc.prems(2) by (auto simp: prefix_def)
    then show ?thesis by (simp add: tbl_snoc eq Some)
  qed
qed

lemma leaf_snoc:
  "leaf w M root (q @ [j]) = (case tbl w M root q of None \<Rightarrow> None
     | Some t \<Rightarrow> let e = page_entry w M t j in
         if present e then Some (e AND VMM_PTE_ADDR_MASK, e AND NOT VMM_PTE_ADDR_MASK) else None)"
  unfolding leaf_def butlast_snoc last_snoc ..

lemma leaf_update:
  assumes tree: "vmm_tree w F M root" and t: "tbl w M root p = Some t" "tpath p" "length p = 3"
    and upd: "\<And>u j. u \<in> F \<Longrightarrow> j < 512 \<Longrightarrow>
      page_entry w N u j = (if u = t \<and> j = i then e else page_entry w M u j)"
  shows "vmm_tree w F N root"
    and "tpath q \<Longrightarrow> j < 512 \<Longrightarrow> leaf w N root (q @ [j]) =
      (if q = p \<and> j = i then if present e then Some (e AND VMM_PTE_ADDR_MASK, e AND NOT VMM_PTE_ADDR_MASK) else None
       else leaf w M root (q @ [j]))"
proof -
  have same: "tbl w N root r = tbl w M root r" if "tpath r" for r
  proof -
    have "\<not> prefix (p @ [i]) r"
      using that t(3) prefix_length_le [of "p @ [i]" r] by (auto simp: tpath_def)
    from tbl_other [OF tree t(1,2) upd that this] show ?thesis by simp
  qed
  show "vmm_tree w F N root" using tree by (simp add: vmm_tree_def same)
  assume q: "tpath q" "j < 512"
  show "leaf w N root (q @ [j]) =
      (if q = p \<and> j = i then if present e then Some (e AND VMM_PTE_ADDR_MASK, e AND NOT VMM_PTE_ADDR_MASK) else None
       else leaf w M root (q @ [j]))"
  proof (cases "tbl w M root q")
    case None
    then show ?thesis using t(1) by (auto simp: leaf_snoc same [OF q(1)])
  next
    case (Some u)
    have "u = t \<longleftrightarrow> q = p" using tree_inj [OF tree q(1) t(2)] Some t(1) by auto
    then show ?thesis
      using upd [OF tree_frame [OF tree q(1) Some] q(2)] Some by (simp add: leaf_snoc same [OF q(1)])
  qed
qed

lemma table_insert:
  assumes tree: "vmm_tree w F M root" and t: "tbl w M root p = Some t" "tpath (p @ [i])"
    and fresh: "n \<notin> F" and absent: "\<not> present (page_entry w M t i)"
    and e: "present e" "\<not> huge e" "e AND VMM_PTE_ADDR_MASK = n"
    and upd: "\<And>u j. u \<in> F \<Longrightarrow> j < 512 \<Longrightarrow>
      page_entry w N u j = (if u = t \<and> j = i then e else page_entry w M u j)"
    and zero: "\<And>j. j < 512 \<Longrightarrow> page_entry w N n j = 0"
  shows "vmm_tree w (insert n F) N root" and "tbl w N root (p @ [i]) = Some n"
    and "tpath r \<Longrightarrow> tbl w N root r = (if r = p @ [i] then Some n else tbl w M root r)"
    and "tpath q \<Longrightarrow> length q = 3 \<Longrightarrow> j < 512 \<Longrightarrow> leaf w N root (q @ [j]) = leaf w M root (q @ [j])"
proof -
  have p: "tpath p" "i < 512" using t(2) by (simp_all add: tpath_snoc)
  have new: "tbl w M root (p @ [i]) = None" using t(1) absent by (simp add: tbl_snoc)
  have old: "tbl w N root p = Some t"
    using tbl_other [OF tree t(1) p(1) upd p(1)] t(1) by (simp add: prefix_def)
  then show at: "tbl w N root (p @ [i]) = Some n"
    using upd [OF tree_frame [OF tree p(1) t(1)] p(2)] e by (simp add: tbl_snoc)
  have all: "tbl w N root r = (if r = p @ [i] then Some n else tbl w M root r)" if r: "tpath r" for r
  proof (cases "prefix (p @ [i]) r")
    case False
    from tbl_other [OF tree t(1) p(1) upd r this] False show ?thesis by auto
  next
    case True
    then obtain s where s: "r = (p @ [i]) @ s" by (auto simp: prefix_def)
    show ?thesis
    proof (cases s)
      case Nil
      with s at show ?thesis by simp
    next
      case (Cons k s')
      have "k < 512" using r s Cons by (simp add: tpath_def)
      then have "tbl w N n s = None" using zero by (simp add: Cons)
      then have "tbl w N root r = None" "tbl w M root r = None"
        using at new s by (simp_all only: tbl_append [of _ _ _ "p @ [i]" s] option.case)
      then show ?thesis using s Cons by simp
    qed
  qed
  then show "tpath r \<Longrightarrow> tbl w N root r = (if r = p @ [i] then Some n else tbl w M root r)" for r .
  show "vmm_tree w (insert n F) N root"
    using tree fresh unfolding vmm_tree_def by (auto simp: all split: if_splits)
  assume q: "tpath q" "length q = 3" "j < 512"
  have ne: "q \<noteq> p" using q(2) t(2) by (auto simp: tpath_def)
  show "leaf w N root (q @ [j]) = leaf w M root (q @ [j])"
  proof (cases "tbl w M root q")
    case None
    then show ?thesis
      unfolding leaf_snoc using all [OF q(1)] zero [OF q(3)] by (cases "q = p @ [i]") simp_all
  next
    case (Some u)
    then have "u \<noteq> t" "q \<noteq> p @ [i]" using tree_inj [OF tree q(1) p(1)] t(1) ne new by auto
    then show ?thesis
      unfolding leaf_snoc using upd [OF tree_frame [OF tree q(1) Some] q(3)] all [OF q(1)] Some by simp
  qed
qed

text \<open>An entry above the last level on the path maps a huge page.\<close>

fun covered :: "(u64 \<Rightarrow> u64) \<Rightarrow> machine \<Rightarrow> u64 \<Rightarrow> u32 list \<Rightarrow> bool" where
  "covered w M t [] \<longleftrightarrow> False"
| "covered w M t (i # is) \<longleftrightarrow>
     (let e = page_entry w M t i in
      present e \<and> (huge e \<or> covered w M (e AND VMM_PTE_ADDR_MASK) is))"

lemma covered_snoc:
  "covered w M t (q @ [j]) \<longleftrightarrow> covered w M t q \<or>
     (\<exists>u. tbl w M t q = Some u \<and> present (page_entry w M u j) \<and> huge (page_entry w M u j))"
  by (induction q arbitrary: t) (auto simp: Let_def)

lemma covered_no_tbl: "covered w M t q \<Longrightarrow> tbl w M t q = None"
  by (induction q arbitrary: t) (auto simp: Let_def)

lemma covered_leaf_update:
  assumes tree: "vmm_tree w F M root" and t: "tbl w M root p = Some t" "tpath p" "length p = 3"
    and upd: "\<And>u j. u \<in> F \<Longrightarrow> j < 512 \<Longrightarrow>
      page_entry w N u j = (if u = t \<and> j = i then e else page_entry w M u j)"
    and q: "tpath q"
  shows "covered w N root q = covered w M root q"
  using q
proof (induction q rule: rev_induct)
  case (snoc j q)
  have q: "tpath q" "j < 512" "length q \<noteq> 3" using snoc.prems by (auto simp: tpath_snoc)
  have "\<not> prefix (p @ [i]) q"
    using q t(3) prefix_length_le [of "p @ [i]" q] by (auto simp: tpath_def)
  from tbl_other [OF tree t(1,2) upd q(1) this] have same: "tbl w N root q = tbl w M root q" by simp
  have "page_entry w N u j = page_entry w M u j" if "tbl w M root q = Some u" for u
    using upd [OF tree_frame [OF tree q(1) that] q(2)] tree_inj [OF tree q(1) t(2) that] t q(3) by auto
  then show ?case using snoc.IH [OF q(1)] by (auto simp: covered_snoc same)
qed simp

lemma covered_table_insert:
  assumes tree: "vmm_tree w F M root" and t: "tbl w M root p = Some t" "tpath (p @ [i])"
    and fresh: "n \<notin> F" and absent: "\<not> present (page_entry w M t i)"
    and e: "present e" "\<not> huge e" "e AND VMM_PTE_ADDR_MASK = n"
    and upd: "\<And>u j. u \<in> F \<Longrightarrow> j < 512 \<Longrightarrow>
      page_entry w N u j = (if u = t \<and> j = i then e else page_entry w M u j)"
    and zero: "\<And>j. j < 512 \<Longrightarrow> page_entry w N n j = 0"
    and q: "tpath q"
  shows "covered w N root q = covered w M root q"
  using q
proof (induction q rule: rev_induct)
  case (snoc j q)
  have q: "tpath q" "j < 512" using snoc.prems by (auto simp: tpath_snoc)
  note all = table_insert(3) [OF tree t fresh absent e upd zero q(1)]
  have "(\<exists>u. tbl w N root q = Some u \<and> present (page_entry w N u j) \<and> huge (page_entry w N u j)) \<longleftrightarrow>
    (\<exists>u. tbl w M root q = Some u \<and> present (page_entry w M u j) \<and> huge (page_entry w M u j))"
  proof (cases "q = p @ [i]")
    case True
    then show ?thesis using all zero [OF q(2)] t(1) absent by (simp add: tbl_snoc)
  next
    case False
    then have "tbl w N root q = tbl w M root q" using all by simp
    moreover have "present (page_entry w N u j) \<and> huge (page_entry w N u j) \<longleftrightarrow>
        present (page_entry w M u j) \<and> huge (page_entry w M u j)" if "tbl w M root q = Some u" for u
      using upd [OF tree_frame [OF tree q(1) that] q(2)] absent e(2) by auto
    ultimately show ?thesis by auto
  qed
  then show ?case using snoc.IH [OF q(1)] by (simp add: covered_snoc)
qed simp

definition page_covered :: "(u64 \<Rightarrow> u64) \<Rightarrow> machine \<Rightarrow> u64 \<Rightarrow> u64 \<Rightarrow> bool" where
  "page_covered w M root va = covered w M root [idx_pml4 va, idx_pdpt va, idx_pd va]"

definition same_pages :: "(u64 \<Rightarrow> u64) \<Rightarrow> u64 \<Rightarrow> machine \<Rightarrow> machine \<Rightarrow> bool" where
  "same_pages w root M N \<longleftrightarrow>
     translation w N root = translation w M root \<and> page_covered w N root = page_covered w M root \<and>
     cr2 N = cr2 M \<and> cr3 N = cr3 M \<and> invlpg_log N = invlpg_log M"

definition vmm_wf ::
  "('c \<Rightarrow> bool) \<Rightarrow> ('c \<Rightarrow> u64 set) \<Rightarrow> (u64 \<Rightarrow> u64) \<Rightarrow> u64 set \<Rightarrow> 'c vmm_space \<Rightarrow> machine \<Rightarrow> bool" where
  "vmm_wf good avail win ram sp M \<longleftrightarrow>
     good (ctx sp) \<and> vmm_tree win (ram - avail (ctx sp)) M (root_paddr sp)"

definition vmm_callbacks ::
  "('c \<Rightarrow> u64 \<times> 'c) \<Rightarrow> ('c \<Rightarrow> u64 \<Rightarrow> bool \<times> 'c) \<Rightarrow> ('c \<Rightarrow> u64 \<Rightarrow> u64) \<Rightarrow> 'c vmm_space \<Rightarrow> bool" where
  "vmm_callbacks alloc release to_virt sp \<longleftrightarrow> alloc_frame sp = Some alloc \<and>
     free_frame sp = Some (\<lambda>c p. snd (release c p)) \<and> phys_to_virt sp = Some to_virt"

lemma vpath_tpath: "tpath [idx_pml4 va, idx_pdpt va, idx_pd va]"
  by (simp add: tpath_def idx_less)

lemma translation_leaf:
  "translation w M root va = leaf w M root ([idx_pml4 va, idx_pdpt va, idx_pd va] @ [idx_pt va])"
  by (simp add: translation_def vpath_def)

lemma same_pages_refl [simp]: "same_pages w root M M"
  by (simp add: same_pages_def)

lemma same_pages_trans: "same_pages w root M N \<Longrightarrow> same_pages w root N K \<Longrightarrow> same_pages w root M K"
  by (simp add: same_pages_def)

lemma store_regs [simp]:
  "cr2 (store M t i v) = cr2 M" "cr3 (store M t i v) = cr3 M"
  "invlpg_log (store M t i v) = invlpg_log M"
  by (simp_all add: store_def)

lemma zero_page_regs [simp]:
  "cr2 (vmm_zero_page M p) = cr2 M" "cr3 (vmm_zero_page M p) = cr3 M"
  "invlpg_log (vmm_zero_page M p) = invlpg_log M"
proof -
  have "cr2 N = cr2 M \<and> cr3 N = cr3 M \<and> invlpg_log N = invlpg_log M" if "N = vmm_zero_page M p" for N
    unfolding that vmm_zero_page_def for_loop_count by (rule fold_invariant) simp_all
  then show "cr2 (vmm_zero_page M p) = cr2 M" "cr3 (vmm_zero_page M p) = cr3 M"
    "invlpg_log (vmm_zero_page M p) = invlpg_log M" by simp_all
qed

locale page_memory =
  frame_allocator alloc release inv avail VMM_INVALID_PHYS + direct_map to_virt win ram
  for alloc :: "'c \<Rightarrow> u64 \<times> 'c" and release inv avail
    and to_virt :: "'c \<Rightarrow> u64 \<Rightarrow> u64" and win ram +
  assumes avail_ram: "inv c \<Longrightarrow> avail c \<subseteq> ram"
begin

abbreviation vm_ok :: "'c vmm_space \<Rightarrow> machine \<Rightarrow> bool" where
  "vm_ok sp M \<equiv> vmm_wf inv avail win ram sp M \<and> vmm_callbacks alloc release to_virt sp"

lemma ram_aligned: "p \<in> ram \<Longrightarrow> vmm_is_aligned_4k p"
proof -
  assume "p \<in> ram"
  then have "p AND (VMM_PAGE_SIZE - 1) = p AND (VMM_PTE_ADDR_MASK AND (VMM_PAGE_SIZE - 1))"
    using ram_frame by (metis and.assoc)
  then show ?thesis by (simp add: vmm_is_aligned_4k_def VMM_PAGE_SIZE_def VMM_PTE_ADDR_MASK_def)
qed

lemma table_from_ram:
  "vmm_callbacks alloc release to_virt sp \<Longrightarrow> p \<in> ram \<Longrightarrow> table_from_phys sp p = win p \<and> win p \<noteq> 0"
  by (simp add: table_from_phys_def vmm_callbacks_def ram_aligned to_virt_win win_not_null)

lemma vm_table:
  "vm_ok sp M \<Longrightarrow> tpath p \<Longrightarrow> tbl win M (root_paddr sp) p = Some t \<Longrightarrow>
     t \<in> ram - avail (ctx sp) \<and> table_from_phys sp t = win t \<and> win t \<noteq> 0"
  using tree_frame table_from_ram by (fastforce simp: vmm_wf_def)

lemma same_pages_insert:
  assumes ok: "vm_ok sp M" and p: "tpath (p @ [i])" and t: "tbl win M (root_paddr sp) p = Some t"
    and absent: "\<not> present (page_entry win M t i)" and n: "n \<in> avail (ctx sp)"
  defines "e \<equiv> (n AND VMM_PTE_ADDR_MASK) OR VMM_PTE_PRESENT OR VMM_PTE_WRITABLE"
  defines "N \<equiv> store (vmm_zero_page M (win n)) (win t) (ucast i) e"
  shows "vmm_tree win (insert n (ram - avail (ctx sp))) N (root_paddr sp) \<and>
     tbl win N (root_paddr sp) (p @ [i]) = Some n \<and> same_pages win (root_paddr sp) M N \<and>
     (\<forall>r. tpath r \<longrightarrow> r \<noteq> p @ [i] \<longrightarrow> tbl win N (root_paddr sp) r = tbl win M (root_paddr sp) r)"
proof -
  let ?F = "ram - avail (ctx sp)"
  have tree: "vmm_tree win ?F M (root_paddr sp)" and nr: "n \<in> ram"
    using ok n avail_ram by (auto simp: vmm_wf_def)
  have tr: "t \<in> ram" and tn: "t \<noteq> n" and i: "i < 512"
    using vm_table [OF ok _ t] p n by (auto simp: tpath_snoc)
  have e: "present e" "\<not> huge e" "e AND VMM_PTE_ADDR_MASK = n"
    unfolding e_def using table_entry [OF ram_frame [OF nr]] by auto
  have upd: "page_entry win N u j = (if u = t \<and> j = i then e else page_entry win M u j)"
    if "u \<in> ?F" "j < 512" for u j
    using that n nr tr i unfolding N_def by (auto simp: page_entry_store page_entry_zero)
  have zero: "page_entry win N n j = 0" if "j < 512" for j
    using that nr tr tn i unfolding N_def by (simp add: page_entry_store page_entry_zero)
  have fresh: "n \<notin> ?F" using n by simp
  have "translation win N (root_paddr sp) va = translation win M (root_paddr sp) va" for va
    unfolding translation_leaf
    by (rule table_insert(4) [OF tree t p fresh absent e upd zero vpath_tpath]) (simp_all add: idx_less)
  moreover have "page_covered win N (root_paddr sp) va = page_covered win M (root_paddr sp) va" for va
    unfolding page_covered_def
    by (rule covered_table_insert [OF tree t p fresh absent e upd zero vpath_tpath])
  ultimately show ?thesis
    using table_insert(1-3) [OF tree t p fresh absent e upd zero]
    by (simp add: same_pages_def fun_eq_iff N_def)
qed

lemma next_table_cases:
  assumes vm: "vm_ok sp M" and p: "tpath (p @ [i])" and t: "tbl win M (root_paddr sp) p = Some t"
    and ret: "get_or_alloc_next_table sp M (win t) i = (rc, sp', M', out)"
  obtains (ok) t' where "rc = VMM_MAP_OK" "vm_ok sp' M'" "root_paddr sp' = root_paddr sp" "out = win t'"
      "tbl win M' (root_paddr sp) (p @ [i]) = Some t'" "same_pages win (root_paddr sp) M M'"
      "\<not> covered win M (root_paddr sp) (p @ [i])"
      "card (avail (ctx sp)) = card (avail (ctx sp')) + (if tbl win M (root_paddr sp) (p @ [i]) = None then 1 else 0)"
      "\<forall>r. tpath r \<longrightarrow> r \<noteq> p @ [i] \<longrightarrow> tbl win M' (root_paddr sp) r = tbl win M (root_paddr sp) r"
  | (covered) "rc = VMM_ERR_EXISTS" "covered win M (root_paddr sp) (p @ [i])" "sp' = sp" "M' = M"
  | (nomem) "rc = VMM_ERR_NOMEM" "tbl win M (root_paddr sp) (p @ [i]) = None"
      "\<not> covered win M (root_paddr sp) (p @ [i])" "avail (ctx sp) = {}" "sp' = sp" "M' = M"
proof -
  have cb: "alloc_frame sp = Some alloc" "phys_to_virt sp = Some to_virt"
    and inv: "inv (ctx sp)" using vm by (simp_all add: vmm_callbacks_def vmm_wf_def)
  let ?e = "page_entry win M t i"
  have nc: "\<not> covered win M (root_paddr sp) p" using covered_no_tbl t by fastforce
  have load: "load M (win t) (ucast i) = ?e" by (simp add: page_entry_def)
  consider "present ?e" "huge ?e" | "present ?e" "\<not> huge ?e" | "\<not> present ?e" "avail (ctx sp) = {}"
    | "\<not> present ?e" "avail (ctx sp) \<noteq> {}" by blast
  then show thesis
  proof cases
    case 1
    then have "get_or_alloc_next_table sp M (win t) i = (VMM_ERR_EXISTS, sp, M, 0)"
      unfolding get_or_alloc_next_table_def load Let_def by simp
    then show thesis using ret 1 t by (intro covered) (simp_all add: covered_snoc)
  next
    case 2
    then have new: "tbl win M (root_paddr sp) (p @ [i]) = Some (?e AND VMM_PTE_ADDR_MASK)"
      using t by (simp add: tbl_snoc)
    then have "get_or_alloc_next_table sp M (win t) i = (VMM_MAP_OK, sp, M, win (?e AND VMM_PTE_ADDR_MASK))"
      using 2 vm_table [OF vm p new] unfolding get_or_alloc_next_table_def load Let_def by simp
    then show thesis by (intro ok [of "?e AND VMM_PTE_ADDR_MASK"]) (use ret vm new covered_no_tbl in fastforce)+
  next
    case 3
    then have "get_or_alloc_next_table sp M (win t) i = (VMM_ERR_NOMEM, sp, M, 0)"
      using alloc_none [OF inv] cb unfolding get_or_alloc_next_table_def load Let_def by simp
    then show thesis using ret 3 t nc by (intro nomem) (simp_all add: tbl_snoc covered_snoc)
  next
    case 4
    obtain n c where n: "alloc (ctx sp) = (n, c)" by fastforce
    from alloc_some [OF inv 4(2) n] have a: "n \<in> avail (ctx sp)" "avail c = avail (ctx sp) - {n}" "inv c"
      by auto
    have nr: "n \<in> ram" and inval: "n \<noteq> VMM_INVALID_PHYS"
      using a(1) avail_ram [OF inv] avail_valid [OF inv] by auto
    have cb': "vmm_callbacks alloc release to_virt (sp\<lparr>ctx := c\<rparr>)"
      using vm by (simp add: vmm_callbacks_def)
    let ?N = "store (vmm_zero_page M (win n)) (win t) (ucast i)
        ((n AND VMM_PTE_ADDR_MASK) OR VMM_PTE_PRESENT OR VMM_PTE_WRITABLE)"
    have "get_or_alloc_next_table sp M (win t) i = (VMM_MAP_OK, sp\<lparr>ctx := c\<rparr>, ?N, win n)"
      unfolding get_or_alloc_next_table_def load Let_def
      using 4(1) cb n inval ram_aligned [OF nr] table_from_ram [OF cb' nr] by simp
    then have ret': "rc = VMM_MAP_OK" "sp' = sp\<lparr>ctx := c\<rparr>" "M' = ?N" "out = win n"
      using ret by simp_all
    have "insert n (ram - avail (ctx sp)) = ram - avail c" using a nr by auto
    with same_pages_insert [OF vm p t 4(1) a(1)]
    have ins: "vmm_tree win (ram - avail c) ?N (root_paddr sp)"
      "tbl win ?N (root_paddr sp) (p @ [i]) = Some n" "same_pages win (root_paddr sp) M ?N"
      "\<forall>r. tpath r \<longrightarrow> r \<noteq> p @ [i] \<longrightarrow> tbl win ?N (root_paddr sp) r = tbl win M (root_paddr sp) r"
      by simp_all
    have "tbl win M (root_paddr sp) (p @ [i]) = None" "\<not> covered win M (root_paddr sp) (p @ [i])"
      using 4(1) t nc by (simp_all add: tbl_snoc covered_snoc)
    moreover have "card (avail (ctx sp)) = card (avail c) + 1"
      using a avail_finite [OF inv] by (metis Suc_eq_plus1 card.remove)
    ultimately show thesis
      by (intro ok [of n]) (use ret' ins cb' a in \<open>simp_all add: vmm_wf_def\<close>)
  qed
qed

end

subsection \<open>Mapping, querying and unmapping a page\<close>

definition missing_tables :: "(u64 \<Rightarrow> u64) \<Rightarrow> machine \<Rightarrow> u64 \<Rightarrow> u32 list \<Rightarrow> nat" where
  "missing_tables w M root p =
     length (filter (\<lambda>k. tbl w M root (take (Suc k) p) = None) [0..<length p])"

definition map_result ::
  "(u64 \<Rightarrow> u64) \<Rightarrow> machine \<Rightarrow> u64 \<Rightarrow> nat \<Rightarrow> u64 \<Rightarrow> int" where
  "map_result w M root frames va =
     (if page_covered w M root va then VMM_ERR_EXISTS
      else if frames < missing_tables w M root [idx_pml4 va, idx_pdpt va, idx_pd va] then VMM_ERR_NOMEM
      else if translation w M root va \<noteq> None then VMM_ERR_EXISTS
      else VMM_MAP_OK)"

lemma tbl_prefix_None: "tbl w M r p = None \<Longrightarrow> tbl w M r (p @ q) = None"
  by (simp add: tbl_append)

lemma covered_append: "covered w M t p \<Longrightarrow> covered w M t (p @ q)"
  by (induction p arbitrary: t) (auto simp: Let_def)

lemma not_covered_append:
  "tbl w M t p = None \<Longrightarrow> \<not> covered w M t p \<Longrightarrow> \<not> covered w M t (p @ q)"
  by (induction p arbitrary: t) (auto simp: Let_def split: if_splits)

lemma missing_tables_snoc:
  "missing_tables w M root (p @ [i]) = missing_tables w M root p +
     (if tbl w M root (p @ [i]) = None then 1 else 0)"
proof -
  have "filter (\<lambda>k. tbl w M root (take (Suc k) (p @ [i])) = None) [0..<length p] =
      filter (\<lambda>k. tbl w M root (take (Suc k) p) = None) [0..<length p]"
    by (rule filter_cong) simp_all
  then show ?thesis by (simp add: missing_tables_def)
qed

lemma missing_tables_append: "missing_tables w M root p \<le> missing_tables w M root (p @ q)"
proof (induction q rule: rev_induct)
  case (snoc i q)
  then show ?case using missing_tables_snoc [of w M root "p @ q" i] by simp
qed simp

context page_memory
begin

lemma store_leaf:
  fixes e :: u64
  assumes vm: "vm_ok sp M" and t: "tbl win M (root_paddr sp) [idx_pml4 va, idx_pdpt va, idx_pd va] = Some t"
    and va: "vmm_page va"
  defines "N \<equiv> store M (win t) (ucast (idx_pt va)) e"
  shows "vm_ok sp N \<and> page_covered win N (root_paddr sp) = page_covered win M (root_paddr sp) \<and>
    (\<forall>v. vmm_page v \<longrightarrow> translation win N (root_paddr sp) v =
      (if v = va then if present e then Some (e AND VMM_PTE_ADDR_MASK, e AND NOT VMM_PTE_ADDR_MASK) else None
       else translation win M (root_paddr sp) v))"
proof -
  let ?F = "ram - avail (ctx sp)"
  have tree: "vmm_tree win ?F M (root_paddr sp)" using vm by (simp add: vmm_wf_def)
  have tr: "t \<in> ram" using vm_table [OF vm vpath_tpath t] by simp
  have upd: "page_entry win N u j = (if u = t \<and> j = idx_pt va then e else page_entry win M u j)"
    if "u \<in> ?F" "j < 512" for u j
    unfolding N_def by (rule page_entry_store) (use that tr idx_less in auto)
  have "page_covered win N (root_paddr sp) v = page_covered win M (root_paddr sp) v" for v
    unfolding page_covered_def
    by (rule covered_leaf_update [OF tree t vpath_tpath _ upd vpath_tpath]) simp_all
  moreover have "translation win N (root_paddr sp) v =
      (if v = va then if present e then Some (e AND VMM_PTE_ADDR_MASK, e AND NOT VMM_PTE_ADDR_MASK) else None
       else translation win M (root_paddr sp) v)" if v: "vmm_page v" for v
  proof -
    have "[idx_pml4 v, idx_pdpt v, idx_pd v] = [idx_pml4 va, idx_pdpt va, idx_pd va] \<and>
        idx_pt v = idx_pt va \<longleftrightarrow> v = va"
      using vpath_inj [OF v va] by (auto simp: vpath_def)
    then show ?thesis
      using leaf_update(2) [OF tree t vpath_tpath _ upd vpath_tpath idx_less(4), of v v]
      unfolding translation_leaf by simp
  qed
  moreover have "vmm_tree win ?F N (root_paddr sp)"
    by (rule leaf_update(1) [OF tree t vpath_tpath _ upd]) simp_all
  ultimately show ?thesis using vm by (simp add: vmm_wf_def fun_eq_iff)
qed

lemma page_table_walk:
  assumes vm: "vm_ok sp M"
  shows "page_table sp M va =
    (case tbl win M (root_paddr sp) [idx_pml4 va, idx_pdpt va, idx_pd va] of
       None \<Rightarrow> Inl VMM_ERR_NOT_FOUND | Some t \<Rightarrow> Inr (win t))"
proof -
  have step: "next_level sp M (win t) i =
      (case tbl win M (root_paddr sp) (p @ [i]) of None \<Rightarrow> Inl VMM_ERR_NOT_FOUND | Some t \<Rightarrow> Inr (win t))"
    if "tbl win M (root_paddr sp) p = Some t" "tpath (p @ [i])" for p t i
  proof (cases "tbl win M (root_paddr sp) (p @ [i])")
    case None
    then have "\<not> present (page_entry win M t i) \<or> huge (page_entry win M t i)"
      using that by (auto simp: tbl_snoc Let_def split: if_splits)
    then show ?thesis using None by (auto simp: next_level_def page_entry_def Let_def)
  next
    case (Some u)
    then have "present (page_entry win M t i)" "\<not> huge (page_entry win M t i)"
      "u = page_entry win M t i AND VMM_PTE_ADDR_MASK"
      using that by (auto simp: tbl_snoc Let_def split: if_splits)
    then show ?thesis using Some vm_table [OF vm that(2) Some]
      by (auto simp: next_level_def page_entry_def Let_def)
  qed
  have root: "table_from_phys sp (root_paddr sp) = win (root_paddr sp)" "win (root_paddr sp) \<noteq> 0"
    using vm_table [OF vm, of "[]"] by (simp_all add: tpath_def)
  note s1 = step [of "[]" "root_paddr sp" "idx_pml4 va", unfolded append_Nil tbl.simps(1)]
  have tp: "tpath [idx_pml4 va]" "tpath [idx_pml4 va, idx_pdpt va]"
    by (simp_all add: tpath_def idx_less)
  show ?thesis
    unfolding page_table_def root
    using root(2) s1 tp vpath_tpath [of va]
      step [of "[idx_pml4 va]" _ "idx_pdpt va"] step [of "[idx_pml4 va, idx_pdpt va]" _ "idx_pd va"]
      tbl_prefix_None [of win M "root_paddr sp" "[idx_pml4 va]" "[idx_pdpt va, idx_pd va]"]
      tbl_prefix_None [of win M "root_paddr sp" "[idx_pml4 va, idx_pdpt va]" "[idx_pd va]"]
    by (simp del: tbl.simps split: option.splits)
qed

definition descended ::
  "'c vmm_space \<Rightarrow> machine \<Rightarrow> u32 list \<Rightarrow> 'c vmm_space \<Rightarrow> machine \<Rightarrow> u64 \<Rightarrow> bool" where
  "descended sp M p sp' M' t \<longleftrightarrow>
     vm_ok sp' M' \<and> root_paddr sp' = root_paddr sp \<and> same_pages win (root_paddr sp) M M' \<and>
     tbl win M' (root_paddr sp) p = Some t \<and>
     card (avail (ctx sp)) = card (avail (ctx sp')) + missing_tables win M (root_paddr sp) p \<and>
     (\<forall>r. tpath r \<longrightarrow> length p < length r \<longrightarrow> tbl win M' (root_paddr sp) r = tbl win M (root_paddr sp) r)"

lemma descend:
  assumes d: "descended sp M p sp' M' t"
    and va: "p @ [i] @ q = [idx_pml4 va, idx_pdpt va, idx_pd va]"
    and ret: "get_or_alloc_next_table sp' M' (win t) i = (rc, sp'', M'', out)"
  obtains (ok) t' where "rc = VMM_MAP_OK" "out = win t'" "descended sp M (p @ [i]) sp'' M'' t'"
  | (covered) "rc = VMM_ERR_EXISTS" "page_covered win M (root_paddr sp) va" "sp'' = sp'" "M'' = M'"
  | (nomem) "rc = VMM_ERR_NOMEM" "\<not> page_covered win M (root_paddr sp) va"
      "card (avail (ctx sp)) < missing_tables win M (root_paddr sp) [idx_pml4 va, idx_pdpt va, idx_pd va]"
      "sp'' = sp'" "M'' = M'"
proof -
  have vm: "vm_ok sp' M'" and root: "root_paddr sp' = root_paddr sp"
    and t: "tbl win M' (root_paddr sp') p = Some t"
    and same: "same_pages win (root_paddr sp) M M'"
    and free: "card (avail (ctx sp)) = card (avail (ctx sp')) + missing_tables win M (root_paddr sp) p"
    and deep: "\<forall>r. tpath r \<longrightarrow> length p < length r \<longrightarrow>
      tbl win M' (root_paddr sp) r = tbl win M (root_paddr sp) r"
    using d by (simp_all add: descended_def)
  have p: "tpath (p @ [i])" using vpath_tpath [of va] tpath_append [of "p @ [i]" q] va by simp
  have cov: "page_covered win M' (root_paddr sp) va \<longleftrightarrow> page_covered win M (root_paddr sp) va"
    using same by (simp add: same_pages_def)
  have path: "page_covered win M' (root_paddr sp) va \<longleftrightarrow> covered win M' (root_paddr sp) ((p @ [i]) @ q)"
    using va by (simp add: page_covered_def)
  have at: "tbl win M' (root_paddr sp) (p @ [i]) = tbl win M (root_paddr sp) (p @ [i])"
    using deep p by simp
  show thesis
  proof (cases rule: next_table_cases [OF vm p t ret])
    case (1 t')
    have "tbl win M'' (root_paddr sp) r = tbl win M (root_paddr sp) r"
      if "tpath r" "Suc (length p) < length r" for r
      using that 1 deep root by (metis Suc_lessD length_append_singleton less_irrefl)
    then have "descended sp M (p @ [i]) sp'' M'' t'"
      using 1 root free at same_pages_trans [OF same]
      by (simp add: descended_def missing_tables_snoc)
    then show thesis using 1 by (intro ok)
  next
    case 2
    then show thesis using covered_append [of win M' "root_paddr sp" "p @ [i]" q] cov path root
      by (intro covered) simp_all
  next
    case 3
    have "card (avail (ctx sp)) < missing_tables win M (root_paddr sp) (p @ [i])"
      using 3 free at root by (simp add: missing_tables_snoc)
    also have "\<dots> \<le> missing_tables win M (root_paddr sp) [idx_pml4 va, idx_pdpt va, idx_pd va]"
      using missing_tables_append [of win M "root_paddr sp" "p @ [i]" q] va by simp
    finally show thesis
      using 3 not_covered_append [of win M' "root_paddr sp" "p @ [i]" q] cov path root
      by (intro nomem) simp_all
  qed
qed

end

text \<open>The three descents of \<open>vmm_map_page\<close> as one walk over the list of indices.\<close>

fun walk_down ::
  "'c vmm_space \<Rightarrow> machine \<Rightarrow> u64 \<Rightarrow> u32 list \<Rightarrow> int \<times> 'c vmm_space \<times> machine \<times> u64" where
  "walk_down sp M t [] = (VMM_MAP_OK, sp, M, t)"
| "walk_down sp M t (i # is) =
     (let (rc, sp, M, t) = get_or_alloc_next_table sp M t i
      in if rc \<noteq> VMM_MAP_OK then (rc, sp, M, t) else walk_down sp M t is)"

lemma codes_ne: "VMM_ERR_EXISTS \<noteq> VMM_MAP_OK" "VMM_ERR_NOMEM \<noteq> VMM_MAP_OK"
  by (simp_all add: vmm_codes)

definition map_leaf :: "'c vmm_space \<Rightarrow> machine \<Rightarrow> u64 \<Rightarrow> u64 \<Rightarrow> u64 \<Rightarrow> u64 \<Rightarrow>
    int \<times> 'c vmm_space option \<times> machine" where
  "map_leaf sp M pt va pa fl =
     (if present (load M pt (ucast (idx_pt va))) then (VMM_ERR_EXISTS, Some sp, M)
      else (VMM_MAP_OK, Some sp, store M pt (ucast (idx_pt va))
              ((pa AND VMM_PTE_ADDR_MASK) OR VMM_PTE_PRESENT OR (fl AND vmm_allowed))))"

lemma map_page_walk:
  assumes "vmm_page va" "vmm_is_aligned_4k pa" "table_from_phys sp (root_paddr sp) = r" "r \<noteq> 0"
  shows "vmm_map_page (Some sp) M va pa fl =
    (let (rc, sp, M, t) = walk_down sp M r [idx_pml4 va, idx_pdpt va, idx_pd va]
     in if rc \<noteq> VMM_MAP_OK then (rc, Some sp, M) else map_leaf sp M t va pa fl)"
  using assms by (simp add: vmm_map_page_def vmm_page_def map_leaf_def Let_def split: prod.splits)

context page_memory
begin

lemma translation_table:
  "tbl win M root [idx_pml4 va, idx_pdpt va, idx_pd va] = Some t \<Longrightarrow>
   translation win M root va =
     (let e = load M (win t) (ucast (idx_pt va)) in
      if present e then Some (e AND VMM_PTE_ADDR_MASK, e AND NOT VMM_PTE_ADDR_MASK) else None)"
  unfolding translation_leaf leaf_snoc page_entry_def by simp

lemma map_leaf_spec:
  assumes vm: "vm_ok sp M" and va: "vmm_page va"
    and d: "descended sp M [idx_pml4 va, idx_pdpt va, idx_pd va] sp' M' t"
  shows "\<exists>sp'' N. map_leaf sp' M' (win t) va pa fl =
      (map_result win M (root_paddr sp) (card (avail (ctx sp))) va, Some sp'', N) \<and>
    vm_ok sp'' N \<and> root_paddr sp'' = root_paddr sp \<and>
    (if map_result win M (root_paddr sp) (card (avail (ctx sp))) va = VMM_MAP_OK
     then page_covered win N (root_paddr sp) = page_covered win M (root_paddr sp) \<and>
       (\<forall>v. vmm_page v \<longrightarrow> translation win N (root_paddr sp) v =
          (if v = va then Some (pa AND VMM_PTE_ADDR_MASK, VMM_PTE_PRESENT OR (fl AND vmm_allowed))
           else translation win M (root_paddr sp) v))
     else same_pages win (root_paddr sp) M N)"
proof -
  let ?root = "root_paddr sp"
  let ?e = "(pa AND VMM_PTE_ADDR_MASK) OR VMM_PTE_PRESENT OR (fl AND vmm_allowed)"
  have d': "vm_ok sp' M'" "root_paddr sp' = ?root" "same_pages win ?root M M'"
    "tbl win M' ?root [idx_pml4 va, idx_pdpt va, idx_pd va] = Some t"
    and free: "missing_tables win M ?root [idx_pml4 va, idx_pdpt va, idx_pd va] \<le> card (avail (ctx sp))"
    using d by (simp_all add: descended_def)
  have "covered win M' ?root [idx_pml4 va, idx_pdpt va, idx_pd va] \<Longrightarrow> False"
    using covered_no_tbl d'(4) by fastforce
  then have nc: "\<not> page_covered win M ?root va"
    using d'(3) by (auto simp: same_pages_def fun_eq_iff page_covered_def)
  have tr: "translation win M ?root = translation win M' ?root"
    and cov: "page_covered win M ?root = page_covered win M' ?root"
    using d'(3) by (simp_all add: same_pages_def)
  have pres: "present (load M' (win t) (ucast (idx_pt va))) \<longleftrightarrow> translation win M ?root va \<noteq> None"
    unfolding tr translation_table [OF d'(4)] by (simp add: Let_def)
  then have rc: "map_result win M ?root (card (avail (ctx sp))) va =
      (if present (load M' (win t) (ucast (idx_pt va))) then VMM_ERR_EXISTS else VMM_MAP_OK)"
    using nc free by (simp add: map_result_def)
  note st = store_leaf [OF d'(1) d'(4) [folded d'(2)] va, of ?e, unfolded d'(2)]
  show ?thesis
    using st rc d' leaf_entry [of pa fl] codes_ne unfolding map_leaf_def cov tr by auto
qed

lemma walk_down_cases:
  assumes "descended sp M p sp' M' t" and "p @ is = [idx_pml4 va, idx_pdpt va, idx_pd va]"
    and "walk_down sp' M' (win t) is = (rc, sp'', N, out)"
  obtains (ok) t' where "rc = VMM_MAP_OK" "out = win t'" "descended sp M (p @ is) sp'' N t'"
  | (stopped) "vm_ok sp'' N" "root_paddr sp'' = root_paddr sp" "same_pages win (root_paddr sp) M N"
      "rc = VMM_ERR_EXISTS \<and> page_covered win M (root_paddr sp) va \<or>
       rc = VMM_ERR_NOMEM \<and> \<not> page_covered win M (root_paddr sp) va \<and>
         card (avail (ctx sp)) < missing_tables win M (root_paddr sp) [idx_pml4 va, idx_pdpt va, idx_pd va]"
  using assms
proof (induction "is" arbitrary: p sp' M' t thesis)
  case Nil
  show ?case by (rule Nil.prems(1) [of t]) (use Nil.prems(3-5) in simp_all)
next
  case (Cons i "is")
  obtain rc1 sp1 M1 t1 where r: "get_or_alloc_next_table sp' M' (win t) i = (rc1, sp1, M1, t1)" by (metis prod_cases4)
  have va: "p @ [i] @ is = [idx_pml4 va, idx_pdpt va, idx_pd va]" using Cons.prems(4) by simp
  note walk = Cons.prems(5) [simplified r walk_down.simps]
  show ?case
  proof (cases rule: descend [OF Cons.prems(3) va r])
    case (1 u)
    have more: "(p @ [i]) @ is = [idx_pml4 va, idx_pdpt va, idx_pd va]"
        "walk_down sp1 M1 (win u) is = (rc, sp'', N, out)" using va walk 1 by simp_all
    show ?thesis
      by (rule Cons.IH [OF _ _ 1(3) more]) (use Cons.prems(1,2) in simp_all)
  next
    case 2
    then show ?thesis using Cons.prems(2,3) walk codes_ne by (simp add: descended_def)
  next
    case 3
    then show ?thesis using Cons.prems(2,3) walk codes_ne by (simp add: descended_def)
  qed
qed

lemma map_page_spec:
  assumes vm: "vm_ok sp M" and va: "vmm_page va" and pa: "vmm_is_aligned_4k pa"
  shows "\<exists>sp' N. vmm_map_page (Some sp) M va pa fl =
      (map_result win M (root_paddr sp) (card (avail (ctx sp))) va, Some sp', N) \<and>
    vm_ok sp' N \<and> root_paddr sp' = root_paddr sp \<and>
    (if map_result win M (root_paddr sp) (card (avail (ctx sp))) va = VMM_MAP_OK
     then page_covered win N (root_paddr sp) = page_covered win M (root_paddr sp) \<and>
       (\<forall>v. vmm_page v \<longrightarrow> translation win N (root_paddr sp) v =
          (if v = va then Some (pa AND VMM_PTE_ADDR_MASK, VMM_PTE_PRESENT OR (fl AND vmm_allowed))
           else translation win M (root_paddr sp) v))
     else same_pages win (root_paddr sp) M N)"
    (is "\<exists>sp' N. _ = (?rc, Some sp', N) \<and> ?post sp' N")
proof -
  have root: "table_from_phys sp (root_paddr sp) = win (root_paddr sp)" "win (root_paddr sp) \<noteq> 0"
    using vm_table [OF vm, of "[]"] by (simp_all add: tpath_def)
  have d0: "descended sp M [] sp M (root_paddr sp)"
    using vm by (simp add: descended_def missing_tables_def)
  obtain rc sp' N out where w: "walk_down sp M (win (root_paddr sp)) [idx_pml4 va, idx_pdpt va, idx_pd va] = (rc, sp', N, out)"
    by (metis prod_cases4)
  note map = map_page_walk [OF va pa root, of M fl, unfolded w Let_def prod.case]
  show ?thesis
  proof (cases rule: walk_down_cases [OF d0 append_Nil w])
    case (1 t)
    then show ?thesis using map_leaf_spec [OF vm va, of sp' N t pa fl] by (simp add: map)
  next
    case 2
    then show ?thesis using codes_ne by (auto simp: map map_result_def)
  qed
qed

end

context page_memory
begin

lemma translation_no_table:
  "tbl win M root [idx_pml4 va, idx_pdpt va, idx_pd va] = None \<Longrightarrow> translation win M root va = None"
  unfolding translation_leaf leaf_snoc by (simp del: tbl.simps)

lemma query_page_spec:
  assumes vm: "vm_ok sp M" and va: "vmm_page va"
  shows "vmm_query_page (Some sp) M va (Some out) =
    (case translation win M (root_paddr sp) va of
       None \<Rightarrow> (VMM_ERR_NOT_FOUND, Some out)
     | Some (pa, fl) \<Rightarrow> (VMM_MAP_OK, Some \<lparr>map_vaddr = va, map_paddr = pa, map_flags = fl\<rparr>))"
  using va
  by (cases "tbl win M (root_paddr sp) [idx_pml4 va, idx_pdpt va, idx_pd va]")
     (auto simp: vmm_query_page_def vmm_page_def page_table_walk [OF vm] translation_no_table
        translation_table Let_def simp del: tbl.simps)

lemma invalidate_view:
  "vmm_wf inv avail win ram sp (vmm_invalidate_page M va) \<longleftrightarrow> vmm_wf inv avail win ram sp M"
  "translation win (vmm_invalidate_page M va) = translation win M"
  "page_covered win (vmm_invalidate_page M va) = page_covered win M"
proof -
  have e: "page_entry win (vmm_invalidate_page M va) = page_entry win M"
    by (rule page_entry_cong) (simp add: vmm_invalidate_page_def)
  have t: "tbl win (vmm_invalidate_page M va) r p = tbl win M r p" for r p
    by (induction p arbitrary: r) (simp_all add: e Let_def)
  have "covered win (vmm_invalidate_page M va) r p = covered win M r p" for r p
    by (induction p arbitrary: r) (simp_all add: e Let_def)
  then show "page_covered win (vmm_invalidate_page M va) = page_covered win M"
    by (simp add: page_covered_def fun_eq_iff del: covered.simps)
  show "vmm_wf inv avail win ram sp (vmm_invalidate_page M va) \<longleftrightarrow> vmm_wf inv avail win ram sp M"
    by (simp add: vmm_wf_def vmm_tree_def t)
  show "translation win (vmm_invalidate_page M va) = translation win M"
    unfolding translation_leaf leaf_snoc fun_eq_iff t e by blast
qed

lemma unmap_page_spec:
  assumes vm: "vm_ok sp M" and va: "vmm_page va"
  shows "\<exists>N. vmm_unmap_page (Some sp) M va =
      (if translation win M (root_paddr sp) va = None then VMM_ERR_NOT_FOUND else VMM_MAP_OK, N) \<and>
    vm_ok sp N \<and> page_covered win N (root_paddr sp) = page_covered win M (root_paddr sp) \<and>
    (\<forall>v. vmm_page v \<longrightarrow> translation win N (root_paddr sp) v =
       (if v = va then None else translation win M (root_paddr sp) v)) \<and>
    invlpg_log N = invlpg_log M @ (if translation win M (root_paddr sp) va = None then [] else [va])"
proof (cases "translation win M (root_paddr sp) va")
  case None
  have "vmm_unmap_page (Some sp) M va = (VMM_ERR_NOT_FOUND, M)"
  proof (cases "tbl win M (root_paddr sp) [idx_pml4 va, idx_pdpt va, idx_pd va]")
    case (Some t)
    then show ?thesis
      using None va translation_table [OF Some]
      by (auto simp: vmm_unmap_page_def vmm_page_def page_table_walk [OF vm] Let_def simp del: tbl.simps
          split: if_splits)
  qed (use va in \<open>simp add: vmm_unmap_page_def vmm_page_def page_table_walk [OF vm] del: tbl.simps\<close>)
  then show ?thesis using vm None by auto
next
  case (Some x)
  then obtain t where t: "tbl win M (root_paddr sp) [idx_pml4 va, idx_pdpt va, idx_pd va] = Some t"
    using translation_no_table by fastforce
  then have p: "present (load M (win t) (ucast (idx_pt va)))"
    using Some translation_table [OF t] by (auto simp: Let_def split: if_splits)
  let ?N = "vmm_invalidate_page (store M (win t) (ucast (idx_pt va)) 0) va"
  have "vmm_unmap_page (Some sp) M va = (VMM_MAP_OK, ?N)"
    using va p by (simp add: vmm_unmap_page_def vmm_page_def page_table_walk [OF vm] t Let_def del: tbl.simps)
  moreover have "invlpg_log ?N = invlpg_log M @ [va]" by (simp add: vmm_invalidate_page_def)
  ultimately show ?thesis
    using store_leaf [OF vm t va, of 0] Some by (simp add: invalidate_view)
qed

end

end
