(* ===== verification/Address_Space.thy ===== *)
theory Address_Space
  imports Pmm Vmm
begin

text \<open>
  The virtual memory manager of \<open>src/src/vmm.c\<close> on top of the physical memory manager of
  \<open>src/src/pmm.c\<close>: its frame callbacks are \<open>pmm_alloc_frame\<close> and \<open>pmm_free_frame\<close>, and
  \<open>phys_to_virt\<close> stays a parameter, a direct map of the frames below a limit. The sublocale
  discharges the laws of \<open>page_memory\<close> for the memory manager, and the address spaces that
  mapping, unmapping and other users of the allocator can reach are the states of
  \<open>space_reachable\<close>. The callback of \<open>src/tests/test_vmm_host.c\<close> is such a direct map.
\<close>

subsection \<open>The memory manager as the allocator of page tables\<close>

definition frames_below :: "u64 \<Rightarrow> u64 set" where
  "frames_below limit = {p. vmm_is_aligned_4k p \<and> p < limit}"

definition pmm_below :: "u64 \<Rightarrow> pmm_state option \<Rightarrow> bool" where
  "pmm_below limit c \<longleftrightarrow> pmm_inv c \<and> (case c of None \<Rightarrow> False | Some p \<Rightarrow> max_phys p \<le> limit)"

lemma pmm_avail_below:
  assumes "pmm_below limit c"
  shows "pmm_avail c \<subseteq> frames_below limit"
proof
  fix a assume a: "a \<in> pmm_avail c"
  obtain p where p: "c = Some p" "pmm_wf p" "max_phys p \<le> limit"
    using assms by (auto simp: pmm_below_def pmm_inv_def split: option.splits)
  then have "unat a mod 4096 = 0" "unat a div 4096 < unat (frame_count p)"
    using a by (simp_all add: pmm_avail_iff free_set_def)
  then have "unat a < unat (max_phys p)"
    using pmm_wfD(1) [OF p(2)] by (simp add: div_less_iff_less_mult)
  then show "a \<in> frames_below limit"
    using p(3) \<open>unat a mod 4096 = 0\<close>
    by (simp add: frames_below_def aligned_iff word_less_nat_alt word_le_nat_alt)
qed

lemma pmm_alloc_below:
  assumes "pmm_below limit c" and "pmm_avail c \<noteq> {}" and "pmm_alloc_frame c = (a, c')"
  shows "pmm_below limit c'"
proof -
  obtain p where p: "c = Some p" "pmm_wf p" "initialized p" "max_phys p \<le> limit"
    using assms(1) by (auto simp: pmm_below_def pmm_inv_def split: option.splits)
  have "free_set p \<noteq> {}" using assms(2) p by (simp add: pmm_avail_def)
  from pmm_alloc_update [OF p(2,3) this] assms(3) p show ?thesis
    by (auto simp: pmm_below_def pmm_inv_def pmm_update_def)
qed

lemma pmm_free_below:
  assumes "pmm_below limit c" and "pmm_free_frame c a = (True, c')"
  shows "pmm_below limit c'"
proof -
  obtain p where p: "c = Some p" "pmm_wf p" "initialized p" "max_phys p \<le> limit"
    using assms(1) by (auto simp: pmm_below_def pmm_inv_def split: option.splits)
  from pmm_free_update [OF p(2,3) assms(2) [unfolded p(1)]]
  obtain q where "c' = Some q" "pmm_update p q (used_set p - {unat a div 4096})" by blast
  then show ?thesis using p by (simp add: pmm_below_def pmm_inv_def pmm_update_def)
qed

lemma pmm_invalid: "VMM_INVALID_PHYS = PMM_INVALID_FRAME"
  by (simp add: VMM_INVALID_PHYS_def PMM_INVALID_FRAME_def)

locale pmm_window =
  direct_map to_virt win "frames_below limit"
  for to_virt :: "pmm_state option \<Rightarrow> u64 \<Rightarrow> u64" and win and limit

sublocale pmm_window \<subseteq> page_memory pmm_alloc_frame pmm_free_frame "pmm_below limit" pmm_avail
  to_virt win "frames_below limit"
proof
  fix c a c'
  assume c: "pmm_below limit c"
  then have inv: "pmm_inv c" by (simp add: pmm_below_def)
  show "pmm_avail c \<subseteq> frames_below limit" by (rule pmm_avail_below [OF c])
  show "finite (pmm_avail c)" by (rule pmm.avail_finite [OF inv])
  show "pmm_alloc_frame c = (VMM_INVALID_PHYS, c)" if "pmm_avail c = {}"
    unfolding pmm_invalid by (rule pmm.alloc_none [OF inv that])
  show "a \<in> pmm_avail c \<and> pmm_avail c' = pmm_avail c - {a} \<and> pmm_below limit c'"
    if "pmm_avail c \<noteq> {}" "pmm_alloc_frame c = (a, c')"
    using pmm.alloc_some [OF inv that] pmm_alloc_below [OF c that] by blast
  show "a \<noteq> VMM_INVALID_PHYS \<and> unat a mod 4096 = 0" if "a \<in> pmm_avail c"
    unfolding pmm_invalid by (rule pmm.avail_valid [OF inv that])
  show "pmm_free_frame c a = (False, c)" if "a \<in> pmm_avail c" by (rule pmm.release_avail [OF inv that])
  show "pmm_avail c' = insert a (pmm_avail c) \<and> pmm_below limit c'" if "pmm_free_frame c a = (True, c')"
    using pmm.release_some [OF inv that] pmm_free_below [OF c that] by blast
  show "c' = c" if "pmm_free_frame c a = (False, c')" by (rule pmm.release_refused [OF inv that])
qed

lemma addr_mask_id:
  assumes "vmm_is_aligned_4k p" and "unat p < 2 ^ 52"
  shows "p AND VMM_PTE_ADDR_MASK = p"
proof -
  have "unat (p AND mask 52) = unat p" "unat (p AND NOT 4095) = unat p"
    using assms by (simp_all only: unat_and_mask mask_simps aligned_iff) simp_all
  then have "p AND mask 52 = p" "p AND NOT 4095 = p" by (auto intro: unsigned_word_eqI)
  moreover have "VMM_PTE_ADDR_MASK = mask 52 AND NOT 4095"
    by (simp add: VMM_PTE_ADDR_MASK_def mask_eq_exp_minus_1)
  ultimately show ?thesis by (metis and.assoc)
qed

subsection \<open>Reachable address spaces\<close>

text \<open>
  An address space starts with a frame of the allocator as its zeroed root table. Any call of
  map and unmap may follow, with any arguments, and other users of the allocator may take
  frames and give back frames that are not tables of the space.
\<close>

definition pmm_release :: "pmm_state option \<Rightarrow> u64 \<Rightarrow> pmm_state option" where
  "pmm_release c p = snd (pmm_free_frame c p)"

inductive space_reachable ::
  "(pmm_state option \<Rightarrow> u64 \<Rightarrow> u64) \<Rightarrow> (u64 \<Rightarrow> u64) \<Rightarrow> u64 \<Rightarrow> pmm_state option vmm_space \<Rightarrow> machine \<Rightarrow> bool"
  for to_virt win limit where
  init: "pmm_below limit c \<Longrightarrow> pmm_avail c \<noteq> {} \<Longrightarrow> pmm_alloc_frame c = (root, c') \<Longrightarrow>
    vmm_space_init (Some old) root c' (Some pmm_alloc_frame) (Some pmm_release) (Some to_virt) =
      (VMM_MAP_OK, Some sp) \<Longrightarrow>
    space_reachable to_virt win limit sp (vmm_zero_page M (win root))"
| mapped: "space_reachable to_virt win limit sp M \<Longrightarrow>
    vmm_map_page (Some sp) M va pa fl = (rc, Some sp', N) \<Longrightarrow> space_reachable to_virt win limit sp' N"
| unmapped: "space_reachable to_virt win limit sp M \<Longrightarrow> vmm_unmap_page (Some sp) M va = (rc, N) \<Longrightarrow>
    space_reachable to_virt win limit sp N"
| taken: "space_reachable to_virt win limit sp M \<Longrightarrow> pmm_alloc_frame (ctx sp) = (a, c) \<Longrightarrow>
    space_reachable to_virt win limit (sp\<lparr>ctx := c\<rparr>) M"
| returned: "space_reachable to_virt win limit sp M \<Longrightarrow>
    \<forall>p. tpath p \<longrightarrow> tbl win M (root_paddr sp) p \<noteq> Some a \<Longrightarrow> pmm_free_frame (ctx sp) a = (ok, c) \<Longrightarrow>
    space_reachable to_virt win limit (sp\<lparr>ctx := c\<rparr>) M"

definition space_inv ::
  "(pmm_state option \<Rightarrow> u64 \<Rightarrow> u64) \<Rightarrow> (u64 \<Rightarrow> u64) \<Rightarrow> u64 \<Rightarrow> pmm_state option vmm_space \<Rightarrow> machine \<Rightarrow> bool" where
  "space_inv to_virt win limit sp M \<longleftrightarrow>
     vmm_wf (pmm_below limit) pmm_avail win (frames_below limit) sp M \<and>
     vmm_callbacks pmm_alloc_frame pmm_free_frame to_virt sp"

lemma vmm_map_page_invalid:
  "\<not> (vmm_page va \<and> vmm_is_aligned_4k pa) \<Longrightarrow> vmm_map_page (Some sp) M va pa fl = (VMM_ERR_INVAL, Some sp, M)"
  by (auto simp: vmm_map_page_def vmm_page_def)

lemma vmm_unmap_page_invalid: "\<not> vmm_page va \<Longrightarrow> vmm_unmap_page (Some sp) M va = (VMM_ERR_INVAL, M)"
  by (auto simp: vmm_unmap_page_def vmm_page_def)

lemma tree_mono: "vmm_tree w F M root \<Longrightarrow> F \<subseteq> G \<Longrightarrow> vmm_tree w G M root"
  unfolding vmm_tree_def by blast

lemma zero_tree:
  assumes "root \<in> F" and "\<And>i. i < 512 \<Longrightarrow> page_entry w M root i = 0"
  shows "vmm_tree w F M root"
proof -
  have "p = [] \<and> t = root" if "tpath p" "tbl w M root p = Some t" for p t
    using that assms(2) by (cases p) (auto simp: tpath_def)
  then show ?thesis using assms(1) unfolding vmm_tree_def by metis
qed

context pmm_window
begin

lemma reachable_inv:
  assumes "space_reachable to_virt win limit sp M"
  shows "space_inv to_virt win limit sp M"
  using assms
proof induction
  case (init c root c' old sp M)
  have a: "root \<in> pmm_avail c" "pmm_avail c' = pmm_avail c - {root}" "pmm_below limit c'"
    using alloc_some [OF init(1-3)] by auto
  then have r: "root \<in> frames_below limit" using avail_ram [OF init(1)] by blast
  have sp: "sp = \<lparr>root_paddr = root, ctx = c', alloc_frame = Some pmm_alloc_frame,
      free_frame = Some pmm_release, phys_to_virt = Some to_virt\<rparr>"
    using init(4) by (auto simp: vmm_space_init_def vmm_codes split: if_splits)
  have "vmm_tree win (frames_below limit - pmm_avail c') (vmm_zero_page M (win root)) root"
    by (rule zero_tree) (use r a in \<open>auto simp: page_entry_zero\<close>)
  then show ?case using a
    by (simp add: sp space_inv_def vmm_wf_def vmm_callbacks_def pmm_release_def fun_eq_iff)
next
  case (mapped sp M va pa fl rc sp' N)
  show ?case
  proof (cases "vmm_page va \<and> vmm_is_aligned_4k pa")
    case True
    then show ?thesis
      using map_page_spec [of sp M va pa fl] mapped by (auto simp: space_inv_def)
  qed (use mapped vmm_map_page_invalid [of va pa sp M fl] in auto)
next
  case (unmapped sp M va rc N)
  show ?case
  proof (cases "vmm_page va")
    case True
    then show ?thesis
      using unmap_page_spec [of sp M va] unmapped by (auto simp: space_inv_def)
  qed (use unmapped vmm_unmap_page_invalid [of va sp M] in auto)
next
  case (taken sp M a c)
  then have wf: "pmm_below limit (ctx sp)" by (simp add: space_inv_def vmm_wf_def)
  have "pmm_below limit c \<and> pmm_avail c \<subseteq> pmm_avail (ctx sp)"
    using alloc_none [OF wf] alloc_some [OF wf _ taken(2)] taken(2) wf by (cases "pmm_avail (ctx sp) = {}") auto
  moreover have "vmm_tree win (frames_below limit - pmm_avail (ctx sp)) M (root_paddr sp)"
    using taken(3) by (simp add: space_inv_def vmm_wf_def)
  ultimately have "vmm_tree win (frames_below limit - pmm_avail c) M (root_paddr sp)" "pmm_below limit c"
    by (auto elim: tree_mono)
  then show ?case using taken(3) by (simp add: space_inv_def vmm_wf_def vmm_callbacks_def)
next
  case (returned sp M a ok c)
  then have wf: "pmm_below limit (ctx sp)"
    and tree: "vmm_tree win (frames_below limit - pmm_avail (ctx sp)) M (root_paddr sp)"
    by (simp_all add: space_inv_def vmm_wf_def)
  have "pmm_below limit c \<and> pmm_avail c \<subseteq> insert a (pmm_avail (ctx sp))"
    using release_refused [OF wf, of a c] release_some [OF wf, of a c] returned(3) wf by (cases ok) auto
  moreover have "vmm_tree win (frames_below limit - insert a (pmm_avail (ctx sp))) M (root_paddr sp)"
    using tree returned(2) unfolding vmm_tree_def by blast
  ultimately have "vmm_tree win (frames_below limit - pmm_avail c) M (root_paddr sp)" "pmm_below limit c"
    by (auto elim: tree_mono)
  then show ?case using returned(4) by (simp add: space_inv_def vmm_wf_def vmm_callbacks_def)
qed

lemma window_ok: "space_reachable to_virt win limit sp M \<Longrightarrow> vm_ok sp M"
  using reachable_inv by (simp add: space_inv_def)

lemmas map_reachable = map_page_spec [OF window_ok]
lemmas query_reachable = query_page_spec [OF window_ok]
lemmas unmap_reachable = unmap_page_spec [OF window_ok]

end

subsection \<open>The callback of the host test\<close>

text \<open>An array of 64 frames at address \<open>0x100000\<close>.\<close>

definition host_phys_to_virt :: "pmm_state option \<Rightarrow> u64 \<Rightarrow> u64" where
  "host_phys_to_virt c paddr =
     (if \<not> vmm_is_aligned_4k paddr then 0
      else let frame = paddr div VMM_PAGE_SIZE in
        if frame \<ge> 64 then 0 else 0x100000 + frame * VMM_PAGE_SIZE)"

lemma host_frame:
  assumes "p \<in> frames_below 0x40000"
  shows "host_phys_to_virt c p = 0x100000 + p" and "unat p < 0x40000" and "unat p mod 4096 = 0"
proof -
  show b: "unat p < 0x40000" and m: "unat p mod 4096 = 0"
    using assms by (simp_all add: frames_below_def aligned_iff word_less_nat_alt)
  have d: "unat (p div 4096) = unat p div 4096" by (simp add: unat_div)
  have "p div 4096 * 4096 = p"
  proof (rule unsigned_word_eqI)
    show "unat (p div 4096 * 4096) = unat p"
      using b m by (simp add: unat_word_ariths d mod_eq_0_iff_dvd)
  qed
  moreover have "\<not> p div 4096 \<ge> 64" using b by (simp add: word_le_nat_alt d div_less_iff_less_mult not_le)
  ultimately show "host_phys_to_virt c p = 0x100000 + p"
    using assms by (simp add: host_phys_to_virt_def frames_below_def VMM_PAGE_SIZE_def)
qed

lemma host_slot:
  assumes "p \<in> frames_below 0x40000" and "i < 512"
  shows "unat (slot (host_phys_to_virt c p) i) = 0x100000 + unat p + 8 * unat i"
  using host_frame [OF assms(1)] assms(2)
  by (simp add: slot_def unat_word_ariths word_less_nat_alt)

interpretation host: pmm_window host_phys_to_virt "host_phys_to_virt None" "0x40000"
proof
  fix p q i j :: u64
  assume p: "p \<in> frames_below 0x40000"
  show "host_phys_to_virt c p = host_phys_to_virt None p" for c using host_frame(1) [OF p] by simp
  show "host_phys_to_virt None p \<noteq> 0"
    using host_slot [OF p, of 0 None] by (auto simp: slot_def)
  show "p AND VMM_PTE_ADDR_MASK = p"
    by (rule addr_mask_id) (use host_frame(2,3) [OF p] in \<open>simp_all add: aligned_iff\<close>)
  assume q: "q \<in> frames_below 0x40000" and ij: "i < 512" "j < 512"
    and eq: "slot (host_phys_to_virt None p) i = slot (host_phys_to_virt None q) j"
  have "unat p + 8 * unat i = unat q + 8 * unat j"
    using host_slot [OF p ij(1), of None] host_slot [OF q ij(2), of None] eq by simp
  moreover have "unat i < 512" "unat j < 512" using ij by (simp_all add: word_less_nat_alt)
  moreover obtain a b where "unat p = 4096 * a" "unat q = 4096 * b"
    using host_frame(3) [OF p] host_frame(3) [OF q] by (metis dvdE mod_eq_0_iff_dvd)
  ultimately have "unat p = unat q" by (cases a b rule: linorder_cases) linarith+
  then show "p = q \<and> i = j" using \<open>unat p + 8 * unat i = unat q + 8 * unat j\<close>
    by (simp add: word_unat_eq_iff)
qed

subsection \<open>Properties\<close>

text \<open>C7: In every reachable address space the page tables form a tree: each table is an
  aligned frame below the limit, is reached by one path only, and is not a frame the physical
  memory manager would hand out again.\<close>

theorem vmm_tables_isolated:
  assumes "pmm_window to_virt win limit" and "space_reachable to_virt win limit sp M"
    and "tpath p" and "tbl win M (root_paddr sp) p = Some t"
  shows "vmm_is_aligned_4k t \<and> t < limit \<and> t \<notin> pmm_avail (ctx sp) \<and>
    (\<forall>q. tpath q \<and> tbl win M (root_paddr sp) q = Some t \<longrightarrow> q = p)"
proof -
  have "vmm_tree win (frames_below limit - pmm_avail (ctx sp)) M (root_paddr sp)"
    using pmm_window.reachable_inv [OF assms(1,2)] by (simp add: space_inv_def vmm_wf_def)
  from tree_frame [OF this assms(3,4)] tree_inj [OF this assms(3)] assms(4)
  show ?thesis by (auto simp: frames_below_def)
qed

text \<open>C5: On every address space the calls can reach with page tables from the physical
  memory manager and any direct map of its frames, vmm_map_page updates the abstract map from
  pages to frames: it returns INVAL for a non-canonical or unaligned address, EXISTS for a page
  that is mapped or lies under a huge entry, NOMEM exactly when the free frames are fewer than
  the tables the page still needs, and OK otherwise; after OK that page translates to the
  frame, cut to 52 bits, with the present bit and the allowed flags, and in every case all
  other pages translate as before.\<close>

theorem vmm_map_page_refines:
  fixes va pa fl :: u64
  assumes win: "pmm_window to_virt win limit" and sp: "space_reachable to_virt win limit sp M"
  defines "T \<equiv> translation win M (root_paddr sp)"
  defines "rc \<equiv> if vmm_page va \<and> vmm_is_aligned_4k pa
                then map_result win M (root_paddr sp) (card (pmm_avail (ctx sp))) va else VMM_ERR_INVAL"
  shows "\<exists>sp' N. vmm_map_page (Some sp) M va pa fl = (rc, Some sp', N) \<and>
    root_paddr sp' = root_paddr sp \<and>
    (\<forall>v. vmm_page v \<longrightarrow> translation win N (root_paddr sp) v =
       (if rc = VMM_MAP_OK \<and> v = va
        then Some (pa AND VMM_PTE_ADDR_MASK, VMM_PTE_PRESENT OR (fl AND vmm_allowed)) else T v))"
proof (cases "vmm_page va \<and> vmm_is_aligned_4k pa")
  case True
  from pmm_window.map_reachable [OF win sp, of va pa fl] True
  show ?thesis by (auto simp: rc_def T_def same_pages_def split: if_splits)
next
  case False
  then show ?thesis
    using vmm_map_page_invalid [of va pa sp M fl] by (auto simp: rc_def T_def vmm_codes)
qed

text \<open>C6: On every reachable address space vmm_query_page returns exactly the abstract
  translation of a page or NOT_FOUND with the output untouched, and vmm_unmap_page removes
  exactly that page from the translation and invalidates it in the TLB, or reports NOT_FOUND
  and does neither.\<close>

theorem vmm_query_unmap_refines:
  assumes win: "pmm_window to_virt win limit" and sp: "space_reachable to_virt win limit sp M"
    and va: "vmm_page va"
  defines "T \<equiv> translation win M (root_paddr sp)"
  shows "vmm_query_page (Some sp) M va (Some out) =
      (case T va of None \<Rightarrow> (VMM_ERR_NOT_FOUND, Some out)
       | Some (pa, fl) \<Rightarrow> (VMM_MAP_OK, Some \<lparr>map_vaddr = va, map_paddr = pa, map_flags = fl\<rparr>)) \<and>
    (\<exists>N. vmm_unmap_page (Some sp) M va = (if T va = None then VMM_ERR_NOT_FOUND else VMM_MAP_OK, N) \<and>
       (\<forall>v. vmm_page v \<longrightarrow> translation win N (root_paddr sp) v = (if v = va then None else T v)) \<and>
       invlpg_log N = invlpg_log M @ (if T va = None then [] else [va]))"
  using pmm_window.query_reachable [OF win sp va, of out] pmm_window.unmap_reachable [OF win sp va]
  unfolding T_def by blast

subsection \<open>Witnesses\<close>

definition sample_machine :: machine where
  "sample_machine = \<lparr>mem = (\<lambda>_. 0xA5A5), cr2 = 0, cr3 = 0, invlpg_log = []\<rparr>"

definition sample_space :: "pmm_state option vmm_space" where
  "sample_space = \<lparr>root_paddr = fst (pmm_alloc_frame (Some sample_pmm)),
     ctx = snd (pmm_alloc_frame (Some sample_pmm)), alloc_frame = Some pmm_alloc_frame,
     free_frame = Some pmm_release, phys_to_virt = Some host_phys_to_virt\<rparr>"

abbreviation sample_root :: machine where
  "sample_root \<equiv> vmm_zero_page sample_machine (host_phys_to_virt None 0x1000)"

lemma sample_pmm_alloc:
  "fst (pmm_alloc_frame (Some sample_pmm)) = 0x1000"
  "card (pmm_avail (snd (pmm_alloc_frame (Some sample_pmm)))) = 5"
proof -
  show a: "fst (pmm_alloc_frame (Some sample_pmm)) = 0x1000" by code_simp
  have inv: "pmm_inv (Some sample_pmm)" using sample_pmm_wf by (simp add: pmm_inv_def)
  have av: "pmm_avail (Some sample_pmm) = {0x1000, 0x2000, 0x5000, 0x6000, 0x7000, 0x8000}"
    by (simp add: pmm_avail_def sample_pmm_sets PMM_PAGE_SIZE_def)
  from pmm.alloc_some [OF inv, of "0x1000" "snd (pmm_alloc_frame (Some sample_pmm))"] a av
  have "pmm_avail (snd (pmm_alloc_frame (Some sample_pmm))) =
      {0x1000, 0x2000, 0x5000, 0x6000, 0x7000, 0x8000} - {0x1000}" by (simp add: prod_eq_iff)
  then show "card (pmm_avail (snd (pmm_alloc_frame (Some sample_pmm)))) = 5" by simp
qed

lemma map_result_zero_root:
  assumes "\<And>i. i < 512 \<Longrightarrow> page_entry w M root i = 0"
  shows "map_result w M root n va = (if n < 3 then VMM_ERR_NOMEM else VMM_MAP_OK)"
proof -
  have t: "tbl w M root (idx_pml4 va # p) = None" "\<not> covered w M root (idx_pml4 va # p)" for p
    using assms [OF idx_less(1)] by simp_all
  have "missing_tables w M root [idx_pml4 va, idx_pdpt va, idx_pd va] = 3"
    using t(1) by (simp add: missing_tables_def upt_rec del: tbl.simps)
  then show ?thesis using t unfolding map_result_def page_covered_def translation_leaf leaf_snoc
    by (simp del: tbl.simps covered.simps)
qed

lemma sample_root_zero: "i < 512 \<Longrightarrow> page_entry (host_phys_to_virt None) sample_root 0x1000 i = 0"
  by (subst host.page_entry_zero) (simp_all add: frames_below_def vmm_is_aligned_4k_def VMM_PAGE_SIZE_def)

lemma sample_space_reachable:
  "space_reachable host_phys_to_virt (host_phys_to_virt None) 0x40000 sample_space sample_root"
proof -
  have b: "pmm_below 0x40000 (Some sample_pmm)" "pmm_avail (Some sample_pmm) \<noteq> {}"
    using sample_pmm_wf by (simp_all add: pmm_below_def pmm_inv_def pmm_avail_def sample_pmm_sets)
       (simp add: sample_pmm_def)
  show ?thesis
    using space_reachable.init [OF b, of "0x1000" "snd (pmm_alloc_frame (Some sample_pmm))" sample_space
        host_phys_to_virt sample_space "host_phys_to_virt None" sample_machine]
      sample_pmm_alloc(1)
    by (simp add: vmm_space_init_def sample_space_def vmm_is_aligned_4k_def VMM_PAGE_SIZE_def prod_eq_iff)
qed

theorem vmm_tables_isolated_witness:
  "(0x1000 :: u64) \<notin> pmm_avail (ctx sample_space)"
  using vmm_tables_isolated [OF host.pmm_window_axioms sample_space_reachable, of "[]" "0x1000"]
    sample_pmm_alloc(1) by (simp add: tpath_def sample_space_def)

theorem vmm_map_page_refines_witness:
  "\<exists>sp N. vmm_map_page (Some sample_space) sample_root 0x400000 0x7000 0xFFF = (VMM_MAP_OK, Some sp, N) \<and>
     translation (host_phys_to_virt None) N 0x1000 0x400000 = Some (0x7000, 0x11F)"
proof -
  have "map_result (host_phys_to_virt None) sample_root 0x1000 5 0x400000 = VMM_MAP_OK"
    using map_result_zero_root [OF sample_root_zero] by simp
  then show ?thesis
    using vmm_map_page_refines [OF host.pmm_window_axioms sample_space_reachable, of "0x400000" "0x7000" "0xFFF"]
      sample_pmm_alloc
    by (auto simp: sample_space_def vmm_page_def vmm_is_aligned_4k_def VMM_PAGE_SIZE_def
        vmm_is_canonical_def VMM_PTE_ADDR_MASK_def push_bit_ptes)
qed

lemma sample_mapped:
  "\<exists>sp N. space_reachable host_phys_to_virt (host_phys_to_virt None) 0x40000 sp N \<and> root_paddr sp = 0x1000 \<and>
     translation (host_phys_to_virt None) N 0x1000 0x400000 = Some (0x7000, 0x11F)"
proof -
  have page: "vmm_page 0x400000" "vmm_is_aligned_4k 0x7000"
    by (simp_all add: vmm_page_def vmm_is_aligned_4k_def VMM_PAGE_SIZE_def vmm_is_canonical_def)
  have rc: "map_result (host_phys_to_virt None) sample_root 0x1000 5 0x400000 = VMM_MAP_OK"
    using map_result_zero_root [OF sample_root_zero] by simp
  have sp: "root_paddr sample_space = 0x1000" "card (pmm_avail (ctx sample_space)) = 5"
    using sample_pmm_alloc by (simp_all add: sample_space_def)
  from host.map_reachable [OF sample_space_reachable page, of "0xFFF", unfolded sp rc]
  obtain sp N where m: "vmm_map_page (Some sample_space) sample_root 0x400000 0x7000 0xFFF = (VMM_MAP_OK, Some sp, N)"
    "root_paddr sp = 0x1000" "translation (host_phys_to_virt None) N 0x1000 0x400000 = Some (0x7000, 0x11F)"
    using page(1) by (auto simp: VMM_PTE_ADDR_MASK_def push_bit_ptes)
  then show ?thesis using space_reachable.mapped [OF sample_space_reachable m(1)] by blast
qed

theorem vmm_query_unmap_refines_witness:
  "\<exists>sp M N. vmm_query_page (Some sp) M 0x400000 (Some \<lparr>map_vaddr = 0, map_paddr = 0, map_flags = 0\<rparr>) =
      (VMM_MAP_OK, Some \<lparr>map_vaddr = 0x400000, map_paddr = 0x7000, map_flags = 0x11F\<rparr>) \<and>
     vmm_unmap_page (Some (sp :: pmm_state option vmm_space)) M 0x400000 = (VMM_MAP_OK, N) \<and>
     translation (host_phys_to_virt None) N 0x1000 0x400000 = None"
proof -
  obtain sp N where m: "space_reachable host_phys_to_virt (host_phys_to_virt None) 0x40000 sp N"
    "root_paddr sp = 0x1000" "translation (host_phys_to_virt None) N 0x1000 0x400000 = Some (0x7000, 0x11F)"
    using sample_mapped by blast
  have "vmm_page 0x400000"
    by (simp add: vmm_page_def vmm_is_aligned_4k_def VMM_PAGE_SIZE_def vmm_is_canonical_def)
  from vmm_query_unmap_refines [OF host.pmm_window_axioms m(1) this,
      of "\<lparr>map_vaddr = 0, map_paddr = 0, map_flags = 0\<rparr>", unfolded m(2,3)] this
  obtain K where "vmm_query_page (Some sp) N 0x400000 (Some \<lparr>map_vaddr = 0, map_paddr = 0, map_flags = 0\<rparr>) =
      (VMM_MAP_OK, Some \<lparr>map_vaddr = 0x400000, map_paddr = 0x7000, map_flags = 0x11F\<rparr>)"
    "vmm_unmap_page (Some sp) N 0x400000 = (VMM_MAP_OK, K)"
    "translation (host_phys_to_virt None) K 0x1000 0x400000 = None" by auto
  then show ?thesis by blast
qed

end
