(* ===== verification/Elf.thy ===== *)
theory Elf
  imports Kernel_Prelude
begin

text \<open>
  The ELF64 loader of user programs, \<open>mcsos/kernel/user/m11_elf_loader.c\<close> with its header: it
  checks an image and produces a plan of the segments to map. The image is a list of bytes; the
  C code reads its headers through structure pointers on a little-endian machine, which
  \<open>m11_ehdr\<close> and \<open>m11_phdr\<close> write out with the offsets of the structures. A return code is an
  \<open>int\<close> as in the header file; an output pointer is an \<open>option\<close>.
\<close>

subsection \<open>Constants and data\<close>

definition M11_EI_NIDENT :: nat where "M11_EI_NIDENT = 16"
definition M11_ELFMAG0 :: u8 where "M11_ELFMAG0 = 0x7f"
definition M11_ELFMAG1 :: u8 where "M11_ELFMAG1 = of_char CHR ''E''"
definition M11_ELFMAG2 :: u8 where "M11_ELFMAG2 = of_char CHR ''L''"
definition M11_ELFMAG3 :: u8 where "M11_ELFMAG3 = of_char CHR ''F''"
definition M11_ELFCLASS64 :: u8 where "M11_ELFCLASS64 = 2"
definition M11_ELFDATA2LSB :: u8 where "M11_ELFDATA2LSB = 1"
definition M11_EV_CURRENT :: u32 where "M11_EV_CURRENT = 1"
definition M11_ET_EXEC :: u16 where "M11_ET_EXEC = 2"
definition M11_ET_DYN :: u16 where "M11_ET_DYN = 3"
definition M11_EM_X86_64 :: u16 where "M11_EM_X86_64 = 62"

lemmas m11_ident [simp] =
  M11_EI_NIDENT_def M11_ELFMAG0_def M11_ELFMAG1_def M11_ELFMAG2_def M11_ELFMAG3_def M11_ELFCLASS64_def
  M11_ELFDATA2LSB_def M11_EV_CURRENT_def M11_ET_EXEC_def M11_ET_DYN_def M11_EM_X86_64_def

definition M11_PF_X :: u32 where "M11_PF_X = 1"
definition M11_PF_W :: u32 where "M11_PF_W = 2"
definition M11_PF_R :: u32 where "M11_PF_R = 4"
definition M11_PT_LOAD :: u32 where "M11_PT_LOAD = 1"
definition M11_MAX_LOAD_SEGMENTS :: nat where "M11_MAX_LOAD_SEGMENTS = 8"

definition M11_OK :: int where "M11_OK = 0"
definition M11_ERR_NULL :: int where "M11_ERR_NULL = -1"
definition M11_ERR_SIZE :: int where "M11_ERR_SIZE = -2"
definition M11_ERR_MAGIC :: int where "M11_ERR_MAGIC = -3"
definition M11_ERR_CLASS :: int where "M11_ERR_CLASS = -4"
definition M11_ERR_ENDIAN :: int where "M11_ERR_ENDIAN = -5"
definition M11_ERR_VERSION :: int where "M11_ERR_VERSION = -6"
definition M11_ERR_TYPE :: int where "M11_ERR_TYPE = -7"
definition M11_ERR_MACHINE :: int where "M11_ERR_MACHINE = -8"
definition M11_ERR_EHSIZE :: int where "M11_ERR_EHSIZE = -9"
definition M11_ERR_PHENTSIZE :: int where "M11_ERR_PHENTSIZE = -10"
definition M11_ERR_PHBOUNDS :: int where "M11_ERR_PHBOUNDS = -11"
definition M11_ERR_ALIGN :: int where "M11_ERR_ALIGN = -12"
definition M11_ERR_SEGBOUNDS :: int where "M11_ERR_SEGBOUNDS = -13"
definition M11_ERR_SEGRANGE :: int where "M11_ERR_SEGRANGE = -14"
definition M11_ERR_SEGCOUNT :: int where "M11_ERR_SEGCOUNT = -15"
definition M11_ERR_ENTRY :: int where "M11_ERR_ENTRY = -16"
definition M11_ERR_FLAGS :: int where "M11_ERR_FLAGS = -17"

lemmas m11_codes =
  M11_OK_def M11_ERR_NULL_def M11_ERR_SIZE_def M11_ERR_MAGIC_def M11_ERR_CLASS_def
  M11_ERR_ENDIAN_def M11_ERR_VERSION_def M11_ERR_TYPE_def M11_ERR_MACHINE_def M11_ERR_EHSIZE_def
  M11_ERR_PHENTSIZE_def M11_ERR_PHBOUNDS_def M11_ERR_ALIGN_def M11_ERR_SEGBOUNDS_def
  M11_ERR_SEGRANGE_def M11_ERR_SEGCOUNT_def M11_ERR_ENTRY_def M11_ERR_FLAGS_def

record m11_elf64_ehdr =
  e_ident :: "u8 list"
  e_type :: u16
  e_machine :: u16
  e_version :: u32
  e_entry :: u64
  e_phoff :: u64
  e_shoff :: u64
  e_flags :: u32
  e_ehsize :: u16
  e_phentsize :: u16
  e_phnum :: u16
  e_shentsize :: u16
  e_shnum :: u16
  e_shstrndx :: u16

record m11_elf64_phdr =
  p_type :: u32
  p_flags :: u32
  p_offset :: u64
  p_vaddr :: u64
  p_paddr :: u64
  p_filesz :: u64
  p_memsz :: u64
  p_align :: u64

record m11_user_region =
  region_base :: u64
  region_limit :: u64

record m11_segment_plan =
  seg_file_offset :: u64
  seg_vaddr :: u64
  seg_filesz :: u64
  seg_memsz :: u64
  seg_align :: u64
  seg_flags :: u32

record m11_process_image_plan =
  entry :: u64
  segment_count :: nat
  segments :: "m11_segment_plan list"

subsection \<open>Reading the headers\<close>

fun le_nat :: "u8 list \<Rightarrow> nat" where
  "le_nat [] = 0"
| "le_nat (b # bs) = unat b + 256 * le_nat bs"

definition load_le :: "u8 list \<Rightarrow> nat \<Rightarrow> nat \<Rightarrow> 'a::len word" where
  "load_le bs off n = of_nat (le_nat (take n (drop off bs)))"

definition m11_ehdr :: "u8 list \<Rightarrow> m11_elf64_ehdr" where
  "m11_ehdr bs =
     \<lparr>e_ident = take M11_EI_NIDENT bs, e_type = load_le bs 16 2, e_machine = load_le bs 18 2,
      e_version = load_le bs 20 4, e_entry = load_le bs 24 8, e_phoff = load_le bs 32 8,
      e_shoff = load_le bs 40 8, e_flags = load_le bs 48 4, e_ehsize = load_le bs 52 2,
      e_phentsize = load_le bs 54 2, e_phnum = load_le bs 56 2, e_shentsize = load_le bs 58 2,
      e_shnum = load_le bs 60 2, e_shstrndx = load_le bs 62 2\<rparr>"

definition m11_phdr :: "u8 list \<Rightarrow> nat \<Rightarrow> m11_elf64_phdr" where
  "m11_phdr bs k =
     \<lparr>p_type = load_le bs k 4, p_flags = load_le bs (k + 4) 4, p_offset = load_le bs (k + 8) 8,
      p_vaddr = load_le bs (k + 16) 8, p_paddr = load_le bs (k + 24) 8,
      p_filesz = load_le bs (k + 32) 8, p_memsz = load_le bs (k + 40) 8,
      p_align = load_le bs (k + 48) 8\<rparr>"

subsection \<open>Checks\<close>

text \<open>\<open>None\<close> for an overflow, otherwise the sum that the C code stores through \<open>out\<close>.\<close>

definition m11_add_overflow_u64 :: "u64 \<Rightarrow> u64 \<Rightarrow> u64 option" where
  "m11_add_overflow_u64 a b = (let r = a + b in if r < a then None else Some r)"

definition m11_is_power_of_two_u64 :: "u64 \<Rightarrow> bool" where
  "m11_is_power_of_two_u64 v \<longleftrightarrow> v \<noteq> 0 \<and> v AND (v - 1) = 0"

definition zero_segment :: m11_segment_plan where
  "zero_segment = \<lparr>seg_file_offset = 0, seg_vaddr = 0, seg_filesz = 0, seg_memsz = 0,
     seg_align = 0, seg_flags = 0\<rparr>"

definition m11_zero_plan :: "m11_process_image_plan \<Rightarrow> m11_process_image_plan" where
  "m11_zero_plan plan =
     plan\<lparr>entry := 0, segment_count := 0,
          segments := fold (\<lambda>i ss. ss[i := zero_segment]) [0..<M11_MAX_LOAD_SEGMENTS] (segments plan)\<rparr>"

definition m11_validate_user_range :: "m11_user_region \<Rightarrow> u64 \<Rightarrow> u64 \<Rightarrow> int" where
  "m11_validate_user_range region base sz =
     (if region_base region \<ge> region_limit region then M11_ERR_SEGRANGE
      else if sz = 0 then M11_ERR_SEGRANGE
      else case m11_add_overflow_u64 base sz of
        None \<Rightarrow> M11_ERR_SEGRANGE
      | Some stop \<Rightarrow>
          if base < region_base region \<or> stop > region_limit region \<or> stop \<le> base
          then M11_ERR_SEGRANGE
          else M11_OK)"

definition m11_validate_ident :: "m11_elf64_ehdr \<Rightarrow> int" where
  "m11_validate_ident eh =
     (if e_ident eh ! 0 \<noteq> M11_ELFMAG0 \<or> e_ident eh ! 1 \<noteq> M11_ELFMAG1 \<or> e_ident eh ! 2 \<noteq> M11_ELFMAG2 \<or>
         e_ident eh ! 3 \<noteq> M11_ELFMAG3
      then M11_ERR_MAGIC
      else if e_ident eh ! 4 \<noteq> M11_ELFCLASS64 then M11_ERR_CLASS
      else if e_ident eh ! 5 \<noteq> M11_ELFDATA2LSB then M11_ERR_ENDIAN
      else if e_ident eh ! 6 \<noteq> ucast M11_EV_CURRENT \<or> e_version eh \<noteq> M11_EV_CURRENT then M11_ERR_VERSION
      else M11_OK)"

definition m11_validate_phdr_bounds :: "m11_elf64_ehdr \<Rightarrow> u64 \<Rightarrow> int" where
  "m11_validate_phdr_bounds eh image_size =
     (if e_phnum eh = 0 then M11_ERR_PHBOUNDS
      else if e_phentsize eh \<noteq> 56 then M11_ERR_PHENTSIZE
      else
        let ph_table_bytes = ucast (e_phentsize eh) * ucast (e_phnum eh) :: u64 in
        if e_phnum eh \<noteq> 0 \<and> ph_table_bytes div ucast (e_phnum eh) \<noteq> ucast (e_phentsize eh)
        then M11_ERR_PHBOUNDS
        else case m11_add_overflow_u64 (e_phoff eh) ph_table_bytes of
          None \<Rightarrow> M11_ERR_PHBOUNDS
        | Some ph_end \<Rightarrow>
            if ph_end > image_size \<or> e_phoff eh > image_size then M11_ERR_PHBOUNDS else M11_OK)"

definition m11_validate_load_segment ::
  "m11_elf64_phdr \<Rightarrow> u64 \<Rightarrow> m11_user_region \<Rightarrow> int" where
  "m11_validate_load_segment ph image_size region =
     (if p_flags ph AND NOT (M11_PF_R OR M11_PF_W OR M11_PF_X) \<noteq> 0 then M11_ERR_FLAGS
      else if p_flags ph AND M11_PF_W \<noteq> 0 \<and> p_flags ph AND M11_PF_X \<noteq> 0 then M11_ERR_FLAGS
      else if p_memsz ph < p_filesz ph then M11_ERR_SEGBOUNDS
      else if p_align ph \<noteq> 0 \<and> p_align ph \<noteq> 1 \<and> \<not> m11_is_power_of_two_u64 (p_align ph)
      then M11_ERR_ALIGN
      else if p_align ph \<noteq> 0 \<and> p_align ph \<noteq> 1 \<and>
              p_vaddr ph mod p_align ph \<noteq> p_offset ph mod p_align ph
      then M11_ERR_ALIGN
      else case m11_add_overflow_u64 (p_offset ph) (p_filesz ph) of
        None \<Rightarrow> M11_ERR_SEGBOUNDS
      | Some file_end \<Rightarrow>
          if file_end > image_size \<or> p_offset ph > image_size then M11_ERR_SEGBOUNDS
          else m11_validate_user_range region (p_vaddr ph) (p_memsz ph))"

subsection \<open>The plan\<close>

definition segment_of :: "m11_elf64_phdr \<Rightarrow> m11_segment_plan" where
  "segment_of ph =
     \<lparr>seg_file_offset = p_offset ph, seg_vaddr = p_vaddr ph, seg_filesz = p_filesz ph,
      seg_memsz = p_memsz ph, seg_align = p_align ph, seg_flags = p_flags ph\<rparr>"

text \<open>The loop over the program headers, with its early returns.\<close>

fun plan_loop ::
  "u64 \<Rightarrow> m11_user_region \<Rightarrow> m11_elf64_phdr list \<Rightarrow> m11_process_image_plan
     \<Rightarrow> int \<times> m11_process_image_plan" where
  "plan_loop image_size region [] plan =
     (if segment_count plan = 0 then (M11_ERR_SEGCOUNT, plan) else (M11_OK, plan))"
| "plan_loop image_size region (ph # phs) plan =
     (if p_type ph \<noteq> M11_PT_LOAD then plan_loop image_size region phs plan
      else if segment_count plan \<ge> M11_MAX_LOAD_SEGMENTS then (M11_ERR_SEGCOUNT, m11_zero_plan plan)
      else
        let rc = m11_validate_load_segment ph image_size region in
        if rc \<noteq> M11_OK then (rc, m11_zero_plan plan)
        else plan_loop image_size region phs
               (plan\<lparr>segments := (segments plan)[segment_count plan := segment_of ph],
                     segment_count := segment_count plan + 1\<rparr>))"

definition m11_elf64_plan_load ::
  "u8 list option \<Rightarrow> u64 \<Rightarrow> m11_user_region \<Rightarrow> m11_process_image_plan option
     \<Rightarrow> int \<times> m11_process_image_plan option" where
  "m11_elf64_plan_load img image_size region out_plan =
     (case (img, out_plan) of
        (Some bytes, Some plan) \<Rightarrow>
          let plan = m11_zero_plan plan; eh = m11_ehdr bytes in
          if image_size < 64 then (M11_ERR_SIZE, Some plan)
          else if m11_validate_ident eh \<noteq> M11_OK then (m11_validate_ident eh, Some plan)
          else if e_type eh \<noteq> M11_ET_EXEC \<and> e_type eh \<noteq> M11_ET_DYN then (M11_ERR_TYPE, Some plan)
          else if e_machine eh \<noteq> M11_EM_X86_64 then (M11_ERR_MACHINE, Some plan)
          else if e_ehsize eh \<noteq> 64 then (M11_ERR_EHSIZE, Some plan)
          else if m11_validate_phdr_bounds eh image_size \<noteq> M11_OK
          then (m11_validate_phdr_bounds eh image_size, Some plan)
          else if m11_validate_user_range region (e_entry eh) 1 \<noteq> M11_OK
          then (M11_ERR_ENTRY, Some plan)
          else
            let phs = map (\<lambda>i. m11_phdr bytes (unat (e_phoff eh) + 56 * i)) [0..<unat (e_phnum eh)];
                (rc, plan) = plan_loop image_size region phs (plan\<lparr>entry := e_entry eh\<rparr>)
            in (rc, Some plan)
      | _ \<Rightarrow> (M11_ERR_NULL, out_plan))"

definition m11_error_name :: "int \<Rightarrow> string" where
  "m11_error_name code =
     (if code = M11_OK then ''M11_OK''
      else if code = M11_ERR_NULL then ''M11_ERR_NULL''
      else if code = M11_ERR_SIZE then ''M11_ERR_SIZE''
      else if code = M11_ERR_MAGIC then ''M11_ERR_MAGIC''
      else if code = M11_ERR_CLASS then ''M11_ERR_CLASS''
      else if code = M11_ERR_ENDIAN then ''M11_ERR_ENDIAN''
      else if code = M11_ERR_VERSION then ''M11_ERR_VERSION''
      else if code = M11_ERR_TYPE then ''M11_ERR_TYPE''
      else if code = M11_ERR_MACHINE then ''M11_ERR_MACHINE''
      else if code = M11_ERR_EHSIZE then ''M11_ERR_EHSIZE''
      else if code = M11_ERR_PHENTSIZE then ''M11_ERR_PHENTSIZE''
      else if code = M11_ERR_PHBOUNDS then ''M11_ERR_PHBOUNDS''
      else if code = M11_ERR_ALIGN then ''M11_ERR_ALIGN''
      else if code = M11_ERR_SEGBOUNDS then ''M11_ERR_SEGBOUNDS''
      else if code = M11_ERR_SEGRANGE then ''M11_ERR_SEGRANGE''
      else if code = M11_ERR_SEGCOUNT then ''M11_ERR_SEGCOUNT''
      else if code = M11_ERR_ENTRY then ''M11_ERR_ENTRY''
      else if code = M11_ERR_FLAGS then ''M11_ERR_FLAGS''
      else ''M11_ERR_UNKNOWN'')"

subsection \<open>What the checks decide\<close>

lemma add_overflow_eq:
  "m11_add_overflow_u64 a b = (if unat a + unat b < 2 ^ 64 then Some (a + b) else None)"
proof -
  have "a + b < a \<longleftrightarrow> \<not> unat a + unat b < 2 ^ 64"
  proof (cases "unat a + unat b < 2 ^ 64")
    case True
    then show ?thesis by (simp add: word_less_nat_alt unat_add_no_wrap)
  next
    case False
    then have "unat (a + b) = unat a + unat b - 2 ^ 64"
      using unat_u64_bound [of a] unat_u64_bound [of b] by (simp add: unat_word_ariths mod_if)
    then show ?thesis using False unat_u64_bound [of b] by (simp add: word_less_nat_alt)
  qed
  then show ?thesis by (simp add: m11_add_overflow_u64_def Let_def)
qed

lemma user_range_cases:
  "m11_validate_user_range r b n = M11_OK \<or> m11_validate_user_range r b n = M11_ERR_SEGRANGE"
  by (auto simp: m11_validate_user_range_def split: option.splits)

lemma user_range_OK:
  "m11_validate_user_range r b n = M11_OK \<longleftrightarrow>
     unat (region_base r) \<le> unat b \<and> 0 < unat n \<and> unat b + unat n \<le> unat (region_limit r)"
proof (cases "unat b + unat n < 2 ^ 64")
  case True
  have "n = 0 \<longleftrightarrow> unat n = 0" by (simp add: unat_eq_0)
  then show ?thesis
    using True by (auto simp: m11_validate_user_range_def add_overflow_eq m11_codes word_le_nat_alt
        word_less_nat_alt unat_add_no_wrap)
next
  case False
  then show ?thesis
    using unat_u64_bound [of "region_limit r"]
    by (auto simp: m11_validate_user_range_def add_overflow_eq m11_codes)
qed

lemma phdr_bounds_OK:
  "m11_validate_phdr_bounds eh n = M11_OK \<longleftrightarrow>
     e_phnum eh \<noteq> 0 \<and> e_phentsize eh = 56 \<and> unat (e_phoff eh) + 56 * unat (e_phnum eh) \<le> unat n"
proof (cases "e_phnum eh \<noteq> 0 \<and> e_phentsize eh = 56")
  case True
  let ?k = "unat (e_phnum eh)"
  define tb :: u64 where "tb = ucast (e_phentsize eh) * ucast (e_phnum eh)"
  have k: "?k < 2 ^ 16" using unsigned_less [of "e_phnum eh"] by simp
  have cast: "unat (ucast (e_phnum eh) :: u64) = ?k" "unat (ucast (e_phentsize eh) :: u64) = 56"
    using True k by (simp_all add: unsigned_ucast_eq take_bit_nat_eq_self)
  have tb: "unat tb = 56 * ?k"
    unfolding tb_def using k by (simp add: unat_word_ariths cast)
  have "?k > 0" using True by (simp add: unat_gt_0)
  then have "unat (tb div ucast (e_phnum eh)) = unat (ucast (e_phentsize eh) :: u64)"
    by (simp add: unat_div cast tb)
  then have "tb div ucast (e_phnum eh) = ucast (e_phentsize eh)"
    by (rule unsigned_word_eqI)
  then show ?thesis
    unfolding m11_validate_phdr_bounds_def Let_def tb_def [symmetric]
    using True unat_u64_bound [of n]
    by (auto simp: add_overflow_eq m11_codes word_less_nat_alt unat_add_no_wrap tb)
qed (auto simp: m11_validate_phdr_bounds_def m11_codes)

lemma nat_and_pred_zero: "0 < n \<Longrightarrow> (n::nat) AND (n - 1) = 0 \<longleftrightarrow> (\<exists>k. n = 2 ^ k)"
proof
  show "\<exists>k. n = 2 ^ k" if "0 < n" "n AND (n - 1) = 0"
    using that
  proof (induction n rule: less_induct)
    case (less n)
    show ?case
    proof (cases "even n")
      case True
      then obtain m where m: "n = 2 * m" by (auto elim: evenE)
      then have "(n - 1) div 2 = m - 1" "m > 0" using less.prems by auto
      moreover have "n AND (n - 1) = 2 * (m AND (m - 1))"
        using m \<open>(n - 1) div 2 = m - 1\<close> by (subst and_nat_rec) simp
      ultimately obtain k where "m = 2 ^ k" using less.IH [of m] less.prems m by auto
      then show ?thesis using m by (intro exI [of _ "Suc k"]) simp
    next
      case False
      then obtain m where m: "n = 2 * m + 1" by (auto elim: oddE)
      then have "n AND (n - 1) = 2 * m" by (subst and_nat_rec) simp
      then show ?thesis using less.prems m by (intro exI [of _ 0]) simp
    qed
  qed
  assume "\<exists>k. n = 2 ^ k"
  then show "n AND (n - 1) = 0"
  proof
    fix k
    assume "n = 2 ^ k"
    then have "n AND (n - 1) = take_bit k (2 ^ k)"
      by (simp add: take_bit_eq_mask mask_eq_exp_minus_1)
    then show ?thesis by (simp add: take_bit_eq_mod)
  qed
qed

lemma power_of_two_iff: "m11_is_power_of_two_u64 v \<longleftrightarrow> (\<exists>k. unat v = 2 ^ k)"
proof (cases "v = 0")
  case False
  then have pos: "0 < unat v" by (simp add: unat_gt_0)
  have "unat (v AND (v - 1)) = unat v AND (unat v - 1)"
    using False by (simp add: unsigned_and_eq unat_minus_one)
  then have "v AND (v - 1) = 0 \<longleftrightarrow> unat v AND (unat v - 1) = 0"
    by (metis unat_eq_0)
  then show ?thesis
    using nat_and_pred_zero [OF pos] False by (simp add: m11_is_power_of_two_u64_def)
qed (simp add: m11_is_power_of_two_u64_def)

definition seg_ok :: "m11_elf64_phdr \<Rightarrow> u64 \<Rightarrow> m11_user_region \<Rightarrow> bool" where
  "seg_ok ph n r \<longleftrightarrow>
     p_flags ph AND NOT (M11_PF_R OR M11_PF_W OR M11_PF_X) = 0 \<and>
     \<not> (p_flags ph AND M11_PF_W \<noteq> 0 \<and> p_flags ph AND M11_PF_X \<noteq> 0) \<and>
     unat (p_filesz ph) \<le> unat (p_memsz ph) \<and>
     (unat (p_align ph) \<le> 1 \<or>
      (\<exists>k. unat (p_align ph) = 2 ^ k) \<and>
      unat (p_vaddr ph) mod unat (p_align ph) = unat (p_offset ph) mod unat (p_align ph)) \<and>
     unat (p_offset ph) + unat (p_filesz ph) \<le> unat n \<and>
     unat (region_base r) \<le> unat (p_vaddr ph) \<and> 0 < unat (p_memsz ph) \<and>
     unat (p_vaddr ph) + unat (p_memsz ph) \<le> unat (region_limit r)"

lemma load_segment_OK: "m11_validate_load_segment ph n r = M11_OK \<longleftrightarrow> seg_ok ph n r"
proof -
  have al: "p_align ph \<noteq> 0 \<and> p_align ph \<noteq> 1 \<longleftrightarrow> \<not> unat (p_align ph) \<le> 1"
  proof -
    have "unat (p_align ph) = 1 \<longleftrightarrow> p_align ph = 1" by (metis unat_1 unsigned_word_eqI)
    then show ?thesis using unat_eq_0 [of "p_align ph"] by linarith
  qed
  have md: "p_vaddr ph mod p_align ph = p_offset ph mod p_align ph \<longleftrightarrow>
      unat (p_vaddr ph) mod unat (p_align ph) = unat (p_offset ph) mod unat (p_align ph)"
    by (metis unat_mod unsigned_word_eqI)
  have lt: "p_memsz ph < p_filesz ph \<longleftrightarrow> \<not> unat (p_filesz ph) \<le> unat (p_memsz ph)"
    by (simp add: word_less_nat_alt not_le)
  have fe: "(case m11_add_overflow_u64 (p_offset ph) (p_filesz ph) of
        None \<Rightarrow> M11_ERR_SEGBOUNDS
      | Some file_end \<Rightarrow>
          if file_end > n \<or> p_offset ph > n then M11_ERR_SEGBOUNDS
          else m11_validate_user_range r (p_vaddr ph) (p_memsz ph)) = M11_OK \<longleftrightarrow>
      unat (p_offset ph) + unat (p_filesz ph) \<le> unat n \<and>
      m11_validate_user_range r (p_vaddr ph) (p_memsz ph) = M11_OK"
    using unat_u64_bound [of n]
    by (auto simp: add_overflow_eq word_less_nat_alt unat_add_no_wrap m11_codes)
  show ?thesis
    unfolding m11_validate_load_segment_def seg_ok_def
    using al md lt fe power_of_two_iff [of "p_align ph"] user_range_OK [of r "p_vaddr ph" "p_memsz ph"]
    by (auto simp: m11_codes simp del: not_le)
qed

subsection \<open>The loop over the program headers\<close>

definition empty_plan :: "u64 \<Rightarrow> m11_process_image_plan" where
  "empty_plan e = \<lparr>entry = e, segment_count = 0, segments = replicate 8 zero_segment\<rparr>"

lemma zero_plan_eq: "length (segments p) = 8 \<Longrightarrow> m11_zero_plan p = empty_plan 0"
  by (cases p) (auto simp: m11_zero_plan_def empty_plan_def M11_MAX_LOAD_SEGMENTS_def eval_nat_numeral
      length_Suc_conv)

definition loads :: "m11_elf64_phdr list \<Rightarrow> m11_elf64_phdr list" where
  "loads phs = filter (\<lambda>ph. p_type ph = M11_PT_LOAD) phs"

lemma loads_simps [simp]:
  "loads [] = []" "loads (ph # phs) = (if p_type ph = M11_PT_LOAD then ph # loads phs else loads phs)"
  by (simp_all add: loads_def)

lemma plan_loop_good:
  assumes "length (segments p) = 8" and "segment_count p + length (loads phs) \<le> 8"
    and "list_all (\<lambda>ph. seg_ok ph n r) (loads phs)"
  shows "plan_loop n r phs p =
     (if segment_count p + length (loads phs) = 0 then M11_ERR_SEGCOUNT else M11_OK,
      p\<lparr>segment_count := segment_count p + length (loads phs),
        segments := take (segment_count p) (segments p) @ map segment_of (loads phs) @
                    drop (segment_count p + length (loads phs)) (segments p)\<rparr>)"
  using assms
proof (induction phs arbitrary: p)
  case Nil
  then show ?case by simp
next
  case (Cons ph phs)
  show ?case
  proof (cases "p_type ph = M11_PT_LOAD")
    case False
    then show ?thesis using Cons by simp
  next
    case True
    let ?c = "segment_count p"
    let ?p = "p\<lparr>segments := (segments p)[?c := segment_of ph], segment_count := ?c + 1\<rparr>"
    have ok: "m11_validate_load_segment ph n r = M11_OK" "?c < 8"
      using Cons.prems True by (auto simp: load_segment_OK)
    then have "plan_loop n r (ph # phs) p = plan_loop n r phs ?p"
      using True by (simp add: M11_MAX_LOAD_SEGMENTS_def)
    also have "\<dots> = (M11_OK, ?p\<lparr>segment_count := ?c + 1 + length (loads phs),
        segments := take (?c + 1) ((segments p)[?c := segment_of ph]) @ map segment_of (loads phs) @
                    drop (?c + 1 + length (loads phs)) ((segments p)[?c := segment_of ph])\<rparr>)"
      using Cons.IH [of ?p] Cons.prems True by simp
    also have "take (?c + 1) ((segments p)[?c := segment_of ph]) = take ?c (segments p) @ [segment_of ph]"
      using Cons.prems(1) ok(2) by (simp add: take_Suc_conv_app_nth)
    finally show ?thesis using True by simp
  qed
qed

lemma plan_loop_bad:
  assumes "length (segments p) = 8" and "segment_count p \<le> 8"
    and "\<not> (segment_count p + length (loads phs) \<le> 8 \<and> list_all (\<lambda>ph. seg_ok ph n r) (loads phs))"
  shows "\<exists>rc. rc \<noteq> M11_OK \<and> plan_loop n r phs p = (rc, empty_plan 0)"
  using assms
proof (induction phs arbitrary: p)
  case (Cons ph phs)
  show ?case
  proof (cases "p_type ph = M11_PT_LOAD \<and> segment_count p < 8 \<and> seg_ok ph n r")
    case True
    let ?p = "p\<lparr>segments := (segments p)[segment_count p := segment_of ph],
        segment_count := segment_count p + 1\<rparr>"
    have "plan_loop n r (ph # phs) p = plan_loop n r phs ?p"
      using True by (simp add: M11_MAX_LOAD_SEGMENTS_def load_segment_OK [THEN iffD2])
    then show ?thesis using Cons.IH [of ?p] Cons.prems True by simp
  next
    case bad: False
    show ?thesis
    proof (cases "p_type ph = M11_PT_LOAD")
      case True
      then show ?thesis
        using bad Cons.prems zero_plan_eq [of p] load_segment_OK [of ph n r]
        by (auto simp: M11_MAX_LOAD_SEGMENTS_def m11_codes Let_def)
    next
      case False
      then show ?thesis using Cons by simp
    qed
  qed
qed simp

definition header_ok :: "m11_elf64_ehdr \<Rightarrow> u64 \<Rightarrow> m11_user_region \<Rightarrow> bool" where
  "header_ok eh n r \<longleftrightarrow>
     64 \<le> unat n \<and> m11_validate_ident eh = M11_OK \<and> (e_type eh = 2 \<or> e_type eh = 3) \<and>
     e_machine eh = 62 \<and> e_ehsize eh = 64 \<and> e_phnum eh \<noteq> 0 \<and> e_phentsize eh = 56 \<and>
     unat (e_phoff eh) + 56 * unat (e_phnum eh) \<le> unat n \<and>
     unat (region_base r) \<le> unat (e_entry eh) \<and> unat (e_entry eh) < unat (region_limit r)"

definition headers :: "u8 list \<Rightarrow> m11_elf64_phdr list" where
  "headers bytes =
     map (\<lambda>i. m11_phdr bytes (unat (e_phoff (m11_ehdr bytes)) + 56 * i))
       [0..<unat (e_phnum (m11_ehdr bytes))]"

lemma plan_load_eq:
  assumes "length (segments p) = 8"
  shows "if header_ok (m11_ehdr bytes) n r
    then m11_elf64_plan_load (Some bytes) n r (Some p) =
      map_prod id Some (plan_loop n r (headers bytes) (empty_plan (e_entry (m11_ehdr bytes))))
    else \<exists>rc. rc \<noteq> M11_OK \<and> m11_elf64_plan_load (Some bytes) n r (Some p) = (rc, Some (empty_plan 0))"
proof -
  define eh where "eh = m11_ehdr bytes"
  have sz: "n < 64 \<longleftrightarrow> \<not> 64 \<le> unat n" by (simp add: word_less_nat_alt not_le)
  have en: "m11_validate_user_range r (e_entry eh) 1 = M11_OK \<longleftrightarrow>
      unat (region_base r) \<le> unat (e_entry eh) \<and> unat (e_entry eh) < unat (region_limit r)"
    by (simp add: user_range_OK less_eq_Suc_le)
  have entry: "(empty_plan 0)\<lparr>entry := x\<rparr> = empty_plan x" for x by (simp add: empty_plan_def)
  show ?thesis
    unfolding m11_elf64_plan_load_def headers_def eh_def [symmetric] zero_plan_eq [OF assms]
      prod.case option.case Let_def entry
    using phdr_bounds_OK [of eh n] en sz
    by (auto simp: header_ok_def m11_codes split: prod.splits)
qed

lemma length_loads: "length (loads phs) \<le> length phs"
  by (simp add: loads_def)

lemma plan_load_cases:
  fixes bytes :: "u8 list"
  assumes len: "length (segments p) = 8"
  defines "ls \<equiv> loads (headers bytes)"
  shows "if header_ok (m11_ehdr bytes) n r \<and> list_all (\<lambda>ph. seg_ok ph n r) ls \<and> length ls \<le> 8
    then m11_elf64_plan_load (Some bytes) n r (Some p) =
      (if ls = [] then M11_ERR_SEGCOUNT else M11_OK,
       Some \<lparr>entry = e_entry (m11_ehdr bytes), segment_count = length ls,
         segments = map segment_of ls @ replicate (8 - length ls) zero_segment\<rparr>)
    else \<exists>rc. rc \<noteq> M11_OK \<and> m11_elf64_plan_load (Some bytes) n r (Some p) = (rc, Some (empty_plan 0))"
proof -
  note eq = plan_load_eq [OF len, of bytes n r]
  let ?p = "empty_plan (e_entry (m11_ehdr bytes))"
  have p: "length (segments ?p) = 8" "segment_count ?p = 0" by (simp_all add: empty_plan_def)
  show ?thesis
  proof (cases "header_ok (m11_ehdr bytes) n r \<and> list_all (\<lambda>ph. seg_ok ph n r) ls \<and> length ls \<le> 8")
    case True
    then show ?thesis
      using eq plan_loop_good [OF p(1), of "headers bytes" n r] p(2)
      by (auto simp: ls_def empty_plan_def)
  next
    case False
    then show ?thesis
      using eq plan_loop_bad [OF p(1), of "headers bytes" n r] p(2)
      by (cases "header_ok (m11_ehdr bytes) n r") (auto simp: ls_def)
  qed
qed

subsection \<open>Properties\<close>

definition demo_image :: "u8 list" where
  "demo_image =
     [127, 69, 76, 70, 2, 1, 1, 0, 0, 0, 0, 0, 0, 0, 0, 0, 2, 0, 62, 0, 1, 0, 0,
      0, 100, 0, 0, 0, 0, 0, 0, 0, 64, 0, 0, 0, 0, 0, 0, 0, 0, 0, 0, 0, 0, 0, 0,
      0, 0, 0, 0, 0, 64, 0, 56, 0, 1, 0, 0, 0, 0, 0, 0, 0] @
     [1, 0, 0, 0, 5, 0, 0, 0, 0, 0, 0, 0, 0, 0, 0, 0, 64, 0, 0, 0, 0, 0, 0, 0,
      0, 0, 0, 0, 0, 0, 0, 0, 120, 0, 0, 0, 0, 0, 0, 0, 128, 0, 0, 0, 0, 0, 0,
      0, 1, 0, 0, 0, 0, 0, 0, 0]"

definition demo_region :: m11_user_region where
  "demo_region = \<lparr>region_base = 16, region_limit = 256\<rparr>"

definition demo_phdr :: m11_elf64_phdr where
  "demo_phdr = \<lparr>p_type = 1, p_flags = 5, p_offset = 0, p_vaddr = 64, p_paddr = 0, p_filesz = 120,
     p_memsz = 128, p_align = 1\<rparr>"

lemma demo_ehdr:
  "m11_ehdr demo_image = \<lparr>e_ident = [0x7f, 0x45, 0x4c, 0x46, 2, 1, 1, 0, 0, 0, 0, 0, 0, 0, 0, 0],
     e_type = 2, e_machine = 62, e_version = 1, e_entry = 100, e_phoff = 64, e_shoff = 0,
     e_flags = 0, e_ehsize = 64, e_phentsize = 56, e_phnum = 1, e_shentsize = 0, e_shnum = 0,
     e_shstrndx = 0\<rparr>"
  by (simp add: m11_ehdr_def load_le_def demo_image_def)

lemma demo_headers: "headers demo_image = [demo_phdr]"
  by (simp add: headers_def demo_ehdr m11_phdr_def load_le_def demo_phdr_def)
    (simp add: demo_image_def)

lemma demo_header_ok: "header_ok (m11_ehdr demo_image) 120 demo_region"
  by (simp add: header_ok_def demo_ehdr demo_region_def m11_validate_ident_def)

lemma demo_seg_ok: "seg_ok demo_phdr 120 demo_region" "p_type demo_phdr = M11_PT_LOAD"
  by (simp_all add: seg_ok_def demo_phdr_def demo_region_def M11_PF_R_def M11_PF_W_def M11_PF_X_def
      M11_PT_LOAD_def)

lemma demo_plan_ok:
  "\<exists>plan. m11_elf64_plan_load (Some demo_image) 120 demo_region (Some (empty_plan 0)) = (M11_OK, Some plan)"
  using plan_load_cases [of "empty_plan 0" demo_image 120 demo_region] demo_header_ok demo_seg_ok
  by (simp add: demo_headers empty_plan_def)

text \<open>C26: An image is accepted exactly when its header passes every check and it has
  between 1 and 8 loadable program headers that all pass theirs; the plan then holds the entry
  point and exactly those segments in order, and on any error it is empty, except that an image
  without a loadable segment leaves the entry point in it.\<close>

theorem m11_elf64_plan_load_exact:
  assumes "length (segments p) = 8"
  shows "(\<exists>rc plan. m11_elf64_plan_load (Some bytes) n r (Some p) = (rc, Some plan) \<and>
     (rc = M11_OK \<longleftrightarrow>
        header_ok (m11_ehdr bytes) n r \<and> list_all (\<lambda>ph. seg_ok ph n r) (loads (headers bytes)) \<and>
        1 \<le> length (loads (headers bytes)) \<and> length (loads (headers bytes)) \<le> 8) \<and>
     (rc = M11_OK \<longrightarrow>
        entry plan = e_entry (m11_ehdr bytes) \<and>
        take (segment_count plan) (segments plan) = map segment_of (loads (headers bytes))) \<and>
     (rc \<noteq> M11_OK \<longrightarrow> plan = empty_plan (if loads (headers bytes) = [] \<and> header_ok (m11_ehdr bytes) n r
                                     then e_entry (m11_ehdr bytes) else 0)))"
proof (cases "header_ok (m11_ehdr bytes) n r \<and>
    list_all (\<lambda>ph. seg_ok ph n r) (loads (headers bytes)) \<and> length (loads (headers bytes)) \<le> 8")
  case True
  then show ?thesis
    using plan_load_cases [OF assms, of bytes n r]
    by (cases "loads (headers bytes)") (auto simp: m11_codes empty_plan_def)
next
  case False
  then have "\<not> (loads (headers bytes) = [] \<and> header_ok (m11_ehdr bytes) n r)" by auto
  then show ?thesis
    using plan_load_cases [OF assms, of bytes n r] False by (auto split: if_splits)
qed

theorem m11_elf64_plan_load_exact_witness:
  "\<exists>plan. m11_elf64_plan_load (Some demo_image) 120 demo_region (Some (empty_plan 0)) = (M11_OK, Some plan) \<and>
     entry plan = 100 \<and> take (segment_count plan) (segments plan) = [segment_of demo_phdr]"
proof -
  have "length (segments (empty_plan 0)) = 8" by (simp add: empty_plan_def)
  from m11_elf64_plan_load_exact [OF this, of demo_image 120 demo_region]
  show ?thesis using demo_header_ok demo_seg_ok by (auto simp: demo_headers demo_ehdr)
qed

text \<open>C27: A plan the loader accepts has 1 to 8 segments and an entry point inside the
  user region; every segment's bytes lie inside the image, its memory is not empty, holds its
  bytes and lies inside the user region without wrapping, no segment is both writable and
  executable, and address and file offset agree modulo a power-of-two alignment.\<close>

theorem m11_elf64_plan_load_safe:
  assumes len: "length (segments p) = 8"
    and ok: "m11_elf64_plan_load (Some bytes) n r (Some p) = (M11_OK, Some plan)"
  shows "1 \<le> segment_count plan \<and> segment_count plan \<le> 8 \<and>
    unat (region_base r) \<le> unat (entry plan) \<and> unat (entry plan) < unat (region_limit r) \<and>
    (\<forall>i < segment_count plan. let s = segments plan ! i in
       unat (seg_file_offset s) + unat (seg_filesz s) \<le> unat n \<and>
       unat (seg_filesz s) \<le> unat (seg_memsz s) \<and> 0 < unat (seg_memsz s) \<and>
       unat (region_base r) \<le> unat (seg_vaddr s) \<and>
       unat (seg_vaddr s) + unat (seg_memsz s) \<le> unat (region_limit r) \<and>
       \<not> (seg_flags s AND M11_PF_W \<noteq> 0 \<and> seg_flags s AND M11_PF_X \<noteq> 0) \<and>
       (unat (seg_align s) \<le> 1 \<or> (\<exists>k. unat (seg_align s) = 2 ^ k) \<and>
          unat (seg_vaddr s) mod unat (seg_align s) = unat (seg_file_offset s) mod unat (seg_align s)))"
proof -
  let ?ls = "loads (headers bytes)"
  have h: "header_ok (m11_ehdr bytes) n r" "list_all (\<lambda>ph. seg_ok ph n r) ?ls" "length ?ls \<le> 8" "?ls \<noteq> []"
      "plan = \<lparr>entry = e_entry (m11_ehdr bytes), segment_count = length ?ls,
         segments = map segment_of ?ls @ replicate (8 - length ?ls) zero_segment\<rparr>"
    using plan_load_cases [OF len, of bytes n r] ok by (auto simp: m11_codes split: if_splits)
  have "seg_ok (?ls ! i) n r" if "i < length ?ls" for i
    using h(2) that by (simp add: list_all_length)
  then have "let s = segments plan ! i in
       unat (seg_file_offset s) + unat (seg_filesz s) \<le> unat n \<and>
       unat (seg_filesz s) \<le> unat (seg_memsz s) \<and> 0 < unat (seg_memsz s) \<and>
       unat (region_base r) \<le> unat (seg_vaddr s) \<and>
       unat (seg_vaddr s) + unat (seg_memsz s) \<le> unat (region_limit r) \<and>
       \<not> (seg_flags s AND M11_PF_W \<noteq> 0 \<and> seg_flags s AND M11_PF_X \<noteq> 0) \<and>
       (unat (seg_align s) \<le> 1 \<or> (\<exists>k. unat (seg_align s) = 2 ^ k) \<and>
          unat (seg_vaddr s) mod unat (seg_align s) = unat (seg_file_offset s) mod unat (seg_align s))"
    if "i < segment_count plan" for i
    using that h(5) by (simp add: segment_of_def seg_ok_def nth_append)
  then show ?thesis using h(1,3-5) by (cases ?ls) (auto simp: header_ok_def)
qed

theorem m11_elf64_plan_load_safe_witness:
  "\<exists>plan. m11_elf64_plan_load (Some demo_image) 120 demo_region (Some (empty_plan 0)) = (M11_OK, Some plan) \<and>
     1 \<le> segment_count plan \<and> unat (entry plan) < 256"
proof -
  obtain plan where ok: "m11_elf64_plan_load (Some demo_image) 120 demo_region (Some (empty_plan 0)) =
      (M11_OK, Some plan)" using demo_plan_ok by blast
  have "length (segments (empty_plan 0)) = 8" by (simp add: empty_plan_def)
  from m11_elf64_plan_load_safe [OF this ok] ok show ?thesis by (simp add: demo_region_def)
qed

text \<open>A range is accepted exactly when it is not empty and lies inside the user
  region as a range of numbers, so no wrapped range is; every other range gives
  SEGRANGE.\<close>

theorem m11_validate_user_range_exact:
  "m11_validate_user_range r b n = (if unat (region_base r) \<le> unat b \<and> 0 < unat n \<and>
      unat b + unat n \<le> unat (region_limit r) then M11_OK else M11_ERR_SEGRANGE)"
  using user_range_OK [of r b n] user_range_cases [of r b n] by (auto simp: m11_codes)

text \<open>The names of the codes from 0 to -17 are pairwise different, and exactly the
  other codes have the name M11_ERR_UNKNOWN.\<close>

theorem m11_error_name_exact:
  "inj_on m11_error_name {-17..0} \<and> (m11_error_name c = ''M11_ERR_UNKNOWN'') = (c \<notin> {-17..0})"
proof -
  let ?cs = "[-17, -16, -15, -14, -13, -12, -11, -10, -9, -8, -7, -6, -5, -4, -3, -2, -1, 0] :: int list"
  have range: "{-17..0 :: int} = set ?cs" by (auto, presburger)
  have "distinct (map m11_error_name ?cs)"
    by (simp add: m11_error_name_def m11_codes)
  then have "inj_on m11_error_name {-17..0}" unfolding range by (simp only: distinct_map)
  moreover have "(m11_error_name c = ''M11_ERR_UNKNOWN'') = (c \<notin> {-17..0})"
    unfolding range m11_error_name_def m11_codes by simp
  ultimately show ?thesis by blast
qed

end
