(* ===== verification/Syscall.thy ===== *)
theory Syscall
  imports Kernel_Prelude
begin

text \<open>
  System calls, \<open>mcsos/kernel/syscall/syscall.c\<close> with \<open>mcsos/include/mcsos/syscall.h\<close>: the table
  of handlers, the operations the kernel installs, and the check of user ranges. The installed
  operations are function pointers of other parts of the kernel: they are functions on a world
  of any type, with the result \<open>None\<close> when they do not come back (an exit of the current thread, say),
  and a NULL pointer is \<open>None\<close>. The result of a handler is \<open>None\<close> when it calls through a NULL
  pointer; otherwise it is \<open>Some None\<close> when the operation it calls does not come back, and
  \<open>Some (Some (r, w))\<close> for the 64-bit signed result \<open>r\<close>, an \<open>int\<close>, with the new world \<open>w\<close>.
\<close>

subsection \<open>Data\<close>

definition MCSOS_SYS_PING :: u64 where "MCSOS_SYS_PING = 0"
definition MCSOS_SYS_GET_TICKS :: u64 where "MCSOS_SYS_GET_TICKS = 1"
definition MCSOS_SYS_WRITE_SERIAL :: u64 where "MCSOS_SYS_WRITE_SERIAL = 2"
definition MCSOS_SYS_YIELD :: u64 where "MCSOS_SYS_YIELD = 3"
definition MCSOS_SYS_EXIT_THREAD :: u64 where "MCSOS_SYS_EXIT_THREAD = 4"
definition MCSOS_SYS_MAX :: u64 where "MCSOS_SYS_MAX = 5"

lemmas mcsos_numbers =
  MCSOS_SYS_PING_def MCSOS_SYS_GET_TICKS_def MCSOS_SYS_WRITE_SERIAL_def MCSOS_SYS_YIELD_def
  MCSOS_SYS_EXIT_THREAD_def MCSOS_SYS_MAX_def

definition MCSOS_OK :: int where "MCSOS_OK = 0"
definition MCSOS_EINVAL :: int where "MCSOS_EINVAL = -22"
definition MCSOS_ENOSYS :: int where "MCSOS_ENOSYS = -38"
definition MCSOS_EFAULT :: int where "MCSOS_EFAULT = -14"
definition MCSOS_EBUSY :: int where "MCSOS_EBUSY = -16"

lemmas mcsos_codes =
  MCSOS_OK_def MCSOS_EINVAL_def MCSOS_ENOSYS_def MCSOS_EFAULT_def MCSOS_EBUSY_def

record mcsos_syscall_frame =
  nr :: u64
  arg0 :: u64
  arg1 :: u64
  arg2 :: u64
  arg3 :: u64
  arg4 :: u64
  arg5 :: u64
  ret :: int

record mcsos_user_region =
  base :: u64
  limit :: u64

record 'w mcsos_syscall_ops =
  get_ticks :: "('w \<Rightarrow> (u64 \<times> 'w) option) option"
  yield_current :: "('w \<Rightarrow> 'w option) option"
  exit_current :: "(int \<Rightarrow> 'w \<Rightarrow> 'w option) option"
  write_serial :: "(u64 \<Rightarrow> u64 \<Rightarrow> 'w \<Rightarrow> (int \<times> 'w) option) option"

record 'w syscall_globals =
  g_ops :: "'w mcsos_syscall_ops"
  g_user_region :: mcsos_user_region

subsection \<open>Set-up and user memory\<close>

definition default_write_serial :: "u64 \<Rightarrow> u64 \<Rightarrow> 'w \<Rightarrow> (int \<times> 'w) option" where
  "default_write_serial buf len w = Some (sint len, w)"

definition mcsos_syscall_init :: "'w mcsos_syscall_ops option \<Rightarrow> 'w syscall_globals \<Rightarrow> 'w syscall_globals" where
  "mcsos_syscall_init ops g =
     (let d = \<lparr>get_ticks = None, yield_current = None, exit_current = None,
               write_serial = Some default_write_serial\<rparr>
      in g\<lparr>g_ops :=
        (case ops of
           None \<Rightarrow> d
         | Some ops \<Rightarrow>
             let d = (if get_ticks ops \<noteq> None then d\<lparr>get_ticks := get_ticks ops\<rparr> else d);
                 d = (if yield_current ops \<noteq> None then d\<lparr>yield_current := yield_current ops\<rparr> else d);
                 d = (if exit_current ops \<noteq> None then d\<lparr>exit_current := exit_current ops\<rparr> else d);
                 d = (if write_serial ops \<noteq> None then d\<lparr>write_serial := write_serial ops\<rparr> else d)
             in d)\<rparr>)"

definition mcsos_syscall_set_user_region :: "mcsos_user_region \<Rightarrow> 'w syscall_globals \<Rightarrow> 'w syscall_globals" where
  "mcsos_syscall_set_user_region region g = g\<lparr>g_user_region := region\<rparr>"

definition mcsos_user_check_range :: "mcsos_user_region \<Rightarrow> u64 \<Rightarrow> u64 \<Rightarrow> bool" where
  "mcsos_user_check_range r addr len =
     (if len = 0 then True
      else if base r = 0 \<or> limit r \<le> base r then False
      else if addr < base r then False
      else if addr > limit r then False
      else
        let last = addr + len - 1 in
        if last < addr then False
        else if last \<ge> limit r then False
        else True)"

text \<open>User memory is \<open>mem\<close>, by address; the destination is a list of bytes, \<open>None\<close> for NULL.\<close>

definition mcsos_copy_from_user ::
  "mcsos_user_region \<Rightarrow> (u64 \<Rightarrow> u8) \<Rightarrow> u8 list option \<Rightarrow> u64 \<Rightarrow> u64 \<Rightarrow> int \<times> u8 list option" where
  "mcsos_copy_from_user r mem dst src len =
     (if len = 0 then (MCSOS_OK, dst)
      else if dst = None \<or> src = 0 then (MCSOS_EINVAL, dst)
      else if \<not> mcsos_user_check_range r src len then (MCSOS_EFAULT, dst)
      else (MCSOS_OK, map_option
              (\<lambda>d. fold (\<lambda>i d. d[i := mem (src + of_nat i)]) [0..<unat len] d) dst))"

subsection \<open>Handlers\<close>

type_synonym 'w syscall_fn =
  "'w syscall_globals \<Rightarrow> u64 \<Rightarrow> u64 \<Rightarrow> u64 \<Rightarrow> u64 \<Rightarrow> u64 \<Rightarrow> u64 \<Rightarrow> 'w \<Rightarrow> (int \<times> 'w) option option"

definition sys_ping :: "'w syscall_fn" where
  "sys_ping g a0 a1 a2 a3 a4 a5 w = Some (Some (0x2605020A, w))"

definition sys_get_ticks :: "'w syscall_fn" where
  "sys_get_ticks g a0 a1 a2 a3 a4 a5 w =
     (case get_ticks (g_ops g) of
        None \<Rightarrow> Some (Some (MCSOS_EBUSY, w))
      | Some f \<Rightarrow> Some (map_option (\<lambda>(t, w). (sint t, w)) (f w)))"

definition sys_write_serial :: "'w syscall_fn" where
  "sys_write_serial g ptr len a2 a3 a4 a5 w =
     (if ptr = 0 then Some (Some (MCSOS_EINVAL, w))
      else if len > 4096 then Some (Some (MCSOS_EINVAL, w))
      else if \<not> mcsos_user_check_range (g_user_region g) ptr len then Some (Some (MCSOS_EFAULT, w))
      else case write_serial (g_ops g) of None \<Rightarrow> None | Some f \<Rightarrow> Some (f ptr len w))"

definition sys_yield :: "'w syscall_fn" where
  "sys_yield g a0 a1 a2 a3 a4 a5 w =
     (case yield_current (g_ops g) of
        None \<Rightarrow> Some (Some (MCSOS_EBUSY, w))
      | Some f \<Rightarrow> Some (map_option (\<lambda>w. (MCSOS_OK, w)) (f w)))"

definition sys_exit_thread :: "'w syscall_fn" where
  "sys_exit_thread g code a1 a2 a3 a4 a5 w =
     (case exit_current (g_ops g) of
        None \<Rightarrow> Some (Some (MCSOS_EBUSY, w))
      | Some f \<Rightarrow> Some (map_option (\<lambda>w. (MCSOS_OK, w)) (f (sint (ucast code :: u32)) w)))"

definition g_table :: "'w syscall_fn option list" where
  "g_table = [Some sys_ping, Some sys_get_ticks, Some sys_write_serial, Some sys_yield, Some sys_exit_thread]"

definition mcsos_syscall_dispatch ::
  "'w syscall_globals \<Rightarrow> u64 \<Rightarrow> u64 \<Rightarrow> u64 \<Rightarrow> u64 \<Rightarrow> u64 \<Rightarrow> u64 \<Rightarrow> u64 \<Rightarrow> 'w \<Rightarrow> (int \<times> 'w) option option" where
  "mcsos_syscall_dispatch g n a0 a1 a2 a3 a4 a5 w =
     (if n \<ge> MCSOS_SYS_MAX then Some (Some (MCSOS_ENOSYS, w))
      else case g_table ! unat n of
             None \<Rightarrow> Some (Some (MCSOS_ENOSYS, w))
           | Some fn \<Rightarrow> fn g a0 a1 a2 a3 a4 a5 w)"

definition mcsos_syscall_dispatch_frame ::
  "'w syscall_globals \<Rightarrow> mcsos_syscall_frame option \<Rightarrow> 'w \<Rightarrow> (mcsos_syscall_frame option \<times> 'w) option option" where
  "mcsos_syscall_dispatch_frame g frame w =
     (case frame of
        None \<Rightarrow> Some (Some (None, w))
      | Some f \<Rightarrow>
          (case mcsos_syscall_dispatch g (nr f) (arg0 f) (arg1 f) (arg2 f) (arg3 f) (arg4 f) (arg5 f) w of
             None \<Rightarrow> None
           | Some res \<Rightarrow> Some (map_option (\<lambda>(r, w). (Some (f\<lparr>ret := r\<rparr>), w)) res)))"

subsection \<open>What the checks decide\<close>

lemma check_range_iff:
  "mcsos_user_check_range r addr len \<longleftrightarrow>
     len = 0 \<or> base r \<noteq> 0 \<and> unat (base r) \<le> unat addr \<and> unat addr + unat len \<le> unat (limit r)"
proof (cases "len = 0")
  case False
  then have l: "0 < unat len" by (simp add: unat_gt_0)
  let ?last = "addr + len - 1"
  show ?thesis
  proof (cases "unat addr + unat len \<le> 2 ^ 64")
    case True
    have m: "unat (len - 1) = unat len - 1" using False by (simp add: unat_minus_one)
    have "unat (addr + (len - 1)) = unat addr + unat len - 1"
      using True l by (subst unat_add_no_wrap) (auto simp: m)
    then have "unat ?last = unat addr + unat len - 1" by (simp add: add_diff_eq)
    then show ?thesis
      using False l unat_u64_bound [of "limit r"]
      by (auto simp: mcsos_user_check_range_def Let_def word_less_nat_alt word_le_nat_alt)
  next
    case wrap: False
    have m: "unat (len - 1) = unat len - 1" using False by (simp add: unat_minus_one)
    have "unat (addr + (len - 1)) = unat addr + unat len - 1 - 2 ^ 64"
      using wrap l unat_u64_bound [of addr] unat_u64_bound [of len]
      by (simp add: unat_word_ariths(1) mod_if m)
    then have "unat ?last = unat addr + unat len - 1 - 2 ^ 64" by (simp add: add_diff_eq)
    then have "?last < addr"
      using wrap unat_u64_bound [of len] by (simp add: word_less_nat_alt)
    then show ?thesis
      using False wrap unat_u64_bound [of "limit r"] by (auto simp: mcsos_user_check_range_def Let_def)
  qed
qed (simp add: mcsos_user_check_range_def)

lemma sys_max_cases: "n < MCSOS_SYS_MAX \<longleftrightarrow> n \<in> {0, 1, 2, 3, 4}"
proof -
  have "n < 5 \<longleftrightarrow> unat n < 5" by (simp add: word_less_nat_alt)
  also have "\<dots> \<longleftrightarrow> n \<in> {0, 1, 2, 3, 4}"
  proof
    assume "unat n < 5"
    then have "unat n = 0 \<or> unat n = 1 \<or> unat n = 2 \<or> unat n = 3 \<or> unat n = 4" by linarith
    moreover have "n = of_nat (unat n)" by simp
    ultimately show "n \<in> {0, 1, 2, 3, 4}" by (elim disjE) simp_all
  qed auto
  finally show ?thesis by (simp add: MCSOS_SYS_MAX_def)
qed

subsection \<open>Properties\<close>

text \<open>A user range is accepted exactly when it is empty, or the region is set and the
  range lies inside it as a range of numbers, so a range that wraps around is refused.\<close>

theorem mcsos_user_check_range_exact:
  "mcsos_user_check_range r addr len =
     (len = 0 \<or> base r \<noteq> 0 \<and> unat (base r) \<le> unat addr \<and> unat addr + unat len \<le> unat (limit r))"
  by (rule check_range_iff)

text \<open>Copying from user memory copies exactly the bytes of a range inside the user
  region to the start of the destination; an empty copy succeeds, a null source gives EINVAL
  and a range outside EFAULT, with the destination unchanged.\<close>

theorem mcsos_copy_from_user_exact:
  assumes "unat len \<le> length d"
  shows "mcsos_copy_from_user r mem (Some d) src len =
    (if len = 0 then (MCSOS_OK, Some d)
     else if src = 0 then (MCSOS_EINVAL, Some d)
     else if base r \<noteq> 0 \<and> unat (base r) \<le> unat src \<and> unat src + unat len \<le> unat (limit r)
     then (MCSOS_OK, Some (map (\<lambda>i. mem (src + of_nat i)) [0..<unat len] @ drop (unat len) d))
     else (MCSOS_EFAULT, Some d))"
  using fold_set_prefix [OF assms, of "\<lambda>i. mem (src + of_nat i)"]
  by (simp add: mcsos_copy_from_user_def check_range_iff)

theorem mcsos_copy_from_user_exact_witness:
  "mcsos_copy_from_user \<lparr>base = 0x1000, limit = 0x2000\<rparr> (\<lambda>a. ucast a) (Some [9, 9, 9]) 0x1234 2 =
     (MCSOS_OK, Some [0x34, 0x35, 9])"
  using mcsos_copy_from_user_exact [of 2 "[9, 9, 9]" "\<lparr>base = 0x1000, limit = 0x2000\<rparr>" "\<lambda>a. ucast a" "0x1234"]
  by (simp add: upt_rec)

lemma dispatch_after_init:
  "mcsos_syscall_dispatch (mcsos_syscall_init o' g) n a0 a1 a2 a3 a4 a5 w =
    Some (if n = 0 then Some (0x2605020A, w)
      else if n = 1 then (case Option.bind o' get_ticks of None \<Rightarrow> Some (MCSOS_EBUSY, w)
        | Some f \<Rightarrow> map_option (map_prod sint id) (f w))
      else if n = 2 then
        (if a0 = 0 \<or> 4096 < unat a1 then Some (MCSOS_EINVAL, w)
         else if mcsos_user_check_range (g_user_region g) a0 a1
         then (case Option.bind o' write_serial of None \<Rightarrow> Some (sint a1, w) | Some f \<Rightarrow> f a0 a1 w)
         else Some (MCSOS_EFAULT, w))
      else if n = 3 then (case Option.bind o' yield_current of None \<Rightarrow> Some (MCSOS_EBUSY, w)
        | Some f \<Rightarrow> map_option (Pair MCSOS_OK) (f w))
      else if n = 4 then (case Option.bind o' exit_current of None \<Rightarrow> Some (MCSOS_EBUSY, w)
        | Some f \<Rightarrow> map_option (Pair MCSOS_OK) (f (sint (ucast a0 :: u32)) w))
      else Some (MCSOS_ENOSYS, w))"
proof -
  let ?g = "mcsos_syscall_init o' g"
  have region: "g_user_region ?g = g_user_region g" by (simp add: mcsos_syscall_init_def Let_def)
  have ops: "get_ticks (g_ops ?g) = Option.bind o' get_ticks"
      "yield_current (g_ops ?g) = Option.bind o' yield_current"
      "exit_current (g_ops ?g) = Option.bind o' exit_current"
      "write_serial (g_ops ?g) = (case Option.bind o' write_serial of
         None \<Rightarrow> Some default_write_serial | Some f \<Rightarrow> Some f)"
    by (cases o'; auto simp: mcsos_syscall_init_def Let_def split: option.splits)+
  have big: "4096 < a1 \<longleftrightarrow> 4096 < unat a1" by (simp add: word_less_nat_alt)
  show ?thesis
  proof (cases "n < MCSOS_SYS_MAX")
    case True
    then have "n \<in> {0, 1, 2, 3, 4}" by (simp add: sys_max_cases)
    then consider "n = 0" | "n = 1" | "n = 2" | "n = 3" | "n = 4" by blast
    then show ?thesis
      by cases (auto simp: mcsos_syscall_dispatch_def MCSOS_SYS_MAX_def g_table_def sys_ping_def
          sys_get_ticks_def sys_write_serial_def sys_yield_def sys_exit_thread_def region ops big
          word_le_nat_alt default_write_serial_def fun_eq_iff map_prod_def intro!: option.map_cong0
          split: option.splits prod.splits)
  next
    case False
    then have "n \<notin> {0, 1, 2, 3, 4}" by (simp add: sys_max_cases)
    then show ?thesis using False by (auto simp: mcsos_syscall_dispatch_def not_less)
  qed
qed

text \<open>C28: After initialisation with any operations no system call goes through a null
  pointer: each of the five numbers gives the result of its operation (and comes back when the
  operation does) or EBUSY when it is missing, with the argument checks of the serial write,
  and every other number gives ENOSYS with nothing done.\<close>

theorem mcsos_syscall_dispatch_exact:
  "mcsos_syscall_dispatch (mcsos_syscall_init o' g) n a0 a1 a2 a3 a4 a5 w =
    Some (if n = MCSOS_SYS_PING then Some (0x2605020A, w)
      else if n = MCSOS_SYS_GET_TICKS then (case Option.bind o' get_ticks of None \<Rightarrow> Some (MCSOS_EBUSY, w)
        | Some f \<Rightarrow> map_option (map_prod sint id) (f w))
      else if n = MCSOS_SYS_WRITE_SERIAL then
        (if a0 = 0 \<or> 4096 < unat a1 then Some (MCSOS_EINVAL, w)
         else if mcsos_user_check_range (g_user_region g) a0 a1
         then (case Option.bind o' write_serial of None \<Rightarrow> Some (sint a1, w) | Some f \<Rightarrow> f a0 a1 w)
         else Some (MCSOS_EFAULT, w))
      else if n = MCSOS_SYS_YIELD then (case Option.bind o' yield_current of None \<Rightarrow> Some (MCSOS_EBUSY, w)
        | Some f \<Rightarrow> map_option (Pair MCSOS_OK) (f w))
      else if n = MCSOS_SYS_EXIT_THREAD then (case Option.bind o' exit_current of None \<Rightarrow> Some (MCSOS_EBUSY, w)
        | Some f \<Rightarrow> map_option (Pair MCSOS_OK) (f (sint (ucast a0 :: u32)) w))
      else Some (MCSOS_ENOSYS, w))"
  unfolding dispatch_after_init by (simp add: mcsos_numbers)

text \<open>The entry through a frame stores the result of the dispatch in the frame and changes nothing else of
  it.\<close>

theorem mcsos_syscall_dispatch_frame_exact:
  "\<exists>res. mcsos_syscall_dispatch (mcsos_syscall_init o' g) (nr f) (arg0 f) (arg1 f) (arg2 f) (arg3 f) (arg4 f) (arg5 f) w =
      Some res \<and>
    mcsos_syscall_dispatch_frame (mcsos_syscall_init o' g) (Some f) w =
      Some (map_option (\<lambda>(r, w'). (Some (f\<lparr>ret := r\<rparr>), w')) res)"
  unfolding mcsos_syscall_dispatch_frame_def option.case dispatch_after_init by simp

text \<open>C29: A serial-write system call that changes anything, or does not come back, did so
  by calling the installed operation on a non-null buffer of at most 4096 bytes that lies
  inside the user region, or is empty.\<close>

theorem mcsos_syscall_write_confined:
  assumes "mcsos_syscall_dispatch g MCSOS_SYS_WRITE_SERIAL ptr len a2 a3 a4 a5 w = Some res" and "\<forall>r. res \<noteq> Some (r, w)"
  shows "\<exists>f. write_serial (g_ops g) = Some f \<and> f ptr len w = res \<and> ptr \<noteq> 0 \<and> unat len \<le> 4096 \<and>
    (len = 0 \<or> unat (base (g_user_region g)) \<le> unat ptr \<and>
      unat ptr + unat len \<le> unat (limit (g_user_region g)))"
  using assms
  by (auto simp: mcsos_syscall_dispatch_def mcsos_numbers g_table_def sys_write_serial_def
      check_range_iff word_less_nat_alt word_le_nat_alt split: if_splits option.splits)

definition demo_globals :: "nat syscall_globals" where
  "demo_globals = \<lparr>g_ops = \<lparr>get_ticks = None, yield_current = None, exit_current = None,
      write_serial = Some (\<lambda>p n w. Some (sint n, w + 1))\<rparr>, g_user_region = \<lparr>base = 0x1000, limit = 0x2000\<rparr>\<rparr>"

theorem mcsos_syscall_write_confined_witness:
  "mcsos_syscall_dispatch demo_globals MCSOS_SYS_WRITE_SERIAL 0x1010 8 0 0 0 0 0 = Some (Some (8, 1)) \<and>
   (\<exists>f. write_serial (g_ops demo_globals) = Some f \<and> f 0x1010 8 0 = Some (8, 1))"
proof -
  have d: "mcsos_syscall_dispatch demo_globals MCSOS_SYS_WRITE_SERIAL 0x1010 8 0 0 0 0 0 = Some (Some (8, 1))"
    by (simp add: mcsos_syscall_dispatch_def mcsos_numbers g_table_def sys_write_serial_def
        check_range_iff demo_globals_def)
  then show ?thesis using mcsos_syscall_write_confined [OF d] by auto
qed

end
