(* ===== verification/Port_IO.thy ===== *)
theory Port_IO
  imports Kernel_Prelude
begin

text \<open>
  Port input and output, the processor instructions the C code reaches through inline assembly
  (\<open>src/include/io.h\<close>, \<open>src/kernel/arch/x86_64/cpu.h\<close>), and the terminal they drive.

  \<^item> An \<open>io_event\<close> is one access to a port or one of \<open>cli\<close>, \<open>sti\<close>, \<open>hlt\<close> and
    \<open>lidt\<close> (with the limit and base it loads); a run of the code is
    the list of its events, the history. The hardware is a parameter: a \<open>device\<close> says which
    byte a read of a port gives after a history, and nothing is assumed of it unless a theorem
    says so.
  \<^item> A piece of code is a function of the history (\<open>'a io\<close>): it returns a value, or stops in an
    endless \<open>hlt\<close> loop (\<open>Halts\<close>), or it spins forever, leaves what C defines, or raises an exception
    that the processor cannot deliver (\<open>None\<close>).
    \<open>io_bind\<close>, \<open>io_seq\<close> and \<open>io_all\<close> are the sequencing of the source.
  \<^item> \<open>prints\<close> says of a piece of code that from every history it returns, writes exactly the given
    characters to the data register of the first serial port and otherwise only reads the port's
    line status. The locale \<open>console\<close> is the contract of a routine that writes a C string; the
    three writers of the sources are its instances in \<open>Serial\<close>.
\<close>

datatype io_event = Out u16 u8 | In u16 u8 | Cli | Sti | Hlt | Lidt u16 u64

type_synonym history = "io_event list"
type_synonym device = "history \<Rightarrow> u16 \<Rightarrow> u8"

datatype 'a outcome = Returns 'a history | Halts history

type_synonym 'a io = "history \<Rightarrow> 'a outcome option"

definition io_return :: "'a \<Rightarrow> 'a io" where
  "io_return a = (\<lambda>h. Some (Returns a h))"

definition io_bind :: "'a io \<Rightarrow> ('a \<Rightarrow> 'b io) \<Rightarrow> 'b io" where
  "io_bind m f = (\<lambda>h. case m h of
     None \<Rightarrow> None
   | Some (Halts h') \<Rightarrow> Some (Halts h')
   | Some (Returns a h') \<Rightarrow> f a h')"

definition io_seq :: "'a io \<Rightarrow> 'b io \<Rightarrow> 'b io" where
  "io_seq m n = io_bind m (\<lambda>_. n)"

definition io_all :: "unit io list \<Rightarrow> unit io" where
  "io_all ms = foldr io_seq ms (io_return ())"

definition io_event :: "io_event \<Rightarrow> unit io" where
  "io_event e = (\<lambda>h. Some (Returns () (h @ [e])))"

subsection \<open>Ports and processor instructions\<close>

definition outb :: "u16 \<Rightarrow> u8 \<Rightarrow> unit io" where
  "outb port v = io_event (Out port v)"

definition inb :: "device \<Rightarrow> u16 \<Rightarrow> u8 io" where
  "inb d port = (\<lambda>h. Some (Returns (d h port) (h @ [In port (d h port)])))"

definition io_wait :: "unit io" where
  "io_wait = outb 0x80 0"

definition cpu_cli :: "unit io" where "cpu_cli = io_event Cli"
definition cpu_sti :: "unit io" where "cpu_sti = io_event Sti"
definition cpu_hlt :: "unit io" where "cpu_hlt = io_event Hlt"

text \<open>The endless loops around \<open>hlt\<close>: the run stays halted. The history ends with the first
  round of the loop.\<close>

definition halt_loop :: "'a io" where
  "halt_loop = (\<lambda>h. Some (Halts (h @ [Hlt])))"

definition infinite_hlt :: "'a io" where
  "infinite_hlt = (\<lambda>h. Some (Halts (h @ [Cli, Hlt])))"

subsection \<open>Laws of sequencing\<close>

lemma io_bind_return [simp]: "io_bind (io_return a) f = f a"
  by (simp add: io_bind_def io_return_def)

lemma io_bind_halt [simp]: "io_bind halt_loop f = halt_loop"
  by (simp add: io_bind_def halt_loop_def fun_eq_iff)

lemma io_seq_halt [simp]: "io_seq halt_loop m = halt_loop"
  by (simp add: io_seq_def)

lemma io_seq_return [simp]: "io_seq (io_return a) m = m"
  by (simp add: io_seq_def)

lemma io_bind_assoc: "io_bind (io_bind m f) g = io_bind m (\<lambda>a. io_bind (f a) g)"
  by (simp add: io_bind_def fun_eq_iff split: option.split outcome.split)

lemma io_seq_assoc: "io_seq (io_seq m n) k = io_seq m (io_seq n k)"
  by (simp add: io_seq_def io_bind_assoc)

lemma io_all_simps [simp]:
  "io_all [] = io_return ()"
  "io_all (m # ms) = io_seq m (io_all ms)"
  by (simp_all add: io_all_def)

lemma io_bind_Returns: "m h = Some (Returns a h') \<Longrightarrow> io_bind m f h = f a h'"
  by (simp add: io_bind_def)

lemma io_seq_Returns: "m h = Some (Returns a h') \<Longrightarrow> io_seq m n h = n h'"
  by (simp add: io_seq_def io_bind_Returns)

lemma io_seq_event: "io_seq (io_event e) m h = m (h @ [e])"
  by (simp add: io_seq_def io_bind_def io_event_def)

lemma io_bind_inb: "io_bind (inb d port) f h = f (d h port) (h @ [In port (d h port)])"
  by (simp add: io_bind_def inb_def)

text \<open>A straight line of port writes appends exactly these events.\<close>

lemma io_all_outb:
  "io_all (map (\<lambda>(p, v). outb p v) pvs) h = Some (Returns () (h @ map (\<lambda>(p, v). Out p v) pvs))"
proof (induction pvs arbitrary: h)
  case Nil
  then show ?case by (simp add: io_return_def)
next
  case (Cons x pvs)
  then show ?case by (cases x) (simp add: outb_def io_seq_event)
qed

lemmas io_simps = outb_def io_wait_def cpu_cli_def cpu_sti_def cpu_hlt_def
  io_seq_event io_bind_inb io_seq_assoc io_bind_assoc

subsection \<open>C strings\<close>

definition cstr :: "string \<Rightarrow> string" where
  "cstr s = s @ [CHR 0x00]"

definition nul_free :: "string \<Rightarrow> bool" where
  "nul_free s \<longleftrightarrow> CHR 0x00 \<notin> set s"

lemma nul_free_simps [simp]:
  "nul_free []"
  "nul_free (c # s) \<longleftrightarrow> c \<noteq> CHR 0x00 \<and> nul_free s"
  "nul_free (s @ t) \<longleftrightarrow> nul_free s \<and> nul_free t"
  by (auto simp: nul_free_def)

subsection \<open>Printing on the first serial port\<close>

definition COM1 :: u16 where "COM1 = 0x3f8"

text \<open>The characters an event writes to the data register, and the events a polling or a blind
  writer may cause.\<close>

fun written :: "history \<Rightarrow> string" where
  "written [] = []"
| "written (Out p v # es) = (if p = COM1 then char_of (unat v) # written es else written es)"
| "written (_ # es) = written es"

fun serial_event :: "io_event \<Rightarrow> bool" where
  "serial_event (Out p v) = (p = COM1)"
| "serial_event (In p v) = (p = COM1 + 5)"
| "serial_event _ = False"

lemma written_append [simp]: "written (es @ fs) = written es @ written fs"
  by (induction es rule: written.induct) simp_all

definition prints :: "unit io \<Rightarrow> string \<Rightarrow> bool" where
  "prints m s \<longleftrightarrow> (\<forall>h. \<exists>es. m h = Some (Returns () (h @ es)) \<and> written es = s \<and> list_all serial_event es)"

lemma printsE:
  assumes "prints m s"
  obtains es where "m h = Some (Returns () (h @ es))" "written es = s" "list_all serial_event es"
  using assms unfolding prints_def by blast

lemma prints_return [intro]: "prints (io_return ()) []"
  by (auto simp: prints_def io_return_def intro!: exI [of _ "[]"])

lemma prints_seq [intro]:
  assumes "prints m s" and "prints n t"
  shows "prints (io_seq m n) (s @ t)"
  unfolding prints_def
proof
  fix h
  obtain es where es: "m h = Some (Returns () (h @ es))" "written es = s" "list_all serial_event es"
    using assms(1) by (rule printsE)
  obtain fs where fs: "n (h @ es) = Some (Returns () ((h @ es) @ fs))" "written fs = t"
      "list_all serial_event fs"
    using assms(2) by (rule printsE)
  show "\<exists>fs. io_seq m n h = Some (Returns () (h @ fs)) \<and> written fs = s @ t \<and> list_all serial_event fs"
    using es fs by (intro exI [of _ "es @ fs"]) (simp add: io_seq_Returns)
qed

lemma prints_all:
  assumes "list_all2 prints ms ss"
  shows "prints (io_all ms) (concat ss)"
  using assms by (induction) auto

lemma char_of_byte [simp]: "char_of (unat (of_char c :: u8)) = c"
proof -
  have "unat (of_nat (of_char c) :: u8) = of_char c"
    by (simp add: unat_of_nat)
  then show ?thesis by (simp only: of_nat_of_char char_of_char)
qed

lemma prints_outb: "prints (outb COM1 (of_char c)) [c]"
  by (auto simp: prints_def outb_def io_event_def intro!: exI [of _ "[Out COM1 (of_char c)]"])

lemma prints_then:
  assumes "prints m s"
  shows "\<exists>es. io_seq m n h = n (h @ es) \<and> written es = s \<and> list_all serial_event es"
  using assms by (rule printsE [where h = h]) (auto simp: io_seq_Returns)

locale console =
  fixes puts :: "device \<Rightarrow> string \<Rightarrow> unit io" and ready :: "device \<Rightarrow> bool"
    and shown :: "string \<Rightarrow> string"
  assumes puts_prints: "\<lbrakk>ready d; nul_free s\<rbrakk> \<Longrightarrow> prints (puts d (cstr s)) (shown s)"
begin

text \<open>A sequence of messages is printed in order and nothing else is.\<close>

lemma puts_all:
  assumes "ready d" and "list_all nul_free ss"
  shows "prints (io_all (map (\<lambda>s. puts d (cstr s)) ss)) (concat (map shown ss))"
  using assms by (intro prints_all) (auto simp: list_all2_conv_all_nth list_all_length puts_prints)

end

end
