(* ===== verification/Serial.thy ===== *)
theory Serial
  imports Port_IO
begin

text \<open>
  The serial console: \<open>src/kernel/driver/serial.c\<close>, the logs of both kernels
  (\<open>src/kernel/core/log.c\<close>, \<open>src/mcsos/mcsos/kernel/log.h\<close>), the early writers of
  \<open>src/kmain.c\<close> and \<open>src/mcsos/kmain.c\<close>, and the panic paths (\<open>src/kernel/core/panic.c\<close>,
  \<open>src/src/panic.c\<close>, \<open>src/mcsos/mcsos/kernel/panic.h\<close>).

  A C string is the list of characters of the object from the pointer on; reading past its end is
  not defined and gives \<open>None\<close>, so every theorem that a writer returns also shows that the string it
  reads is terminated. The arrays the digits are written to have the length of the source, and a
  write below their start gives \<open>None\<close> as well. The wait for the transmitter is a
  \<open>partial_function\<close>, since a port that never becomes ready keeps it forever.
\<close>

subsection \<open>The driver\<close>

definition serial_ready :: "device \<Rightarrow> bool io" where
  "serial_ready d = io_bind (inb d (COM1 + 5)) (\<lambda>v. io_return (v AND 0x20 \<noteq> 0))"

definition serial_init :: "unit io" where
  "serial_init = io_all
     [outb (COM1 + 1) 0x00,
      outb (COM1 + 3) 0x80,
      outb (COM1 + 0) 0x03,
      outb (COM1 + 1) 0x00,
      outb (COM1 + 3) 0x03,
      outb (COM1 + 2) 0xC7,
      outb (COM1 + 4) 0x0B]"

partial_function (option) serial_wait :: "device \<Rightarrow> history \<Rightarrow> unit outcome option" where
  "serial_wait d h =
     (case serial_ready d h of
        Some (Returns r h') \<Rightarrow> if r then Some (Returns () h') else serial_wait d h'
      | _ \<Rightarrow> None)"

definition serial_write_char :: "device \<Rightarrow> char \<Rightarrow> unit io" where
  "serial_write_char d c = io_seq (serial_wait d) (outb COM1 (of_char c))"

fun serial_send_string :: "device \<Rightarrow> string \<Rightarrow> unit io" where
  "serial_send_string d [] = (\<lambda>h. None)"
| "serial_send_string d (c # s) =
     (if c = CHR 0x00 then io_return ()
      else io_seq (serial_write_char d c) (serial_send_string d s))"

definition serial_write_string :: "device \<Rightarrow> string \<Rightarrow> unit io" where
  "serial_write_string d s = serial_send_string d s"

definition serial_hex_fill :: "u64 \<Rightarrow> string \<Rightarrow> string" where
  "serial_hex_fill v buf =
     (fold (\<lambda>i buf. buf[2 + i := ''0123456789abcdef'' ! unat (drop_bit (60 - i * 4) v AND 0xf)])
        [0..<16] (buf[0 := CHR ''0'', 1 := CHR ''x'']))[18 := CHR 0x00]"

definition serial_write_hex64 :: "device \<Rightarrow> u64 \<Rightarrow> unit io" where
  "serial_write_hex64 d v = serial_send_string d (serial_hex_fill v (replicate 19 (CHR 0x00)))"

fun serial_dec_loop :: "u64 \<Rightarrow> nat \<Rightarrow> string \<Rightarrow> (nat \<times> string) option" where
  "serial_dec_loop v i buf =
     (if v > 0
      then if i = 0 then None
           else serial_dec_loop (v div 10) (i - 1) (buf[i - 1 := char_of (48 + unat (v mod 10))])
      else Some (i, buf))"

declare serial_dec_loop.simps [simp del]

definition serial_dec_fill :: "u64 \<Rightarrow> string \<Rightarrow> (nat \<times> string) option" where
  "serial_dec_fill v buf =
     (let buf = buf[20 := CHR 0x00]
      in if v = 0 then Some (19, buf[19 := CHR ''0'']) else serial_dec_loop v 20 buf)"

definition serial_write_dec64 :: "device \<Rightarrow> u64 \<Rightarrow> unit io" where
  "serial_write_dec64 d v =
     (case serial_dec_fill v (replicate 21 (CHR 0x00)) of
        None \<Rightarrow> (\<lambda>h. None)
      | Some (i, buf) \<Rightarrow> serial_send_string d (drop i buf))"

subsection \<open>The log of the first kernel\<close>

definition log_write :: "device \<Rightarrow> string \<Rightarrow> unit io" where
  "log_write d s = serial_send_string d s"

definition log_hex_fill :: "u64 \<Rightarrow> string \<Rightarrow> string" where
  "log_hex_fill val buf =
     (snd (fold (\<lambda>i (val, buf). (drop_bit 4 val, buf[i + 2 := ''0123456789ABCDEF'' ! unat (val AND 0xF)]))
        (rev [0..<16]) (val, buf[0 := CHR ''0'', 1 := CHR ''x''])))[18 := CHR 0x00]"

definition log_hex64 :: "device \<Rightarrow> u64 \<Rightarrow> unit io" where
  "log_hex64 d val = log_write d (log_hex_fill val (replicate 19 (CHR 0x00)))"

subsection \<open>The log of the second kernel\<close>

definition log_init :: "unit io" where
  "log_init = io_all
     [outb (0x3F8 + 1) 0x00,
      outb (0x3F8 + 3) 0x80,
      outb (0x3F8 + 0) 0x03,
      outb (0x3F8 + 1) 0x00,
      outb (0x3F8 + 3) 0x03,
      outb (0x3F8 + 2) 0xC7,
      outb (0x3F8 + 4) 0x0B]"

definition is_transmit_empty :: "device \<Rightarrow> u8 io" where
  "is_transmit_empty d = io_bind (inb d (0x3F8 + 5)) (\<lambda>v. io_return (v AND 0x20))"

partial_function (option) wait_transmit_empty :: "device \<Rightarrow> history \<Rightarrow> unit outcome option" where
  "wait_transmit_empty d h =
     (case is_transmit_empty d h of
        Some (Returns v h') \<Rightarrow> if v = 0 then wait_transmit_empty d h' else Some (Returns () h')
      | _ \<Rightarrow> None)"

fun log_writeln :: "device \<Rightarrow> string \<Rightarrow> unit io" where
  "log_writeln d [] = (\<lambda>h. None)"
| "log_writeln d (c # m) =
     (if c \<noteq> CHR 0x00
      then io_seq (wait_transmit_empty d) (io_seq (outb 0x3F8 (of_char c)) (log_writeln d m))
      else io_all
        [wait_transmit_empty d, outb 0x3F8 (of_char CHR 0x0D),
         wait_transmit_empty d, outb 0x3F8 (of_char CHR 0x0A)])"

definition nibble_char :: "nat \<Rightarrow> char" where
  "nibble_char nibble = (if nibble < 10 then char_of (48 + nibble) else char_of (65 + nibble - 10))"

definition key_value_hex_fill :: "u64 \<Rightarrow> string \<Rightarrow> string" where
  "key_value_hex_fill v buf =
     (fold (\<lambda>i buf. buf[17 - i := nibble_char (unat (drop_bit (i * 4) v AND 0xF))])
        (rev [0..<16]) (buf[0 := CHR ''0'', 1 := CHR ''x'']))[18 := CHR 0x00]"

definition log_key_value_hex64 :: "device \<Rightarrow> string \<Rightarrow> u64 \<Rightarrow> unit io" where
  "log_key_value_hex64 d k v =
     io_seq (log_writeln d k) (log_writeln d (key_value_hex_fill v (replicate 19 (CHR 0x00))))"

subsection \<open>The early writers\<close>

definition early_serial_init :: "unit io" where
  "early_serial_init = io_all
     [outb (0x3f8 + 1) 0x00,
      outb (0x3f8 + 3) 0x80,
      outb (0x3f8 + 0) 0x03,
      outb (0x3f8 + 1) 0x00,
      outb (0x3f8 + 3) 0x03]"

fun early_serial_puts :: "string \<Rightarrow> unit io" where
  "early_serial_puts [] = (\<lambda>h. None)"
| "early_serial_puts (c # s) =
     (if c = CHR 0x00 then io_return ()
      else io_seq (outb 0x3f8 (of_char c)) (early_serial_puts s))"

fun m6_serial_write_string :: "string \<Rightarrow> unit io" where
  "m6_serial_write_string [] = (\<lambda>h. None)"
| "m6_serial_write_string (c # s) =
     (if c = CHR 0x00 then io_return ()
      else io_seq (outb 0x3F8 (of_char c)) (m6_serial_write_string s))"

subsection \<open>Panic paths\<close>

definition kernel_panic_at :: "device \<Rightarrow> string \<Rightarrow> int \<Rightarrow> string \<Rightarrow> 'a io" where
  "kernel_panic_at d fname line msg =
     io_seq (io_all
       [cpu_cli,
        log_write d (cstr (CHR 0x0D # CHR 0x0A # ''[!!!] KERNEL PANIC [!!!]'' @ [CHR 0x0D, CHR 0x0A])),
        log_write d (cstr ''FILE: ''),
        log_write d fname,
        log_write d (cstr (CHR 0x0D # CHR 0x0A # ''MSG : '')),
        log_write d msg,
        log_write d (cstr (CHR 0x0D # CHR 0x0A # ''SYSTEM HALTED.'' @ [CHR 0x0D, CHR 0x0A]))])
     infinite_hlt"

definition halt_forever :: "'a io" where
  "halt_forever = io_seq cpu_cli halt_loop"

definition kernel_panic :: "device \<Rightarrow> string \<Rightarrow> u64 \<Rightarrow> 'a io" where
  "kernel_panic d reason code =
     io_seq (io_all
       [cpu_cli,
        serial_write_string d (cstr (CHR 0x0A # ''[MCSOS:PANIC] '')),
        serial_write_string d reason,
        serial_write_string d (cstr '' code=''),
        serial_write_hex64 d code,
        serial_write_string d (cstr [CHR 0x0A])])
     halt_loop"

definition mcsos_kernel_panic_at :: "string \<Rightarrow> int \<Rightarrow> string \<Rightarrow> 'a io" where
  "mcsos_kernel_panic_at fname line msg = halt_loop"

definition KERNEL_ASSERT :: "bool \<Rightarrow> string \<Rightarrow> int \<Rightarrow> string \<Rightarrow> unit io" where
  "KERNEL_ASSERT b fname line expr =
     (if \<not> b then mcsos_kernel_panic_at fname line expr else io_return ())"

subsection \<open>Waiting for the transmitter\<close>

text \<open>The history after reading the line status \<open>n\<close> times, and the documented behaviour of the
  port the polling writers rely on: the transmitter holding register becomes empty again.\<close>

fun polled :: "device \<Rightarrow> nat \<Rightarrow> history \<Rightarrow> history" where
  "polled d 0 h = h"
| "polled d (Suc n) h = polled d n (h @ [In (COM1 + 5) (d h (COM1 + 5))])"

definition transmitter_ready :: "device \<Rightarrow> history \<Rightarrow> bool" where
  "transmitter_ready d h \<longleftrightarrow> d h (COM1 + 5) AND 0x20 \<noteq> 0"

definition uart_responsive :: "device \<Rightarrow> bool" where
  "uart_responsive d \<longleftrightarrow> (\<forall>h. \<exists>n. transmitter_ready d (polled d n h))"

lemma serial_wait_unfold:
  "serial_wait d h =
     (if transmitter_ready d h then Some (Returns () (polled d 1 h)) else serial_wait d (polled d 1 h))"
  by (subst serial_wait.simps)
    (simp add: serial_ready_def io_bind_inb io_return_def transmitter_ready_def)

lemma polled_add: "polled d m (polled d n h) = polled d (n + m) h"
  by (induction n arbitrary: h) simp_all

lemma wait_transmit_empty_eq: "wait_transmit_empty = serial_wait"
proof -
  have le: "serial_wait d h = Some r" if "wait_transmit_empty d h = Some r" for d h r
    using that
  proof (rule wait_transmit_empty.raw_induct [where P = "\<lambda>d h r. serial_wait d h = Some r", rotated], goal_cases)
    case (1 f d h r)
    then show ?case
      by (subst serial_wait_unfold)
        (auto simp: is_transmit_empty_def io_bind_inb io_return_def transmitter_ready_def COM1_def
          split: if_splits)
  qed
  have ge: "wait_transmit_empty d h = Some r" if "serial_wait d h = Some r" for d h r
    using that
  proof (rule serial_wait.raw_induct [where P = "\<lambda>d h r. wait_transmit_empty d h = Some r", rotated], goal_cases)
    case (1 f d h r)
    then show ?case
      by (subst wait_transmit_empty.simps)
        (auto simp: is_transmit_empty_def serial_ready_def io_bind_inb io_return_def COM1_def
          split: if_splits)
  qed
  show ?thesis
  proof (intro ext)
    fix d h
    show "wait_transmit_empty d h = serial_wait d h"
      using le [of d h] ge [of d h] by (cases "wait_transmit_empty d h"; cases "serial_wait d h") auto
  qed
qed

lemma serial_wait_ready:
  assumes "transmitter_ready d (polled d n h)"
  shows "\<exists>k. serial_wait d h = Some (Returns () (polled d (Suc k) h))"
  using assms
proof (induction n arbitrary: h)
  case 0
  then show ?case by (subst serial_wait_unfold) (auto intro: exI [of _ 0])
next
  case (Suc n)
  then obtain k where k: "serial_wait d (polled d 1 h) = Some (Returns () (polled d (Suc k) (polled d 1 h)))"
    using Suc.IH [of "polled d 1 h"] by (auto simp del: polled.simps(2) simp: polled_add)
  show ?case
  proof (cases "transmitter_ready d h")
    case True
    then show ?thesis by (subst serial_wait_unfold) (auto intro: exI [of _ 0])
  next
    case False
    with k show ?thesis by (subst serial_wait_unfold) (auto intro: exI [of _ "Suc k"])
  qed
qed

lemma serial_wait_returns_ready:
  assumes "serial_wait d h = Some r"
  shows "\<exists>n. transmitter_ready d (polled d n h)"
  using assms
proof (rule serial_wait.raw_induct [where P = "\<lambda>d h r. \<exists>n. transmitter_ready d (polled d n h)", rotated], goal_cases)
  case (1 f d h r)
  show ?case
  proof (cases "transmitter_ready d h")
    case True
    then show ?thesis by (intro exI [of _ 0]) simp
  next
    case False
    then have "f d (polled d 1 h) = Some r"
      using 1(2) by (simp add: serial_ready_def io_bind_inb io_return_def transmitter_ready_def)
    then obtain n where "transmitter_ready d (polled d n (polled d 1 h))" using 1(1) by blast
    then show ?thesis by (intro exI [of _ "Suc n"]) simp
  qed
qed

lemma polled_traffic: "\<exists>es. polled d n h = h @ es \<and> written es = [] \<and> list_all serial_event es"
proof (induction n arbitrary: h)
  case 0
  then show ?case by (auto intro: exI [of _ "[]"])
next
  case (Suc n)
  let ?e = "In (COM1 + 5) (d h (COM1 + 5))"
  obtain es where "polled d n (h @ [?e]) = (h @ [?e]) @ es \<and> written es = [] \<and> list_all serial_event es"
    using Suc by blast
  then show ?case by (intro exI [of _ "?e # es"]) simp
qed

lemma prints_serial_wait:
  assumes "uart_responsive d"
  shows "prints (serial_wait d) []"
  unfolding prints_def
proof
  fix h
  obtain k where k: "serial_wait d h = Some (Returns () (polled d (Suc k) h))"
    using assms serial_wait_ready unfolding uart_responsive_def by blast
  obtain es where "polled d (Suc k) h = h @ es \<and> written es = [] \<and> list_all serial_event es"
    using polled_traffic by blast
  with k show "\<exists>es. serial_wait d h = Some (Returns () (h @ es)) \<and> written es = [] \<and> list_all serial_event es"
    by auto
qed

subsection \<open>The writers meet the contract of a console\<close>

lemma prints_serial_write_char:
  assumes "uart_responsive d"
  shows "prints (serial_write_char d c) [c]"
  using prints_seq [OF prints_serial_wait [OF assms] prints_outb, of c] by (simp add: serial_write_char_def)

lemma prints_serial_send_string:
  assumes "uart_responsive d" and "nul_free s"
  shows "prints (serial_send_string d (s @ CHR 0x00 # t)) s"
  using assms(2)
proof (induction s)
  case Nil
  then show ?case by (simp add: prints_return)
next
  case (Cons c s)
  then have "prints (serial_send_string d (s @ CHR 0x00 # t)) s" by simp
  from prints_seq [OF prints_serial_write_char [OF assms(1), of c] this] Cons.prems show ?case by simp
qed

lemma prints_log_writeln:
  assumes "uart_responsive d" and "nul_free s"
  shows "prints (log_writeln d (s @ CHR 0x00 # t)) (s @ [CHR 0x0D, CHR 0x0A])"
  using assms(2)
proof (induction s)
  case Nil
  have "prints (io_all [wait_transmit_empty d, outb COM1 (of_char CHR 0x0D),
         wait_transmit_empty d, outb COM1 (of_char CHR 0x0A)]) (concat [[], [CHR 0x0D], [], [CHR 0x0A]])"
    by (rule prints_all)
      (simp add: wait_transmit_empty_eq prints_serial_wait assms(1) prints_outb del: of_char_Char)
  then show ?case by (simp add: COM1_def del: of_char_Char)
next
  case (Cons c s)
  then have "prints (log_writeln d (s @ CHR 0x00 # t)) (s @ [CHR 0x0D, CHR 0x0A])" by simp
  from prints_seq [OF prints_outb this, of c] have
    "prints (io_seq (outb COM1 (of_char c)) (log_writeln d (s @ CHR 0x00 # t))) (c # s @ [CHR 0x0D, CHR 0x0A])"
    by simp
  from prints_seq [OF prints_serial_wait [OF assms(1)] this] Cons.prems show ?case
    by (simp add: wait_transmit_empty_eq COM1_def)
qed

lemma prints_early_serial_puts:
  assumes "nul_free s"
  shows "prints (early_serial_puts (s @ CHR 0x00 # t)) s"
  using assms
proof (induction s)
  case Nil
  then show ?case by (simp add: prints_return)
next
  case (Cons c s)
  then have "prints (early_serial_puts (s @ CHR 0x00 # t)) s" by simp
  from prints_seq [OF prints_outb this, of c] Cons.prems show ?case by (simp add: COM1_def)
qed

lemma m6_serial_write_string_eq: "m6_serial_write_string = early_serial_puts"
proof
  fix s
  show "m6_serial_write_string s = early_serial_puts s" by (induction s) simp_all
qed

interpretation serial: console serial_send_string uart_responsive "\<lambda>s. s"
  by unfold_locales (simp add: cstr_def prints_serial_send_string)

interpretation mcsos_log: console log_writeln uart_responsive "\<lambda>s. s @ [CHR 0x0D, CHR 0x0A]"
  by unfold_locales (simp add: cstr_def prints_log_writeln)

interpretation early: console "\<lambda>d. early_serial_puts" "\<lambda>d. True" "\<lambda>s. s"
  by unfold_locales (simp add: cstr_def prints_early_serial_puts)

subsection \<open>Filling an array by index\<close>

lemma fold_fill:
  assumes "k + n \<le> length buf"
  shows "fold (\<lambda>i buf. buf[k + i := g i]) [0..<n] buf = take k buf @ map g [0..<n] @ drop (k + n) buf"
  using assms
proof (induction n)
  case 0
  then show ?case by simp
next
  case (Suc n)
  then have "drop (k + n) buf = buf ! (k + n) # drop (Suc (k + n)) buf"
    by (intro Cons_nth_drop_Suc [symmetric]) simp
  with Suc show ?case by (simp add: list_update_append)
qed

lemma fold_fill_down:
  assumes "k + n \<le> length buf"
  shows "fold (\<lambda>i buf. buf[i + k := g i]) (rev [0..<n]) buf = take k buf @ map g [0..<n] @ drop (k + n) buf"
  using assms
proof (induction n arbitrary: buf)
  case 0
  then show ?case by simp
next
  case (Suc n)
  then have "drop (k + n) buf = buf ! (k + n) # drop (Suc (k + n)) buf"
    by (intro Cons_nth_drop_Suc [symmetric]) simp
  with Suc show ?case by (simp add: drop_update_swap add.commute)
qed

lemma fold_shift_fill:
  fixes x :: "'a::len word"
  shows "snd (fold (\<lambda>i (x, buf). (drop_bit 4 x, buf[i + k := g x])) (rev [0..<n]) (x, buf)) =
         fold (\<lambda>i buf. buf[i + k := g (drop_bit (4 * (n - 1 - i)) x)]) (rev [0..<n]) buf"
proof (induction n arbitrary: x buf)
  case 0
  then show ?case by simp
next
  case (Suc n)
  have "fold (\<lambda>i buf. buf[i + k := g (drop_bit (4 * (n - 1 - i)) (drop_bit 4 x))]) (rev [0..<n]) b =
        fold (\<lambda>i buf. buf[i + k := g (drop_bit (4 * (n - i)) x)]) (rev [0..<n]) b" for b
    by (rule fold_cong) (auto simp: algebra_simps)
  with Suc show ?case by simp
qed

subsection \<open>Hexadecimal numerals\<close>

text \<open>The digits of a 64-bit value, most significant first, and the value a reader computes from
  them.\<close>

definition nibbles :: "u64 \<Rightarrow> nat list" where
  "nibbles v = map (\<lambda>i. unat (drop_bit (4 * (15 - i)) v AND 0xf)) [0..<16]"

definition upper_digit :: "nat \<Rightarrow> char" where "upper_digit n = ''0123456789ABCDEF'' ! n"
definition lower_digit :: "nat \<Rightarrow> char" where "lower_digit n = ''0123456789abcdef'' ! n"

definition digit_value :: "char \<Rightarrow> nat" where
  "digit_value c =
     (let n = of_char c in if n < 58 then n - 48 else if n < 71 then n - 55 else n - 87)"

definition numeral_value :: "nat \<Rightarrow> string \<Rightarrow> nat" where
  "numeral_value b s = foldl (\<lambda>a c. b * a + digit_value c) 0 s"

lemma less_16_cases:
  assumes "n < (16 :: nat)"
  shows "n \<in> {0, 1, 2, 3, 4, 5, 6, 7, 8, 9, 10, 11, 12, 13, 14, 15}"
  using assms by (simp only: insert_iff empty_iff) presburger

lemma nibble_facts:
  assumes "n < 16"
  shows "digit_value (upper_digit n) = n" and "digit_value (lower_digit n) = n"
    and "upper_digit n \<noteq> CHR 0x00" and "lower_digit n \<noteq> CHR 0x00" and "nibble_char n = upper_digit n"
  using less_16_cases [OF assms]
  by (auto simp: digit_value_def upper_digit_def lower_digit_def nibble_char_def char_of_def bit_iff_odd)

lemma nibble_less: "unat (x AND (0xf :: u64)) < 16"
proof -
  have "x AND 0xf = x AND mask 4" by (simp add: mask_eq_exp_minus_1)
  then show ?thesis by (simp only: unat_and_mask) simp
qed

lemma nibbles_less: "n \<in> set (nibbles v) \<Longrightarrow> n < 16"
  using nibble_less by (auto simp: nibbles_def)

lemma length_nibbles [simp]: "length (nibbles v) = 16"
  by (simp add: nibbles_def)

lemma drop_bit_nibble: "unat (drop_bit k v AND (0xf :: u64)) = unat v div 2 ^ k mod 16"
proof -
  have "drop_bit k v AND 0xf = drop_bit k v AND mask 4" by (simp add: mask_eq_exp_minus_1)
  then show ?thesis by (simp only: unat_and_mask unat_drop_bit_eq) (simp add: drop_bit_eq_div)
qed

lemma nibbles_prefix:
  "foldl (\<lambda>a n. 16 * a + n) 0 (map (\<lambda>i. x div 2 ^ (4 * (k - i)) mod 16) [0..<m]) =
     x div 2 ^ (4 * (Suc k - m)) mod 16 ^ m"
  if "m \<le> Suc k" for x :: nat
  using that
proof (induction m)
  case 0
  then show ?case by simp
next
  case (Suc m)
  let ?y = "x div 2 ^ (4 * (k - m))"
  have e: "Suc k - m = Suc (k - m)" using Suc.prems by simp
  have "x div 2 ^ (4 * (Suc k - m)) = ?y div 16"
    unfolding e by (simp add: div_mult2_eq [symmetric] power_add mult.commute)
  then have "16 * (x div 2 ^ (4 * (Suc k - m)) mod 16 ^ m) + ?y mod 16 = ?y mod 16 ^ Suc m"
    by (simp add: mod_mult2_eq)
  with Suc show ?case by simp
qed

lemma nibbles_value: "foldl (\<lambda>a n. 16 * a + n) 0 (nibbles v) = unat v"
proof -
  have "nibbles v = map (\<lambda>i. unat v div 2 ^ (4 * (15 - i)) mod 16) [0..<16]"
    by (simp only: nibbles_def drop_bit_nibble)
  then show ?thesis
    using nibbles_prefix [of 16 15 "unat v"] unat_u64_bound [of v] by simp
qed

lemma foldl_digits:
  assumes "\<And>n. n \<in> set ns \<Longrightarrow> digit_value (f n) = n"
  shows "foldl (\<lambda>a c. b * a + digit_value c) a (map f ns) = foldl (\<lambda>a n. b * a + n) a ns"
  using assms by (induction ns arbitrary: a) simp_all

lemma numeral_value_nibbles:
  "numeral_value 16 (map upper_digit (nibbles v)) = unat v"
  "numeral_value 16 (map lower_digit (nibbles v)) = unat v"
  unfolding numeral_value_def
  by (simp_all only: foldl_digits nibble_facts nibbles_less nibbles_value)

lemma nul_free_nibbles:
  "nul_free (map upper_digit (nibbles v))" "nul_free (map lower_digit (nibbles v))"
  using nibbles_less nibble_facts(3,4) by (fastforce simp: nul_free_def)+

subsection \<open>What the hexadecimal writers put into their arrays\<close>

lemma hex_fill_end:
  fixes buf :: string
  assumes filled: "b = take 2 (buf[0 := CHR ''0'', 1 := CHR ''x'']) @ map f (nibbles v) @
      drop (2 + 16) (buf[0 := CHR ''0'', 1 := CHR ''x''])" and len: "length buf = 19"
  shows "b[18 := CHR 0x00] = ''0x'' @ map f (nibbles v) @ [CHR 0x00]"
proof -
  have start: "take 2 (buf[0 := CHR ''0'', 1 := CHR ''x'']) = ''0x''"
    using len by (intro nth_equalityI) (auto simp: nth_list_update less_Suc_eq numeral_2_eq_2)
  have rest: "drop (2 + 16) (buf[0 := CHR ''0'', 1 := CHR ''x'']) = [buf ! 18]"
    using len by (simp add: Cons_nth_drop_Suc [symmetric])
  have "length (''0x'' @ map f (nibbles v)) = 18" by simp
  then show ?thesis
    using list_update_length [of "''0x'' @ map f (nibbles v)" "buf ! 18" "[]" "CHR 0x00"]
    unfolding filled start rest by simp
qed

lemma serial_hex_fill_eq:
  assumes "length buf = 19"
  shows "serial_hex_fill v buf = ''0x'' @ map lower_digit (nibbles v) @ [CHR 0x00]"
proof -
  let ?b = "buf[0 := CHR ''0'', 1 := CHR ''x'']"
  have "fold (\<lambda>i buf. buf[2 + i := ''0123456789abcdef'' ! unat (drop_bit (60 - i * 4) v AND 0xf)]) [0..<16] ?b =
      take 2 ?b @ map (\<lambda>i. ''0123456789abcdef'' ! unat (drop_bit (60 - i * 4) v AND 0xf)) [0..<16] @ drop (2 + 16) ?b"
    using assms by (intro fold_fill) simp
  also have "map (\<lambda>i. ''0123456789abcdef'' ! unat (drop_bit (60 - i * 4) v AND 0xf)) [0..<16] =
      map lower_digit (nibbles v)"
    unfolding nibbles_def lower_digit_def map_map by (rule map_cong) (auto simp: algebra_simps)
  finally show ?thesis
    unfolding serial_hex_fill_def using assms by (rule hex_fill_end)
qed

lemma log_hex_fill_eq:
  assumes "length buf = 19"
  shows "log_hex_fill v buf = ''0x'' @ map upper_digit (nibbles v) @ [CHR 0x00]"
proof -
  let ?b = "buf[0 := CHR ''0'', 1 := CHR ''x'']"
  let ?g = "\<lambda>i. ''0123456789ABCDEF'' ! unat (drop_bit (4 * (16 - 1 - i)) v AND 0xF)"
  have "snd (fold (\<lambda>i (val, buf). (drop_bit 4 val, buf[i + 2 := ''0123456789ABCDEF'' ! unat (val AND 0xF)]))
      (rev [0..<16]) (v, ?b)) = fold (\<lambda>i buf. buf[i + 2 := ?g i]) (rev [0..<16]) ?b"
    by (rule fold_shift_fill)
  also have "\<dots> = take 2 ?b @ map ?g [0..<16] @ drop (2 + 16) ?b"
    using assms by (intro fold_fill_down) simp
  also have "map ?g [0..<16] = map upper_digit (nibbles v)"
    unfolding nibbles_def upper_digit_def map_map by (rule map_cong) auto
  finally show ?thesis
    unfolding log_hex_fill_def using assms by (rule hex_fill_end)
qed

lemma key_value_hex_fill_eq:
  assumes "length buf = 19"
  shows "key_value_hex_fill v buf = ''0x'' @ map upper_digit (nibbles v) @ [CHR 0x00]"
proof -
  let ?b = "buf[0 := CHR ''0'', 1 := CHR ''x'']"
  let ?g = "\<lambda>j. nibble_char (unat (drop_bit ((15 - j) * 4) v AND 0xF))"
  have down: "rev [0..<16] = map (\<lambda>j. 15 - j) [0..<16]"
    by (rule nth_equalityI) (simp_all add: rev_nth)
  have "fold (\<lambda>i buf. buf[17 - i := nibble_char (unat (drop_bit (i * 4) v AND 0xF))]) (rev [0..<16]) ?b =
      fold (\<lambda>j buf. buf[2 + j := ?g j]) [0..<16] ?b"
    unfolding down fold_map comp_def by (rule fold_cong) auto
  also have "\<dots> = take 2 ?b @ map ?g [0..<16] @ drop (2 + 16) ?b"
    using assms by (intro fold_fill) simp
  also have "map ?g [0..<16] = map upper_digit (nibbles v)"
    unfolding nibbles_def map_map
    by (rule map_cong) (auto simp: nibble_facts nibble_less algebra_simps)
  finally show ?thesis
    unfolding key_value_hex_fill_def using assms by (rule hex_fill_end)
qed

lemma nul_free_0x [simp]: "nul_free (''0x'' @ s) \<longleftrightarrow> nul_free s"
  by simp

lemma prints_serial_write_hex64:
  assumes "uart_responsive d"
  shows "prints (serial_write_hex64 d v) (''0x'' @ map lower_digit (nibbles v))"
  unfolding serial_write_hex64_def
  using prints_serial_send_string [OF assms, of "''0x'' @ map lower_digit (nibbles v)" "[]"]
  by (simp add: serial_hex_fill_eq nul_free_nibbles)

lemma prints_log_hex64:
  assumes "uart_responsive d"
  shows "prints (log_hex64 d v) (''0x'' @ map upper_digit (nibbles v))"
  unfolding log_hex64_def log_write_def
  using prints_serial_send_string [OF assms, of "''0x'' @ map upper_digit (nibbles v)" "[]"]
  by (simp add: log_hex_fill_eq nul_free_nibbles)

lemma prints_log_key_value_hex64:
  assumes "uart_responsive d" and "nul_free k"
  shows "prints (log_key_value_hex64 d (cstr k) v)
    (k @ [CHR 0x0D, CHR 0x0A] @ ''0x'' @ map upper_digit (nibbles v) @ [CHR 0x0D, CHR 0x0A])"
proof -
  have "prints (log_writeln d (key_value_hex_fill v (replicate 19 CHR 0x00)))
      (''0x'' @ map upper_digit (nibbles v) @ [CHR 0x0D, CHR 0x0A])"
    using prints_log_writeln [OF assms(1), of "''0x'' @ map upper_digit (nibbles v)" "[]"]
    by (simp add: key_value_hex_fill_eq nul_free_nibbles)
  from prints_seq [OF mcsos_log.puts_prints [OF assms] this] show ?thesis
    by (simp add: log_key_value_hex64_def)
qed

subsection \<open>Decimal numerals\<close>

fun decimal_digits :: "nat \<Rightarrow> nat list" where
  "decimal_digits n = (if n = 0 then [] else decimal_digits (n div 10) @ [n mod 10])"

declare decimal_digits.simps [simp del]

definition decimal :: "nat \<Rightarrow> string" where
  "decimal n = (if n = 0 then ''0'' else map (\<lambda>k. char_of (48 + k)) (decimal_digits n))"

lemma decimal_digits_0 [simp]: "decimal_digits 0 = []"
  by (simp add: decimal_digits.simps)

lemma decimal_digits_step: "0 < n \<Longrightarrow> decimal_digits n = decimal_digits (n div 10) @ [n mod 10]"
  by (simp add: decimal_digits.simps [of n])

lemma decimal_digits_less: "k \<in> set (decimal_digits n) \<Longrightarrow> k < 10"
  by (induction n rule: decimal_digits.induct) (subst (asm) (2) decimal_digits.simps, auto split: if_splits)

lemma length_decimal_digits: "n < 10 ^ k \<Longrightarrow> length (decimal_digits n) \<le> k"
proof (induction k arbitrary: n)
  case 0
  then show ?case by simp
next
  case (Suc k)
  show ?case
  proof (cases "n = 0")
    case False
    have "n div 10 < 10 ^ k" using Suc.prems by (simp add: div_less_iff_less_mult mult.commute)
    with Suc.IH False show ?thesis by (simp add: decimal_digits_step)
  qed simp
qed

lemma decimal_digits_value: "foldl (\<lambda>a k. 10 * a + k) 0 (decimal_digits n) = n"
proof (induction n rule: decimal_digits.induct)
  case (1 n)
  then show ?case by (cases "n = 0") (simp_all add: decimal_digits_step)
qed

lemma hd_decimal_digits: "0 < n \<Longrightarrow> decimal_digits n \<noteq> [] \<and> hd (decimal_digits n) \<noteq> 0"
proof (induction n rule: decimal_digits.induct)
  case (1 n)
  show ?case
  proof (cases "n div 10 = 0")
    case True
    with 1(2) show ?thesis by (simp add: decimal_digits_step [of n])
  next
    case False
    then have "decimal_digits (n div 10) \<noteq> [] \<and> hd (decimal_digits (n div 10)) \<noteq> 0" using 1 by simp
    with 1(2) show ?thesis by (simp add: decimal_digits_step [of n])
  qed
qed

lemma digit_char_facts:
  assumes "k < 10"
  shows "digit_value (char_of (48 + k)) = k" and "char_of (48 + k) \<noteq> CHR 0x00"
    and "char_of (48 + k) = CHR ''0'' \<longleftrightarrow> k = 0"
proof -
  have "of_char (char_of (48 + k)) = 48 + k" using assms by simp
  then show "digit_value (char_of (48 + k)) = k" using assms by (simp add: digit_value_def)
  show "char_of (48 + k) \<noteq> CHR 0x00"
  proof
    assume "char_of (48 + k) = CHR 0x00"
    then have "(of_char (char_of (48 + k)) :: nat) = of_char (CHR 0x00)" by (rule arg_cong)
    with \<open>of_char (char_of (48 + k)) = 48 + k\<close> show False by simp
  qed
  show "char_of (48 + k) = CHR ''0'' \<longleftrightarrow> k = 0"
  proof
    assume "char_of (48 + k) = CHR ''0''"
    then have "(of_char (char_of (48 + k)) :: nat) = of_char (CHR ''0'')" by (rule arg_cong)
    with \<open>of_char (char_of (48 + k)) = 48 + k\<close> show "k = 0" by simp
  qed (simp add: char_of_def bit_iff_odd)
qed

lemma decimal_facts:
  shows "numeral_value 10 (decimal n) = n" and "nul_free (decimal n)"
    and "decimal n \<noteq> []" and "0 < n \<Longrightarrow> hd (decimal n) \<noteq> CHR ''0''"
    and "n < 10 ^ Suc k \<Longrightarrow> length (decimal n) \<le> Suc k"
proof -
  have "digit_value (CHR ''0'') = 0" by (simp add: digit_value_def)
  then show "numeral_value 10 (decimal n) = n"
    using decimal_digits_value [of n]
    by (simp add: numeral_value_def decimal_def foldl_digits digit_char_facts(1) decimal_digits_less)
  show "nul_free (decimal n)"
    using digit_char_facts(2) [OF decimal_digits_less, symmetric]
    by (auto simp: decimal_def nul_free_def simp del: char_of_eq_iff)
  show "decimal n \<noteq> []" using hd_decimal_digits [of n] by (auto simp: decimal_def)
  show "hd (decimal n) \<noteq> CHR ''0''" if "0 < n"
    using hd_decimal_digits [OF that] that
      digit_char_facts(3) [OF decimal_digits_less [of "hd (decimal_digits n)" n]]
    by (simp add: decimal_def hd_map)
  show "length (decimal n) \<le> Suc k" if "n < 10 ^ Suc k"
    using length_decimal_digits [OF that] by (simp add: decimal_def)
qed

lemma serial_dec_loop_eq:
  assumes "length (decimal_digits (unat v)) \<le> i" and "i \<le> length buf"
  shows "serial_dec_loop v i buf =
    Some (i - length (decimal_digits (unat v)),
      take (i - length (decimal_digits (unat v))) buf @
      map (\<lambda>k. char_of (48 + k)) (decimal_digits (unat v)) @ drop i buf)"
  using assms
proof (induction v i buf rule: serial_dec_loop.induct)
  case (1 v i buf)
  show ?case
  proof (cases "v = 0")
    case True
    then show ?thesis by (simp add: serial_dec_loop.simps)
  next
    case False
    then have pos: "v > 0" "0 < unat v" by (simp_all add: word_gt_0 unat_gt_0)
    have split: "decimal_digits (unat v) = decimal_digits (unat (v div 10)) @ [unat (v mod 10)]"
      using pos(2) by (simp add: decimal_digits_step unat_div unat_mod)
    then have i: "i \<noteq> 0" using 1 by auto
    let ?b = "buf[i - 1 := char_of (48 + unat (v mod 10))]"
    have "serial_dec_loop v i buf = serial_dec_loop (v div 10) (i - 1) ?b"
      using pos(1) i by (subst serial_dec_loop.simps) simp
    also have "\<dots> = Some (i - 1 - length (decimal_digits (unat (v div 10))),
      take (i - 1 - length (decimal_digits (unat (v div 10)))) ?b @
      map (\<lambda>k. char_of (48 + k)) (decimal_digits (unat (v div 10))) @ drop (i - 1) ?b)"
      using 1 pos(1) i split by simp
    also have "drop (i - 1) ?b = char_of (48 + unat (v mod 10)) # drop i buf"
      using 1(3) i by (simp add: drop_update_swap Cons_nth_drop_Suc [symmetric])
    finally show ?thesis by (simp add: split)
  qed
qed

lemma serial_dec_fill_eq:
  assumes "length buf = 21"
  shows "\<exists>i b. serial_dec_fill v buf = Some (i, b) \<and> i \<le> 19 \<and> drop i b = cstr (decimal (unat v))"
proof (cases "v = 0")
  case True
  have "drop 19 (buf[20 := CHR 0x00, 19 := CHR ''0'']) = ''0'' @ [CHR 0x00]"
    using assms by (simp add: drop_update_swap Cons_nth_drop_Suc [symmetric])
  with True show ?thesis by (simp add: serial_dec_fill_def decimal_def cstr_def)
next
  case False
  have "unat v < 10 ^ 20" using unat_u64_bound [of v] by simp
  then have len: "length (decimal_digits (unat v)) \<le> 20" by (rule length_decimal_digits)
  have "0 < unat v" using False by (simp add: unat_gt_0)
  then have "decimal_digits (unat v) \<noteq> []" using hd_decimal_digits by blast
  then have "20 - length (decimal_digits (unat v)) \<le> 19" by (cases "decimal_digits (unat v)") simp_all
  moreover have "drop 20 (buf[20 := CHR 0x00]) = [CHR 0x00]"
    using assms by (simp add: Cons_nth_drop_Suc [symmetric])
  ultimately show ?thesis
    using serial_dec_loop_eq [OF len, of "buf[20 := CHR 0x00]"] assms False \<open>0 < unat v\<close>
    by (simp add: serial_dec_fill_def decimal_def cstr_def)
qed

lemma prints_serial_write_dec64:
  assumes "uart_responsive d"
  shows "prints (serial_write_dec64 d v) (decimal (unat v))"
proof -
  obtain i b where "serial_dec_fill v (replicate 21 CHR 0x00) = Some (i, b)" "drop i b = cstr (decimal (unat v))"
    using serial_dec_fill_eq [of "replicate 21 (CHR 0x00)" v] by auto
  then show ?thesis
    using serial.puts_prints [OF assms decimal_facts(2)] by (simp add: serial_write_dec64_def)
qed

subsection \<open>The port as its data sheet describes it\<close>

text \<open>The registers of a 16550 a program can write, and what it has sent. While bit 7 of the line
  control register is set, offsets 0 and 1 are the divisor of the baud rate.\<close>

record uart =
  u_ier :: u8
  u_lcr :: u8
  u_fcr :: u8
  u_mcr :: u8
  u_dll :: u8
  u_dlm :: u8
  u_sent :: string

definition dlab :: "uart \<Rightarrow> bool" where "dlab u \<longleftrightarrow> bit (u_lcr u) 7"

definition uart_write :: "u16 \<Rightarrow> u8 \<Rightarrow> uart \<Rightarrow> uart" where
  "uart_write off v u =
     (if off = 0 then (if dlab u then u\<lparr>u_dll := v\<rparr> else u\<lparr>u_sent := u_sent u @ [char_of (unat v)]\<rparr>)
      else if off = 1 then (if dlab u then u\<lparr>u_dlm := v\<rparr> else u\<lparr>u_ier := v\<rparr>)
      else if off = 2 then u\<lparr>u_fcr := v\<rparr>
      else if off = 3 then u\<lparr>u_lcr := v\<rparr>
      else if off = 4 then u\<lparr>u_mcr := v\<rparr>
      else u)"

fun uart_step :: "io_event \<Rightarrow> uart \<Rightarrow> uart" where
  "uart_step (Out p v) u = uart_write (p - COM1) v u"
| "uart_step _ u = u"

definition uart_run :: "history \<Rightarrow> uart \<Rightarrow> uart" where
  "uart_run es u = fold uart_step es u"

lemma uart_run_simps [simp]:
  "uart_run [] u = u"
  "uart_run (e # es) u = uart_run es (uart_step e u)"
  "uart_run (es @ fs) u = uart_run fs (uart_run es u)"
  by (simp_all add: uart_run_def)

lemma uart_run_serial:
  assumes "list_all serial_event es" and "\<not> dlab u"
  shows "uart_run es u = u\<lparr>u_sent := u_sent u @ written es\<rparr>"
  using assms
proof (induction es arbitrary: u)
  case Nil
  then show ?case by (simp add: uart_run_def)
next
  case (Cons e es)
  show ?case
  proof (cases e)
    case (Out p v)
    let ?u = "u\<lparr>u_sent := u_sent u @ [char_of (unat v)]\<rparr>"
    have "\<not> dlab ?u" using Cons.prems(2) by (simp add: dlab_def)
    then have "uart_run es ?u = ?u\<lparr>u_sent := u_sent ?u @ written es\<rparr>"
      using Cons.IH Cons.prems(1) by simp
    with Out Cons.prems show ?thesis by (simp add: uart_run_def uart_write_def)
  next
    case (In p v)
    with Cons show ?thesis by (simp add: uart_run_def)
  qed (use Cons.prems in simp_all)
qed

lemma serial_init_Returns:
  "\<exists>es. serial_init h = Some (Returns () (h @ es)) \<and>
    uart_run es u = u\<lparr>u_ier := (if dlab u then u_ier u else 0), u_lcr := 3, u_fcr := 0xC7, u_mcr := 0x0B,
      u_dll := 3, u_dlm := 0\<rparr>"
proof -
  let ?w = "[(COM1 + 1, 0x00), (COM1 + 3, 0x80), (COM1 + 0, 0x03), (COM1 + 1, 0x00), (COM1 + 3, 0x03),
      (COM1 + 2, 0xC7), (COM1 + 4, 0x0B)]"
  have "serial_init = io_all (map (\<lambda>(p, v). outb p v) ?w)" by (simp add: serial_init_def)
  then have "serial_init h = Some (Returns () (h @ map (\<lambda>(p, v). Out p v) ?w))"
    by (rule ssubst) (rule io_all_outb)
  moreover have "uart_run (map (\<lambda>(p, v). Out p v) ?w) u =
    u\<lparr>u_ier := (if dlab u then u_ier u else 0), u_lcr := 3, u_fcr := 0xC7, u_mcr := 0x0B,
      u_dll := 3, u_dlm := 0\<rparr>"
    by (simp add: uart_run_def uart_write_def dlab_def bit_simps)
  ultimately show ?thesis by blast
qed

lemma log_init_eq: "log_init = serial_init"
  by (simp add: log_init_def serial_init_def COM1_def)

text \<open>After \<open>serial_init\<close>, from any state of the port, a C string is transmitted completely and
  nothing else is; the port is left at 8 data bits, divisor 3, with its FIFO on.\<close>

theorem serial_console_transmits:
  assumes "uart_responsive d" and "nul_free s"
  shows "\<exists>es. io_seq serial_init (serial_write_string d (cstr s)) h = Some (Returns () (h @ es)) \<and>
    uart_run es u = u\<lparr>u_ier := (if dlab u then u_ier u else 0), u_lcr := 3, u_fcr := 0xC7,
      u_mcr := 0x0B, u_dll := 3, u_dlm := 0, u_sent := u_sent u @ s\<rparr>"
proof -
  let ?u = "u\<lparr>u_ier := (if dlab u then u_ier u else 0), u_lcr := 3, u_fcr := 0xC7, u_mcr := 0x0B,
      u_dll := 3, u_dlm := 0\<rparr>"
  obtain es where es: "serial_init h = Some (Returns () (h @ es))" "uart_run es u = ?u"
    using serial_init_Returns [of h u] by blast
  obtain fs where fs: "serial_send_string d (cstr s) (h @ es) = Some (Returns () ((h @ es) @ fs))"
      "written fs = s" "list_all serial_event fs"
    using serial.puts_prints [OF assms] by (rule printsE)
  have "\<not> dlab ?u" by (simp add: dlab_def bit_simps)
  from uart_run_serial [OF fs(3) this] have "uart_run (es @ fs) u = ?u\<lparr>u_sent := u_sent u @ s\<rparr>"
    by (simp add: es(2) fs(2))
  moreover have "io_seq serial_init (serial_write_string d (cstr s)) h = Some (Returns () (h @ es @ fs))"
    using fs(1) by (simp add: io_seq_Returns [where m = serial_init and h = h, OF es(1)] serial_write_string_def)
  ultimately show ?thesis by (intro exI [of _ "es @ fs"]) simp
qed

text \<open>A transmitter that is ready only on every second poll.\<close>

definition slow_uart :: device where
  "slow_uart h port = (if port = COM1 + 5 \<and> odd (length h) then 0x60 else 0)"

lemma slow_uart_responsive: "uart_responsive slow_uart"
  unfolding uart_responsive_def
proof
  fix h
  show "\<exists>n. transmitter_ready slow_uart (polled slow_uart n h)"
  proof (cases "odd (length h)")
    case True
    then show ?thesis by (intro exI [of _ 0]) (simp add: transmitter_ready_def slow_uart_def)
  next
    case False
    then show ?thesis by (intro exI [of _ 1]) (simp add: transmitter_ready_def slow_uart_def)
  qed
qed

theorem serial_console_transmits_witness:
  "\<exists>es. io_seq serial_init (serial_write_string slow_uart (cstr ''[m6] ok'')) [] = Some (Returns () es) \<and>
    u_sent (uart_run es \<lparr>u_ier = 1, u_lcr = 0, u_fcr = 0, u_mcr = 0, u_dll = 1, u_dlm = 0, u_sent = []\<rparr>) = ''[m6] ok''"
  using serial_console_transmits [OF slow_uart_responsive, of "''[m6] ok''" "[]"
      "\<lparr>u_ier = 1, u_lcr = 0, u_fcr = 0, u_mcr = 0, u_dll = 1, u_dlm = 0, u_sent = []\<rparr>"]
  by auto

text \<open>C35: serial_write_char returns exactly when some poll of the line status register
  finds the transmitter empty; it then has polled up to the first such answer and written the
  one byte, and otherwise it polls forever.\<close>

theorem serial_write_char_returns_iff:
  "(if \<exists>n. transmitter_ready d (polled d n h)
    then serial_write_char d c h = Some (Returns ()
      (polled d (Suc (LEAST n. transmitter_ready d (polled d n h))) h @ [Out COM1 (of_char c)]))
    else serial_write_char d c h = None)"
proof (cases "\<exists>n. transmitter_ready d (polled d n h)")
  case True
  let ?P = "\<lambda>n. transmitter_ready d (polled d n h)"
  have skip: "serial_wait d h = serial_wait d (polled d n h)" if "\<And>k. k < n \<Longrightarrow> \<not> ?P k" for n
    using that
  proof (induction n)
    case (Suc n)
    then have "serial_wait d (polled d n h) = serial_wait d (polled d 1 (polled d n h))"
      by (subst serial_wait_unfold) simp
    with Suc show ?case by (simp add: polled_add del: polled.simps)
  qed simp
  have "serial_wait d h = serial_wait d (polled d (LEAST n. ?P n) h)"
    by (rule skip) (rule not_less_Least)
  also have "\<dots> = Some (Returns () (polled d 1 (polled d (LEAST n. ?P n) h)))"
    using LeastI_ex [OF True] by (subst serial_wait_unfold) simp
  finally have "serial_wait d h = Some (Returns () (polled d (Suc (LEAST n. ?P n)) h))"
    by (simp add: polled_add del: polled.simps)
  with True show ?thesis by (simp add: serial_write_char_def io_seq_Returns outb_def io_event_def)
next
  case False
  then have "serial_wait d h = None" using serial_wait_returns_ready by (cases "serial_wait d h") auto
  with False show ?thesis by (auto simp: serial_write_char_def io_seq_def io_bind_def)
qed

lemma decimal_chars: "set (decimal n) \<subseteq> set ''0123456789''"
proof
  fix c assume c: "c \<in> set (decimal n)"
  show "c \<in> set ''0123456789''"
  proof (cases "n = 0")
    case False
    then obtain k :: nat where k: "c = char_of (48 + k)" "k < 10"
      using c decimal_digits_less by (auto simp: decimal_def)
    then have "''0123456789'' ! k \<in> set ''0123456789''" by (intro nth_mem) simp
    moreover have "''0123456789'' ! k = char_of (48 + k)"
      using k(2) less_16_cases [of k] by (auto simp: char_of_def bit_iff_odd)
    ultimately show ?thesis using k(1) by simp
  qed (use c in \<open>simp add: decimal_def\<close>)
qed

text \<open>C36: serial_write_dec64 prints every 64-bit value as decimal digits without leading
  zeros that read back as the value; they are at most 20, so the 21-byte buffer is
  enough.\<close>

theorem serial_write_dec64_reads_back:
  assumes "uart_responsive d"
  shows "\<exists>s. prints (serial_write_dec64 d v) s \<and> set s \<subseteq> set ''0123456789'' \<and> numeral_value 10 s = unat v \<and>
    s \<noteq> [] \<and> (hd s = CHR ''0'' \<longrightarrow> s = ''0'') \<and> length s \<le> 20"
proof -
  have "unat v < 10 ^ Suc 19" using unat_u64_bound [of v] by simp
  then have "length (decimal (unat v)) \<le> 20" using decimal_facts(5) [of "unat v" 19] by simp
  moreover have "hd (decimal (unat v)) = CHR ''0'' \<longrightarrow> decimal (unat v) = ''0''"
    using decimal_facts(4) [of "unat v"] by (cases "unat v = 0") (simp_all add: decimal_def)
  ultimately show ?thesis
    using prints_serial_write_dec64 [OF assms, of v] decimal_facts(1,3) [of "unat v"] decimal_chars
    by blast
qed

theorem serial_write_dec64_reads_back_witness:
  "\<exists>s. prints (serial_write_dec64 slow_uart 18446744073709551615) s \<and>
    numeral_value 10 s = 18446744073709551615"
  using serial_write_dec64_reads_back [OF slow_uart_responsive, of 18446744073709551615] by auto

text \<open>C37: The three hexadecimal writers of the two kernels, one from the top digit down,
  one from the bottom up and one by arithmetic on the digit, all print 0x and 16 digits that
  read back as the value, and the two upper-case ones print the same digits.\<close>

theorem hex64_writers_agree:
  assumes "uart_responsive d" and "nul_free k"
  shows "\<exists>lower upper. prints (serial_write_hex64 d v) (''0x'' @ lower) \<and>
    prints (log_hex64 d v) (''0x'' @ upper) \<and>
    prints (log_key_value_hex64 d (cstr k) v) (k @ [CHR 0x0D, CHR 0x0A] @ ''0x'' @ upper @ [CHR 0x0D, CHR 0x0A]) \<and>
    length lower = 16 \<and> length upper = 16 \<and> numeral_value 16 lower = unat v \<and> numeral_value 16 upper = unat v"
  using prints_serial_write_hex64 [OF assms(1), of v] prints_log_hex64 [OF assms(1), of v]
    prints_log_key_value_hex64 [OF assms, of v] numeral_value_nibbles [of v]
  by (intro exI [of _ "map lower_digit (nibbles v)"] exI [of _ "map upper_digit (nibbles v)"]) simp

theorem hex64_writers_agree_witness:
  "\<exists>lower. prints (serial_write_hex64 slow_uart 0xdeadbeef) (''0x'' @ lower) \<and> numeral_value 16 lower = 3735928559"
  using hex64_writers_agree [OF slow_uart_responsive, of "''k''" "0xdeadbeef"] by auto

subsection \<open>Panics report and stop\<close>

lemma cli_print_stop:
  assumes "list_all2 prints ms ss" and "\<And>h. stop h = Some (Halts (h @ fs))"
  shows "\<exists>es. io_seq (io_all (cpu_cli # ms)) stop h = Some (Halts (h @ [Cli] @ es @ fs)) \<and>
    list_all serial_event es \<and> written es = concat ss"
proof -
  obtain es where "io_seq (io_all ms) stop (h @ [Cli]) = stop ((h @ [Cli]) @ es)"
      "written es = concat ss" "list_all serial_event es"
    using prints_then [OF prints_all [OF assms(1)]] by blast
  then show ?thesis
    by (intro exI [of _ es]) (simp add: cpu_cli_def io_seq_assoc io_seq_event assms(2))
qed

lemma kernel_panic_prints:
  assumes "uart_responsive d" and "nul_free reason"
  shows "\<exists>es. kernel_panic d (cstr reason) code h = Some (Halts (h @ [Cli] @ es @ [Hlt])) \<and>
      list_all serial_event es \<and>
      written es = CHR 0x0A # ''[MCSOS:PANIC] '' @ reason @ '' code=0x'' @ map lower_digit (nibbles code) @ [CHR 0x0A]"
proof -
  note puts = serial.puts_prints [OF assms(1)]
  have "list_all2 prints [serial_write_string d (cstr (CHR 0x0A # ''[MCSOS:PANIC] '')),
        serial_write_string d (cstr reason), serial_write_string d (cstr '' code=''),
        serial_write_hex64 d code, serial_write_string d (cstr [CHR 0x0A])]
      [CHR 0x0A # ''[MCSOS:PANIC] '', reason, '' code='', ''0x'' @ map lower_digit (nibbles code), [CHR 0x0A]]"
    unfolding serial_write_string_def
    by (intro list_all2_Cons [THEN iffD2] conjI puts prints_serial_write_hex64 assms) simp_all
  from cli_print_stop [OF this, of halt_loop "[Hlt]" h] show ?thesis
    by (simp add: kernel_panic_def halt_loop_def)
qed

lemma kernel_panic_at_prints:
  assumes "uart_responsive d" and "nul_free reason" and "nul_free fname"
  shows "\<exists>es. kernel_panic_at d (cstr fname) line (cstr reason) h = Some (Halts (h @ [Cli] @ es @ [Cli, Hlt])) \<and>
      list_all serial_event es \<and>
      written es = [CHR 0x0D, CHR 0x0A] @ ''[!!!] KERNEL PANIC [!!!]'' @ [CHR 0x0D, CHR 0x0A] @ ''FILE: '' @ fname @
        [CHR 0x0D, CHR 0x0A] @ ''MSG : '' @ reason @ [CHR 0x0D, CHR 0x0A] @ ''SYSTEM HALTED.'' @ [CHR 0x0D, CHR 0x0A]"
proof -
  note puts = serial.puts_prints [OF assms(1)]
  have "list_all2 prints
      [log_write d (cstr (CHR 0x0D # CHR 0x0A # ''[!!!] KERNEL PANIC [!!!]'' @ [CHR 0x0D, CHR 0x0A])),
        log_write d (cstr ''FILE: ''), log_write d (cstr fname),
        log_write d (cstr (CHR 0x0D # CHR 0x0A # ''MSG : '')), log_write d (cstr reason),
        log_write d (cstr (CHR 0x0D # CHR 0x0A # ''SYSTEM HALTED.'' @ [CHR 0x0D, CHR 0x0A]))]
      [CHR 0x0D # CHR 0x0A # ''[!!!] KERNEL PANIC [!!!]'' @ [CHR 0x0D, CHR 0x0A], ''FILE: '', fname,
        CHR 0x0D # CHR 0x0A # ''MSG : '', reason, CHR 0x0D # CHR 0x0A # ''SYSTEM HALTED.'' @ [CHR 0x0D, CHR 0x0A]]"
    unfolding log_write_def
    by (intro list_all2_Cons [THEN iffD2] conjI puts assms) simp_all
  from cli_print_stop [OF this, of infinite_hlt "[Cli, Hlt]" h] show ?thesis
    by (simp add: kernel_panic_at_def infinite_hlt_def)
qed

lemma prints_halts:
  assumes "prints m s"
  shows "\<exists>es. io_seq m halt_loop h = Some (Halts (h @ es @ [Hlt])) \<and> list_all serial_event es \<and> written es = s"
  using prints_then [OF assms, of halt_loop h] by (auto simp: halt_loop_def)

text \<open>Both panics disable interrupts, print their message and stop; they never return.\<close>

theorem kernel_panic_reports_and_halts:
  assumes "uart_responsive d" and "nul_free reason" and "nul_free fname"
  shows "(\<exists>es. kernel_panic d (cstr reason) code h = Some (Halts (h @ [Cli] @ es @ [Hlt])) \<and>
      list_all serial_event es \<and>
      written es = CHR 0x0A # ''[MCSOS:PANIC] '' @ reason @ '' code=0x'' @ map lower_digit (nibbles code) @ [CHR 0x0A]) \<and>
    (\<exists>es. kernel_panic_at d (cstr fname) line (cstr reason) h = Some (Halts (h @ [Cli] @ es @ [Cli, Hlt])) \<and>
      list_all serial_event es \<and>
      written es = [CHR 0x0D, CHR 0x0A] @ ''[!!!] KERNEL PANIC [!!!]'' @ [CHR 0x0D, CHR 0x0A] @ ''FILE: '' @ fname @
        [CHR 0x0D, CHR 0x0A] @ ''MSG : '' @ reason @ [CHR 0x0D, CHR 0x0A] @ ''SYSTEM HALTED.'' @ [CHR 0x0D, CHR 0x0A])"
  using kernel_panic_prints [OF assms(1,2)] kernel_panic_at_prints [OF assms] by blast

theorem kernel_panic_reports_and_halts_witness:
  "\<exists>es. kernel_panic slow_uart (cstr ''page fault'') 14 [] = Some (Halts (Cli # es @ [Hlt]))"
  using kernel_panic_reports_and_halts [OF slow_uart_responsive, of "''page fault''" "''trap.c''" 14 "[]"] by auto

end
