(* ===== verification/Traps.thy ===== *)
theory Traps
  imports Serial
begin

text \<open>
  The interrupt descriptor table and the handling of processor exceptions, in both kernels:
  \<open>src/src/kernel/arch/x86_64/idt.c\<close>, \<open>idt.h\<close>, \<open>trap.c\<close> and \<open>isr.S\<close> (with the log of
  \<open>src/src/kernel/klog.c\<close>), and \<open>src/mcsos/kernel/arch/x86_64/idt.c\<close>, \<open>isr.S\<close> and
  \<open>src/mcsos/kernel/core/trap.c\<close> with \<open>src/mcsos/mcsos/arch/idt.h\<close>, whose definitions carry the
  prefix \<open>mcsos_\<close>.

  The table is a list of the packed entries; its address and the addresses of the assembly stubs,
  which the linker chooses, are parameters. \<open>idt_gate\<close> reads a gate from the bytes of the table
  the way the processor manual describes it, and \<open>x86_deliver\<close> is the delivery of an exception
  through that gate: it succeeds only when the loaded limit covers the gate, the gate is present,
  and its selector names a 64-bit code segment in the descriptor table, the parameter \<open>desc\<close>. The
  stubs of \<open>isr.S\<close> are modelled on the stack of the interrupted code: the words they push are read
  back as the fields of the trap frame. Which vectors come with an error code is taken from the
  processor manual (\<open>x86_error_vectors\<close>), not from the stubs.
\<close>

subsection \<open>Descriptors\<close>

record x86_64_idt_entry =
  ie_offset_low :: u16
  ie_selector :: u16
  ie_ist :: u8
  ie_type_attributes :: u8
  ie_offset_mid :: u16
  ie_offset_high :: u32
  ie_reserved :: u32

record x86_64_idtr =
  idtr_limit :: u16
  idtr_base :: u64

record idt_state =
  idt_table :: "x86_64_idt_entry list"
  idtr_pointer :: x86_64_idtr

definition zero_entry :: x86_64_idt_entry where
  "zero_entry = \<lparr>ie_offset_low = 0, ie_selector = 0, ie_ist = 0, ie_type_attributes = 0,
     ie_offset_mid = 0, ie_offset_high = 0, ie_reserved = 0\<rparr>"

definition sizeof_idt_entry :: nat where "sizeof_idt_entry = 16"

definition X86_64_IDT_VECTOR_COUNT :: nat where "X86_64_IDT_VECTOR_COUNT = 256"
definition X86_64_KERNEL_CODE_SELECTOR :: u32 where "X86_64_KERNEL_CODE_SELECTOR = 0x28"
definition X86_64_IDT_GATE_INTERRUPT :: u8 where "X86_64_IDT_GATE_INTERRUPT = 0x8E"
definition X86_64_IDT_GATE_TRAP :: u8 where "X86_64_IDT_GATE_TRAP = 0x8F"

definition lidt :: "x86_64_idtr \<Rightarrow> unit io" where
  "lidt r = io_event (Lidt (idtr_limit r) (idtr_base r))"

subsection \<open>The table of the first kernel\<close>

datatype klog_arg = Text string | Number u64

definition klog_info :: "string \<Rightarrow> klog_arg list \<Rightarrow> unit io" where "klog_info fmt args = io_return ()"
definition klog_error :: "string \<Rightarrow> klog_arg list \<Rightarrow> unit io" where "klog_error fmt args = io_return ()"

definition x86_64_idt_set_gate :: "u8 \<Rightarrow> u64 \<Rightarrow> u8 \<Rightarrow> x86_64_idt_entry list \<Rightarrow> x86_64_idt_entry list" where
  "x86_64_idt_set_gate vector handler_address attributes t = t[unat vector :=
     \<lparr>ie_offset_low = ucast (handler_address AND 0xFFFF),
      ie_selector = 0x28,
      ie_ist = 0,
      ie_type_attributes = attributes,
      ie_offset_mid = ucast (drop_bit 16 handler_address AND 0xFFFF),
      ie_offset_high = ucast (drop_bit 32 handler_address AND 0xFFFFFFFF),
      ie_reserved = 0\<rparr>]"

definition x86_64_idt_init :: "u64 \<Rightarrow> u64 list \<Rightarrow> idt_state \<Rightarrow> idt_state io" where
  "x86_64_idt_init idt_addr stubs s =
     (let t = fold (\<lambda>i t. t[i := zero_entry]) [0..<256] (idt_table s);
          t = for_loop (0 :: u8) 32 1 (\<lambda>i. x86_64_idt_set_gate i (stubs ! unat i) 0x8E) t;
          r = \<lparr>idtr_limit = of_nat (length t * sizeof_idt_entry - 1), idtr_base = idt_addr\<rparr>
      in io_seq (lidt r)
           (io_seq (klog_info (''[M4] IDT loaded successfully with 32 exception stubs.'' @ [CHR 0x0A]) [])
             (io_return \<lparr>idt_table = t, idtr_pointer = r\<rparr>)))"

definition idt_init :: "u64 \<Rightarrow> u64 list \<Rightarrow> idt_state \<Rightarrow> idt_state io" where
  "idt_init idt_addr stubs s = x86_64_idt_init idt_addr stubs s"

subsection \<open>The table of the second kernel\<close>

definition mcsos_idt_set_gate :: "u8 \<Rightarrow> u64 \<Rightarrow> u8 \<Rightarrow> x86_64_idt_entry list \<Rightarrow> x86_64_idt_entry list" where
  "mcsos_idt_set_gate vector handler type_attributes t = t[unat vector :=
     \<lparr>ie_offset_low = ucast (handler AND 0xFFFF),
      ie_selector = ucast X86_64_KERNEL_CODE_SELECTOR,
      ie_ist = 0,
      ie_type_attributes = type_attributes,
      ie_offset_mid = ucast (drop_bit 16 handler AND 0xFFFF),
      ie_offset_high = ucast (drop_bit 32 handler AND 0xFFFFFFFF),
      ie_reserved = 0\<rparr>]"

definition x86_64_idt_base_for_test :: "idt_state \<Rightarrow> u64" where
  "x86_64_idt_base_for_test s = idtr_base (idtr_pointer s)"

definition x86_64_idt_limit_for_test :: "idt_state \<Rightarrow> u16" where
  "x86_64_idt_limit_for_test s = idtr_limit (idtr_pointer s)"

definition mcsos_gate_type :: "u8 \<Rightarrow> u8" where
  "mcsos_gate_type vector = (if vector = 3 then X86_64_IDT_GATE_TRAP else X86_64_IDT_GATE_INTERRUPT)"

definition mcsos_idt_init :: "device \<Rightarrow> u64 \<Rightarrow> u64 list \<Rightarrow> idt_state \<Rightarrow> idt_state io" where
  "mcsos_idt_init d idt_addr stubs s =
     (let t = for_loop (0 :: u16) (of_nat X86_64_IDT_VECTOR_COUNT) 1
                (\<lambda>i. mcsos_idt_set_gate (ucast i) 0 0) (idt_table s);
          t = for_loop (0 :: u8) 32 1
                (\<lambda>vector. mcsos_idt_set_gate vector (stubs ! unat vector) (mcsos_gate_type vector)) t;
          r = \<lparr>idtr_limit = of_nat (length t * sizeof_idt_entry - 1), idtr_base = idt_addr\<rparr>
      in io_seq (io_all
           [KERNEL_ASSERT (sizeof_idt_entry = 16) ''idt.c'' 54 ''sizeof(x86_64_idt_entry_t) == 16u'',
            KERNEL_ASSERT (idtr_limit r = of_nat (X86_64_IDT_VECTOR_COUNT * sizeof_idt_entry - 1)) ''idt.c'' 55
              ''idtr.limit == (uint16_t)((X86_64_IDT_VECTOR_COUNT * sizeof(x86_64_idt_entry_t)) - 1u)'',
            lidt r,
            log_key_value_hex64 d (cstr ''idt_base'') (idtr_base r),
            log_key_value_hex64 d (cstr ''idt_limit'') (ucast (idtr_limit r)),
            log_writeln d (cstr ''[M4] IDT loaded'')])
         (io_return \<lparr>idt_table = t, idtr_pointer = r\<rparr>))"

subsection \<open>Trap frames and their handlers\<close>

record x86_64_trap_frame =
  tf_r15 :: u64
  tf_r14 :: u64
  tf_r13 :: u64
  tf_r12 :: u64
  tf_r11 :: u64
  tf_r10 :: u64
  tf_r9 :: u64
  tf_r8 :: u64
  tf_rsi :: u64
  tf_rdi :: u64
  tf_rbp :: u64
  tf_rdx :: u64
  tf_rcx :: u64
  tf_rbx :: u64
  tf_rax :: u64
  tf_vector :: u64
  tf_error_code :: u64
  tf_rip :: u64
  tf_cs :: u64
  tf_rflags :: u64
  tf_rsp :: u64
  tf_ss :: u64

definition exception_messages :: "string list" where
  "exception_messages =
    [''#DE: Divide Error'', ''#DB: Debug'', ''Non-Maskable Interrupt'', ''#BP: Breakpoint'',
     ''#OF: Overflow'', ''#BR: BOUND Range Exceeded'', ''#UD: Invalid Opcode'', ''#NM: Device Not Available'',
     ''#DF: Double Fault'', ''Coprocessor Segment Overrun'', ''#TS: Invalid TSS'', ''#NP: Segment Not Present'',
     ''#SS: Stack-Segment Fault'', ''#GP: General Protection Fault'', ''#PF: Page Fault'', ''Reserved'',
     ''#MF: x87 FPU Floating-Point Error'', ''#AC: Alignment Check'', ''#MC: Machine Check'', ''#XM: SIMD Exception'',
     ''#VE: Virtualization Exception'', ''#CP: Control Protection Exception'', ''Reserved'', ''Reserved'',
     ''Reserved'', ''Reserved'', ''Reserved'', ''Reserved'',
     ''#HV: Hypervisor Injection'', ''#VC: VMM Communication'', ''#SX: Security Exception'', ''Reserved'']"

text \<open>The panic is declared with one argument and a variable rest in \<open>kpanic.h\<close> and defined with
  two arguments in \<open>panic.c\<close>: the code it prints is whatever the second argument register holds,
  the parameter \<open>rsi\<close>.\<close>

definition x86_64_trap_dispatch :: "device \<Rightarrow> u64 \<Rightarrow> x86_64_trap_frame \<Rightarrow> unit io" where
  "x86_64_trap_dispatch d rsi frame =
     (let vec = tf_vector frame;
          msg = (if vec < 32 then exception_messages ! unat vec else ''Unknown Exception'')
      in if vec = 3 then
           io_all
             [klog_info (''[M4 TEST PASS] Exception triggered: %s at RIP: 0x%x'' @ [CHR 0x0A])
                [Text msg, Number (tf_rip frame)],
              klog_info (''  State details -> RAX: 0x%x, RSP: 0x%x, RFLAGS: 0x%x'' @ [CHR 0x0A])
                [Number (tf_rax frame), Number (tf_rsp frame), Number (tf_rflags frame)]]
         else
           io_seq (io_all
             [klog_error (CHR 0x0A # ''!!! FATAL EXCEPTION DETECTED: %s (Vector: %d) !!!'' @ [CHR 0x0A])
                [Text msg, Number vec],
              klog_error (''  Faulting Instruction Pointer (RIP) : 0x%x'' @ [CHR 0x0A]) [Number (tf_rip frame)],
              klog_error (''  Hardware Error Code                : 0x%x'' @ [CHR 0x0A]) [Number (tf_error_code frame)],
              klog_error (''  Stack Pointer (RSP) at Fault       : 0x%x'' @ [CHR 0x0A]) [Number (tf_rsp frame)],
              klog_error (''  Code Segment (CS) / RFLAGS         : 0x%x / 0x%x'' @ [CHR 0x0A])
                [Number (tf_cs frame), Number (tf_rflags frame)],
              klog_error (''  General Registers -> RAX: 0x%x, RBX: 0x%x, RCX: 0x%x, RDX: 0x%x'' @ [CHR 0x0A])
                [Number (tf_rax frame), Number (tf_rbx frame), Number (tf_rcx frame), Number (tf_rdx frame)]])
             (kernel_panic d (cstr ''Fail-Closed Unhandled Kernel Exception.'') rsi))"

text \<open>The frame of the second kernel stops at the flags. Its handler counts the traps; the count
  is part of the result.\<close>

record mcsos_trap_frame =
  mf_r15 :: u64
  mf_r14 :: u64
  mf_r13 :: u64
  mf_r12 :: u64
  mf_r11 :: u64
  mf_r10 :: u64
  mf_r9 :: u64
  mf_r8 :: u64
  mf_rsi :: u64
  mf_rdi :: u64
  mf_rbp :: u64
  mf_rdx :: u64
  mf_rcx :: u64
  mf_rbx :: u64
  mf_rax :: u64
  mf_vector :: u64
  mf_error_code :: u64
  mf_rip :: u64
  mf_cs :: u64
  mf_rflags :: u64

definition m4_trap_count_for_test :: "u64 \<Rightarrow> u64" where
  "m4_trap_count_for_test trap_count = trap_count"

definition mcsos_trap_dispatch :: "device \<Rightarrow> u64 \<Rightarrow> mcsos_trap_frame \<Rightarrow> u64 io" where
  "mcsos_trap_dispatch d trap_count frame =
     (let trap_count = trap_count + 1
      in io_seq (io_all
           [log_writeln d (cstr ''--- [TRAP FRAME REGISTER DUMP] ---''),
            log_key_value_hex64 d (cstr ''Trap Vector'') (mf_vector frame),
            log_key_value_hex64 d (cstr ''Error Code '') (mf_error_code frame),
            log_key_value_hex64 d (cstr ''RIP        '') (mf_rip frame)])
         (if mf_vector frame = 3 then
            io_seq (log_writeln d (cstr ''[M4] Breakpoint exception handled correctly. Recovering path...''))
              (io_return trap_count)
          else mcsos_kernel_panic_at ''trap.c'' 45
            ''CPU Exception Non-Recoverable Terjadi - Fail-Closed Triggered''))"

subsection \<open>The assembly stubs\<close>

text \<open>A stack is the list of its quadwords, the top first. On an exception the processor pushes
  the interrupted stack pointer, flags and instruction pointer, and an error code for the vectors
  that have one.\<close>

record cpu_regs =
  c_r15 :: u64
  c_r14 :: u64
  c_r13 :: u64
  c_r12 :: u64
  c_r11 :: u64
  c_r10 :: u64
  c_r9 :: u64
  c_r8 :: u64
  c_rsi :: u64
  c_rdi :: u64
  c_rbp :: u64
  c_rdx :: u64
  c_rcx :: u64
  c_rbx :: u64
  c_rax :: u64
  c_rip :: u64
  c_cs :: u64
  c_rflags :: u64
  c_rsp :: u64
  c_ss :: u64

definition cpu_exception :: "cpu_regs \<Rightarrow> u64 option \<Rightarrow> u64 list \<Rightarrow> u64 list" where
  "cpu_exception c err stk =
     (case err of None \<Rightarrow> [] | Some e \<Rightarrow> [e]) @ [c_rip c, c_cs c, c_rflags c, c_rsp c, c_ss c] @ stk"

definition isr_err_vectors :: "nat list" where
  "isr_err_vectors = [8, 10, 11, 12, 13, 14, 17, 21, 29, 30]"

definition isr_stub :: "nat \<Rightarrow> u64 list \<Rightarrow> u64 list" where
  "isr_stub vector stk =
     (if vector \<in> set isr_err_vectors then of_nat vector # stk else of_nat vector # 0 # stk)"

definition isr_common_save :: "cpu_regs \<Rightarrow> u64 list \<Rightarrow> u64 list" where
  "isr_common_save c stk =
     [c_r15 c, c_r14 c, c_r13 c, c_r12 c, c_r11 c, c_r10 c, c_r9 c, c_r8 c, c_rsi c, c_rdi c, c_rbp c, c_rdx c, c_rcx c, c_rbx c, c_rax c] @ stk"

definition isr_common_restore :: "u64 list \<Rightarrow> cpu_regs" where
  "isr_common_restore stk =
     \<lparr>c_r15 = stk ! 0,
      c_r14 = stk ! 1,
      c_r13 = stk ! 2,
      c_r12 = stk ! 3,
      c_r11 = stk ! 4,
      c_r10 = stk ! 5,
      c_r9 = stk ! 6,
      c_r8 = stk ! 7,
      c_rsi = stk ! 8,
      c_rdi = stk ! 9,
      c_rbp = stk ! 10,
      c_rdx = stk ! 11,
      c_rcx = stk ! 12,
      c_rbx = stk ! 13,
      c_rax = stk ! 14,
      c_rip = stk ! 17,
      c_cs = stk ! 18,
      c_rflags = stk ! 19,
      c_rsp = stk ! 20,
      c_ss = stk ! 21\<rparr>"

definition trap_frame_at :: "u64 list \<Rightarrow> x86_64_trap_frame" where
  "trap_frame_at stk =
     \<lparr>tf_r15 = stk ! 0,
      tf_r14 = stk ! 1,
      tf_r13 = stk ! 2,
      tf_r12 = stk ! 3,
      tf_r11 = stk ! 4,
      tf_r10 = stk ! 5,
      tf_r9 = stk ! 6,
      tf_r8 = stk ! 7,
      tf_rsi = stk ! 8,
      tf_rdi = stk ! 9,
      tf_rbp = stk ! 10,
      tf_rdx = stk ! 11,
      tf_rcx = stk ! 12,
      tf_rbx = stk ! 13,
      tf_rax = stk ! 14,
      tf_vector = stk ! 15,
      tf_error_code = stk ! 16,
      tf_rip = stk ! 17,
      tf_cs = stk ! 18,
      tf_rflags = stk ! 19,
      tf_rsp = stk ! 20,
      tf_ss = stk ! 21\<rparr>"

definition mcsos_trap_frame_at :: "u64 list \<Rightarrow> mcsos_trap_frame" where
  "mcsos_trap_frame_at stk =
     \<lparr>mf_r15 = stk ! 0,
      mf_r14 = stk ! 1,
      mf_r13 = stk ! 2,
      mf_r12 = stk ! 3,
      mf_r11 = stk ! 4,
      mf_r10 = stk ! 5,
      mf_r9 = stk ! 6,
      mf_r8 = stk ! 7,
      mf_rsi = stk ! 8,
      mf_rdi = stk ! 9,
      mf_rbp = stk ! 10,
      mf_rdx = stk ! 11,
      mf_rcx = stk ! 12,
      mf_rbx = stk ! 13,
      mf_rax = stk ! 14,
      mf_vector = stk ! 15,
      mf_error_code = stk ! 16,
      mf_rip = stk ! 17,
      mf_cs = stk ! 18,
      mf_rflags = stk ! 19\<rparr>"

definition x86_64_exception :: "device \<Rightarrow> u64 \<Rightarrow> nat \<Rightarrow> u64 option \<Rightarrow> u64 list \<Rightarrow> cpu_regs \<Rightarrow> cpu_regs io" where
  "x86_64_exception d rsi vector err stk c =
     (let stk = isr_common_save c (isr_stub vector (cpu_exception c err stk))
      in io_seq (x86_64_trap_dispatch d rsi (trap_frame_at stk)) (io_return (isr_common_restore stk)))"

definition mcsos_exception ::
  "device \<Rightarrow> u64 \<Rightarrow> nat \<Rightarrow> u64 option \<Rightarrow> u64 list \<Rightarrow> cpu_regs \<Rightarrow> (u64 \<times> cpu_regs) io" where
  "mcsos_exception d trap_count vector err stk c =
     (let stk = isr_common_save c (isr_stub vector (cpu_exception c err stk))
      in io_bind (mcsos_trap_dispatch d trap_count (mcsos_trap_frame_at stk))
           (\<lambda>trap_count. io_return (trap_count, isr_common_restore stk)))"

subsection \<open>The bytes of the table\<close>

definition le_bytes :: "nat \<Rightarrow> 'a::len word \<Rightarrow> u8 list" where
  "le_bytes n w = map (\<lambda>i. ucast (drop_bit (8 * i) w)) [0..<n]"

definition le_value :: "u8 list \<Rightarrow> nat" where
  "le_value bs = foldr (\<lambda>b a. unat b + 256 * a) bs 0"

text \<open>The packed layout of an entry: 16 bytes, each field little-endian.\<close>

definition entry_bytes :: "x86_64_idt_entry \<Rightarrow> u8 list" where
  "entry_bytes e =
     le_bytes 2 (ie_offset_low e) @ le_bytes 2 (ie_selector e) @ le_bytes 1 (ie_ist e) @
     le_bytes 1 (ie_type_attributes e) @ le_bytes 2 (ie_offset_mid e) @ le_bytes 4 (ie_offset_high e) @
     le_bytes 4 (ie_reserved e)"

definition idt_bytes :: "x86_64_idt_entry list \<Rightarrow> u8 list" where
  "idt_bytes t = concat (map entry_bytes t)"

text \<open>The gate the processor finds at a vector: nothing when the present bit is clear, otherwise the
  address of the handler, its code selector, the stack table index, the gate type (14 interrupt
  gate, 15 trap gate) and the privilege level.\<close>

record gate =
  g_handler :: u64
  g_selector :: u16
  g_ist :: nat
  g_type :: nat
  g_dpl :: nat

definition idt_gate :: "u8 list \<Rightarrow> nat \<Rightarrow> gate option" where
  "idt_gate bs v =
     (let bs = take 16 (drop (16 * v) bs)
      in if \<not> bit (bs ! 5) 7 then None
         else Some \<lparr>g_handler = of_nat (le_value (take 2 bs @ take 2 (drop 6 bs) @ take 4 (drop 8 bs))),
                    g_selector = of_nat (le_value (take 2 (drop 2 bs))),
                    g_ist = unat (bs ! 4) mod 8,
                    g_type = unat (bs ! 5) mod 16,
                    g_dpl = unat (bs ! 5) div 32 mod 4\<rparr>)"

subsection \<open>Delivery through the table\<close>

text \<open>A descriptor of a present 64-bit code segment of ring 0.\<close>

definition code64_descriptor :: "u64 \<Rightarrow> bool" where
  "code64_descriptor e \<longleftrightarrow> bit e 47 \<and> bit e 44 \<and> bit e 43 \<and> bit e 53 \<and> \<not> bit e 54 \<and> drop_bit 45 e AND 3 = 0"

text \<open>The address at which the processor continues when it delivers a vector: nothing when the
  delivery faults. The limit is the loaded one; a gate must be an interrupt or trap gate, and one with
  a stack index would need a task state segment, which neither kernel loads. \<open>desc\<close> is the descriptor
  table in force, from selectors to descriptors.\<close>

definition x86_deliver :: "(u16 \<Rightarrow> u64 option) \<Rightarrow> idt_state \<Rightarrow> nat \<Rightarrow> u64 option" where
  "x86_deliver desc s v =
     (if unat (idtr_limit (idtr_pointer s)) < 16 * v + 15 then None
      else case idt_gate (idt_bytes (idt_table s)) v of
             None \<Rightarrow> None
           | Some g \<Rightarrow>
               if g_ist g \<noteq> 0 \<or> g_type g \<notin> {14, 15} then None
               else case desc (g_selector g) of
                      None \<Rightarrow> None
                    | Some e \<Rightarrow> if code64_descriptor e then Some (g_handler g) else None)"

text \<open>The stub whose code is at an address.\<close>

definition stub_at :: "u64 list \<Rightarrow> u64 \<Rightarrow> nat option" where
  "stub_at stubs a = List.find (\<lambda>i. stubs ! i = a) [0..<length stubs]"

definition entered_stub :: "(u16 \<Rightarrow> u64 option) \<Rightarrow> idt_state \<Rightarrow> u64 list \<Rightarrow> nat \<Rightarrow> nat option" where
  "entered_stub desc s stubs v = Option.bind (x86_deliver desc s v) (stub_at stubs)"

text \<open>An exception as the interrupted code meets it: the processor delivers the vector through the
  table and the stub it enters handles it. A delivery that faults gives no result; when no vector can
  be delivered, the fault it raises and the double fault after that included, the processor shuts
  down.\<close>

definition x86_64_interrupt ::
  "device \<Rightarrow> u64 \<Rightarrow> (u16 \<Rightarrow> u64 option) \<Rightarrow> idt_state \<Rightarrow> u64 list \<Rightarrow> nat \<Rightarrow> u64 option \<Rightarrow> u64 list \<Rightarrow>
   cpu_regs \<Rightarrow> cpu_regs io" where
  "x86_64_interrupt d rsi desc s stubs v err stk c =
     (case entered_stub desc s stubs v of
        None \<Rightarrow> (\<lambda>h. None)
      | Some i \<Rightarrow> x86_64_exception d rsi i err stk c)"

definition mcsos_interrupt ::
  "device \<Rightarrow> u64 \<Rightarrow> (u16 \<Rightarrow> u64 option) \<Rightarrow> idt_state \<Rightarrow> u64 list \<Rightarrow> nat \<Rightarrow> u64 option \<Rightarrow> u64 list \<Rightarrow>
   cpu_regs \<Rightarrow> (u64 \<times> cpu_regs) io" where
  "mcsos_interrupt d trap_count desc s stubs v err stk c =
     (case entered_stub desc s stubs v of
        None \<Rightarrow> (\<lambda>h. None)
      | Some i \<Rightarrow> mcsos_exception d trap_count i err stk c)"

definition x86_64_trigger_breakpoint_for_test ::
  "device \<Rightarrow> u64 \<Rightarrow> (u16 \<Rightarrow> u64 option) \<Rightarrow> idt_state \<Rightarrow> u64 list \<Rightarrow> u64 list \<Rightarrow> cpu_regs \<Rightarrow> (u64 \<times> cpu_regs) io" where
  "x86_64_trigger_breakpoint_for_test d trap_count desc s stubs stk c =
     mcsos_interrupt d trap_count desc s stubs 3 None stk c"

subsection \<open>Reading gates back\<close>

lemma length_le_bytes [simp]: "length (le_bytes n w) = n"
  by (simp add: le_bytes_def)

lemma le_value_append: "le_value (xs @ ys) = le_value xs + 256 ^ length xs * le_value ys"
  by (induction xs) (simp_all add: le_value_def algebra_simps)

lemma le_value_snoc: "le_value (xs @ [b]) = le_value xs + 256 ^ length xs * unat b"
  by (simp add: le_value_append) (simp add: le_value_def)

lemma le_value_bytes: "le_value (le_bytes n w) = unat w mod 256 ^ n"
proof (induction n)
  case 0
  then show ?case by (simp add: le_value_def le_bytes_def)
next
  case (Suc n)
  have "unat (ucast (drop_bit (8 * n) w) :: u8) = unat w div 256 ^ n mod 256"
    by (simp only: unsigned_ucast_eq unat_drop_bit_eq)
      (simp add: take_bit_eq_mod drop_bit_eq_div power_mult)
  moreover have "unat w mod 256 ^ Suc n = 256 ^ n * (unat w div 256 ^ n mod 256) + unat w mod 256 ^ n"
    by (simp only: power_Suc2 mod_mult2_eq)
  moreover have "le_bytes (Suc n) w = le_bytes n w @ [ucast (drop_bit (8 * n) w)]"
    by (simp add: le_bytes_def)
  ultimately show ?case using Suc.IH by (simp only: le_value_snoc length_le_bytes add.commute)
qed

lemma length_entry_bytes [simp]: "length (entry_bytes e) = 16"
  by (simp add: entry_bytes_def)

lemma length_idt_bytes: "length (idt_bytes t) = 16 * length t"
  by (induction t) (simp_all add: idt_bytes_def)

lemma idt_bytes_at:
  assumes "v < length t"
  shows "take 16 (drop (16 * v) (idt_bytes t)) = entry_bytes (t ! v)"
proof -
  have "t = take v t @ t ! v # drop (Suc v) t" using assms by (rule id_take_nth_drop)
  then have "idt_bytes t = idt_bytes (take v t) @ entry_bytes (t ! v) @ idt_bytes (drop (Suc v) t)"
    by (metis idt_bytes_def map_append concat_append list.map(2) concat.simps(2))
  moreover have "length (idt_bytes (take v t)) = 16 * v" using assms by (simp add: length_idt_bytes)
  ultimately show ?thesis by simp
qed

text \<open>A gate set with an address is read back with that address.\<close>

definition gate_entry :: "u64 \<Rightarrow> u8 \<Rightarrow> x86_64_idt_entry" where
  "gate_entry handler attributes =
     \<lparr>ie_offset_low = ucast (handler AND 0xFFFF), ie_selector = 0x28, ie_ist = 0, ie_type_attributes = attributes,
      ie_offset_mid = ucast (drop_bit 16 handler AND 0xFFFF),
      ie_offset_high = ucast (drop_bit 32 handler AND 0xFFFFFFFF), ie_reserved = 0\<rparr>"

lemma set_gate_eq:
  "x86_64_idt_set_gate v h a t = t[unat v := gate_entry h a]"
  "mcsos_idt_set_gate v h a t = t[unat v := gate_entry h a]"
  by (simp_all add: x86_64_idt_set_gate_def mcsos_idt_set_gate_def gate_entry_def X86_64_KERNEL_CODE_SELECTOR_def)

lemma offset_parts:
  fixes h :: u64
  shows "unat (ucast (h AND 0xFFFF) :: u16) = unat h mod 65536"
    and "unat (ucast (drop_bit 16 h AND 0xFFFF) :: u16) = unat h div 65536 mod 65536"
    and "unat (ucast (drop_bit 32 h AND 0xFFFFFFFF) :: u32) = unat h div 4294967296"
proof -
  have m: "x AND 0xFFFF = x AND mask 16" "x AND 0xFFFFFFFF = x AND mask 32" for x :: u64
    by (simp_all add: mask_eq_exp_minus_1)
  show "unat (ucast (h AND 0xFFFF) :: u16) = unat h mod 65536"
    by (simp only: m unsigned_ucast_eq unat_and_mask) (simp add: take_bit_eq_mod)
  show "unat (ucast (drop_bit 16 h AND 0xFFFF) :: u16) = unat h div 65536 mod 65536"
    by (simp only: m unsigned_ucast_eq unat_and_mask unat_drop_bit_eq) (simp add: take_bit_eq_mod drop_bit_eq_div)
  have "unat h div 4294967296 < 4294967296" using unat_u64_bound [of h] by (simp add: div_less_iff_less_mult)
  then show "unat (ucast (drop_bit 32 h AND 0xFFFFFFFF) :: u32) = unat h div 4294967296"
    by (simp only: m unsigned_ucast_eq unat_and_mask unat_drop_bit_eq) (simp add: take_bit_eq_mod drop_bit_eq_div)
qed

lemma gate_parts:
  "unat (ie_offset_low (gate_entry h a)) = unat h mod 65536"
  "unat (ie_offset_mid (gate_entry h a)) = unat h div 65536 mod 65536"
  "unat (ie_offset_high (gate_entry h a)) = unat h div 4294967296"
  unfolding gate_entry_def x86_64_idt_entry.simps by (rule offset_parts)+

lemma gate_offset:
  "le_value (le_bytes 2 (ie_offset_low (gate_entry h a)) @ le_bytes 2 (ie_offset_mid (gate_entry h a)) @
     le_bytes 4 (ie_offset_high (gate_entry h a))) = unat h"
proof -
  have "unat h div 65536 div 65536 = unat h div 4294967296" by (simp add: div_mult2_eq [symmetric])
  then have split: "unat h = unat h mod 65536 + 65536 * (unat h div 65536 mod 65536 + 65536 * (unat h div 4294967296))"
    by (metis mod_mult_div_eq mult.commute)
  have "unat h div 4294967296 < 4294967296" using unat_u64_bound [of h] by (simp add: div_less_iff_less_mult)
  then show ?thesis
    using split by (simp add: le_value_append le_value_bytes gate_parts)
qed

lemma le_bytes_1 [simp]: "le_bytes 1 (b :: u8) = [b]" "le_bytes (Suc 0) (b :: u8) = [b]"
  by (simp_all add: le_bytes_def)

lemma idt_gate_entry:
  assumes "v < length t" and "t ! v = gate_entry h a"
  shows "idt_gate (idt_bytes t) v =
    (if bit a 7 then Some \<lparr>g_handler = h, g_selector = 0x28, g_ist = 0, g_type = unat a mod 16,
       g_dpl = unat a div 32 mod 4\<rparr> else None)"
proof -
  let ?e = "gate_entry h a"
  have "take 2 (entry_bytes ?e) @ take 2 (drop 6 (entry_bytes ?e)) @ take 4 (drop 8 (entry_bytes ?e)) =
      le_bytes 2 (ie_offset_low ?e) @ le_bytes 2 (ie_offset_mid ?e) @ le_bytes 4 (ie_offset_high ?e)"
    by (simp add: entry_bytes_def)
  then have offset: "le_value (take 2 (entry_bytes ?e) @ take 2 (drop 6 (entry_bytes ?e)) @
      take 4 (drop 8 (entry_bytes ?e))) = unat h"
    by (simp only: gate_offset)
  have sel: "of_nat (le_value (take 2 (drop 2 (entry_bytes ?e)))) = (0x28 :: u16)"
    by (simp add: entry_bytes_def le_value_bytes gate_entry_def)
  have "entry_bytes ?e ! 4 = 0" "entry_bytes ?e ! 5 = a"
    by (simp_all add: entry_bytes_def nth_append gate_entry_def)
  with offset sel show ?thesis
    by (simp only: idt_gate_def Let_def idt_bytes_at [OF assms(1)] assms(2)) simp
qed

lemma idt_gate_zero:
  assumes "v < length t" and "t ! v = zero_entry"
  shows "idt_gate (idt_bytes t) v = None"
proof -
  have "entry_bytes zero_entry ! 5 = 0" by (simp add: entry_bytes_def nth_append zero_entry_def)
  then show ?thesis by (simp add: idt_gate_def Let_def idt_bytes_at [OF assms(1)] assms(2))
qed

subsection \<open>What the initialisation leaves in the table\<close>

lemma for_loop_fill:
  fixes n :: "'a::len word"
  assumes "unat n \<le> length t" and "\<And>i. i < n \<Longrightarrow> ix i = unat i"
  shows "for_loop 0 n 1 (\<lambda>i t. t[ix i := g i]) t = map (g \<circ> of_nat) [0..<unat n] @ drop (unat n) t"
proof -
  have below: "unat (of_nat k :: 'a word) = k" if "k < unat n" for k
    using that by (metis le_unat_uoi less_imp_le)
  then have "of_nat k < n" if "k < unat n" for k using that by (simp add: word_less_nat_alt)
  then have "for_loop 0 n 1 (\<lambda>i t. t[ix i := g i]) t =
      fold (\<lambda>i t. t[0 + i := (g \<circ> of_nat) i]) [0..<unat n] t"
    unfolding for_loop_count by (intro fold_cong) (simp_all add: assms(2) below)
  also have "\<dots> = map (g \<circ> of_nat) [0..<unat n] @ drop (unat n) t"
    using fold_fill [of 0 "unat n" t "g \<circ> of_nat"] assms(1) by simp
  finally show ?thesis .
qed

definition idt_after :: "(u8 \<Rightarrow> u8) \<Rightarrow> x86_64_idt_entry \<Rightarrow> u64 list \<Rightarrow> x86_64_idt_entry list" where
  "idt_after attr e stubs = map (\<lambda>k. gate_entry (stubs ! k) (attr (of_nat k))) [0..<32] @ replicate 224 e"

lemma length_idt_after [simp]: "length (idt_after attr e stubs) = 256"
  by (simp add: idt_after_def)

lemma idt_fill_stubs:
  assumes "t = replicate 256 e"
  shows "for_loop (0 :: u8) 32 1 (\<lambda>i t. t[unat i := gate_entry (stubs ! unat i) (attr i)]) t = idt_after attr e stubs"
proof -
  have "for_loop (0 :: u8) 32 1 (\<lambda>i t. t[unat i := gate_entry (stubs ! unat i) (attr i)]) t =
      map ((\<lambda>i. gate_entry (stubs ! unat i) (attr i)) \<circ> of_nat) [0..<unat (32 :: u8)] @ drop (unat (32 :: u8)) t"
    using assms by (intro for_loop_fill) simp_all
  also have "map ((\<lambda>i. gate_entry (stubs ! unat i) (attr i)) \<circ> of_nat) [0..<unat (32 :: u8)] =
      map (\<lambda>k. gate_entry (stubs ! k) (attr (of_nat k))) [0..<32]"
    by (intro map_cong) (simp_all add: unat_of_nat)
  finally show ?thesis using assms by (simp add: idt_after_def)
qed

lemma x86_64_idt_init_eq:
  assumes "length (idt_table s) = 256"
  shows "x86_64_idt_init addr stubs s h =
    Some (Returns \<lparr>idt_table = idt_after (\<lambda>_. 0x8E) zero_entry stubs,
      idtr_pointer = \<lparr>idtr_limit = 4095, idtr_base = addr\<rparr>\<rparr> (h @ [Lidt 4095 addr]))"
proof -
  have "fold (\<lambda>i t. t[i := zero_entry]) [0..<256] (idt_table s) = replicate 256 zero_entry"
    using fold_fill [of 0 256 "idt_table s" "\<lambda>_. zero_entry"] assms by (simp add: map_replicate_const)
  then have "for_loop (0 :: u8) 32 1 (\<lambda>i. x86_64_idt_set_gate i (stubs ! unat i) 0x8E)
      (fold (\<lambda>i t. t[i := zero_entry]) [0..<256] (idt_table s)) = idt_after (\<lambda>_. 0x8E) zero_entry stubs"
    unfolding set_gate_eq by (rule idt_fill_stubs)
  then show ?thesis
    by (simp add: x86_64_idt_init_def Let_def lidt_def klog_info_def io_seq_event sizeof_idt_entry_def)
      (simp add: io_return_def)
qed

lemma mcsos_idt_table:
  assumes "length t = 256"
  shows "for_loop (0 :: u16) (of_nat X86_64_IDT_VECTOR_COUNT) 1 (\<lambda>i. mcsos_idt_set_gate (ucast i) 0 0) t =
    replicate 256 (gate_entry 0 0)"
proof -
  have ix: "unat (ucast i :: u8) = unat i" if "i < 256" for i :: u16
  proof -
    have "unat i < 256" using that by (simp add: word_less_nat_alt)
    then show ?thesis by (simp only: unsigned_ucast_eq) (simp add: take_bit_eq_mod)
  qed
  have "for_loop (0 :: u16) 256 1 (\<lambda>i t. t[unat (ucast i :: u8) := gate_entry 0 0]) t =
      map ((\<lambda>_. gate_entry 0 0) \<circ> (of_nat :: nat \<Rightarrow> u16)) [0..<unat (256 :: u16)] @ drop (unat (256 :: u16)) t"
    using assms ix by (intro for_loop_fill) simp_all
  with assms show ?thesis unfolding set_gate_eq by (simp add: X86_64_IDT_VECTOR_COUNT_def map_replicate_const comp_def)
qed

lemma idt_after_gates:
  assumes "v < 256" and "e = zero_entry \<or> e = gate_entry 0 0" and "\<And>k. k < 32 \<Longrightarrow> bit (attr (of_nat k)) 7"
  shows "idt_gate (idt_bytes (idt_after attr e stubs)) v =
    (if v < 32 then Some \<lparr>g_handler = stubs ! v, g_selector = 0x28, g_ist = 0,
       g_type = unat (attr (of_nat v)) mod 16, g_dpl = unat (attr (of_nat v)) div 32 mod 4\<rparr> else None)"
proof (cases "v < 32")
  case True
  then have "idt_after attr e stubs ! v = gate_entry (stubs ! v) (attr (of_nat v))"
    by (simp add: idt_after_def nth_append)
  from idt_gate_entry [OF _ this] True assms(1,3) show ?thesis by simp
next
  case False
  then have "idt_after attr e stubs ! v = e" using assms(1) by (simp add: idt_after_def nth_append)
  with False assms(1,2) show ?thesis
    using idt_gate_zero [of v "idt_after attr e stubs"] idt_gate_entry [of v "idt_after attr e stubs" 0 0] by auto
qed


lemma mcsos_idt_init_eq:
  assumes "uart_responsive d" and "length (idt_table s) = 256"
  shows "\<exists>es. mcsos_idt_init d addr stubs s h =
    Some (Returns \<lparr>idt_table = idt_after mcsos_gate_type (gate_entry 0 0) stubs,
      idtr_pointer = \<lparr>idtr_limit = 4095, idtr_base = addr\<rparr>\<rparr> (h @ [Lidt 4095 addr] @ es)) \<and>
    list_all serial_event es \<and>
    written es = concat (map (\<lambda>l. l @ [CHR 0x0D, CHR 0x0A])
      [''idt_base'', ''0x'' @ map upper_digit (nibbles addr), ''idt_limit'',
       ''0x'' @ map upper_digit (nibbles 4095), ''[M4] IDT loaded''])"
proof -
  let ?r = "\<lparr>idtr_limit = 4095, idtr_base = addr\<rparr>"
  let ?s = "\<lparr>idt_table = idt_after mcsos_gate_type (gate_entry 0 0) stubs, idtr_pointer = ?r\<rparr>"
  have "for_loop (0 :: u8) 32 1
      (\<lambda>v. mcsos_idt_set_gate v (stubs ! unat v) (mcsos_gate_type v)) (replicate 256 (gate_entry 0 0)) =
      idt_after mcsos_gate_type (gate_entry 0 0) stubs"
    unfolding set_gate_eq by (rule idt_fill_stubs) simp
  then have init: "mcsos_idt_init d addr stubs s = io_seq (io_event (Lidt 4095 addr)) (io_seq (io_all
      [log_key_value_hex64 d (cstr ''idt_base'') addr, log_key_value_hex64 d (cstr ''idt_limit'') 4095,
       log_writeln d (cstr ''[M4] IDT loaded'')]) (io_return ?s))"
    unfolding mcsos_idt_init_def mcsos_idt_table [OF assms(2)]
    by (simp add: Let_def sizeof_idt_entry_def
      X86_64_IDT_VECTOR_COUNT_def KERNEL_ASSERT_def lidt_def io_seq_assoc)
  have "list_all2 prints [log_key_value_hex64 d (cstr ''idt_base'') addr,
      log_key_value_hex64 d (cstr ''idt_limit'') 4095, log_writeln d (cstr ''[M4] IDT loaded'')]
      [''idt_base'' @ [CHR 0x0D, CHR 0x0A] @ ''0x'' @ map upper_digit (nibbles addr) @ [CHR 0x0D, CHR 0x0A],
       ''idt_limit'' @ [CHR 0x0D, CHR 0x0A] @ ''0x'' @ map upper_digit (nibbles 4095) @ [CHR 0x0D, CHR 0x0A],
       ''[M4] IDT loaded'' @ [CHR 0x0D, CHR 0x0A]]"
    by (intro list_all2_Cons [THEN iffD2] conjI prints_log_key_value_hex64 mcsos_log.puts_prints assms) simp_all
  from prints_then [OF prints_all [OF this], of "io_return ?s" "h @ [Lidt 4095 addr]"]
  show ?thesis unfolding init io_seq_event by (auto simp: io_return_def)
qed

text \<open>C34: After the initialisation of either IDT the loaded limit is the table's size,
  and the processor reads from the table's bytes 256 well-formed gates: vectors 0 to 31 lead to
  their stub with the kernel code selector, ring 0 and no IST, as interrupt gates (the
  breakpoint of the second kernel as a trap gate), and every other vector is not
  present.\<close>

theorem idt_init_gates:
  assumes "uart_responsive d" and "length (idt_table s) = 256" and "length stubs = 32"
  shows "(\<exists>t. x86_64_idt_init addr stubs s h =
      Some (Returns \<lparr>idt_table = t, idtr_pointer = \<lparr>idtr_limit = 4095, idtr_base = addr\<rparr>\<rparr> (h @ [Lidt 4095 addr])) \<and>
      length (idt_bytes t) = 4095 + 1 \<and>
      (\<forall>v<256. idt_gate (idt_bytes t) v = (if v < 32
        then Some \<lparr>g_handler = stubs ! v, g_selector = 0x28, g_ist = 0, g_type = 14, g_dpl = 0\<rparr> else None))) \<and>
    (\<exists>t es. mcsos_idt_init d addr stubs s h =
      Some (Returns \<lparr>idt_table = t, idtr_pointer = \<lparr>idtr_limit = 4095, idtr_base = addr\<rparr>\<rparr> (h @ [Lidt 4095 addr] @ es)) \<and>
      list_all serial_event es \<and> length (idt_bytes t) = 4095 + 1 \<and>
      (\<forall>v<256. idt_gate (idt_bytes t) v = (if v < 32
        then Some \<lparr>g_handler = stubs ! v, g_selector = 0x28, g_ist = 0, g_type = (if v = 3 then 15 else 14), g_dpl = 0\<rparr>
        else None)))" (is "?first \<and> ?second")
proof
  have "idt_gate (idt_bytes (idt_after (\<lambda>_. 0x8E) zero_entry stubs)) v = (if v < 32
      then Some \<lparr>g_handler = stubs ! v, g_selector = 0x28, g_ist = 0, g_type = 14, g_dpl = 0\<rparr> else None)"
    if "v < 256" for v
    using idt_after_gates [OF that, of zero_entry "\<lambda>_. 0x8E" stubs] by (simp add: bit_simps)
  then show ?first
    using x86_64_idt_init_eq [OF assms(2), of addr stubs h] by (simp add: length_idt_bytes)
  have type: "bit (mcsos_gate_type (of_nat k)) 7" "unat (mcsos_gate_type (of_nat k)) mod 16 = (if k = 3 then 15 else 14)"
      "unat (mcsos_gate_type (of_nat k)) div 32 mod 4 = 0" if "k < 32" for k
  proof -
    have "(of_nat k = (3 :: u8)) = (k = 3)" using that by (simp add: word_unat_eq_iff unat_of_nat)
    then show "bit (mcsos_gate_type (of_nat k)) 7"
        "unat (mcsos_gate_type (of_nat k)) mod 16 = (if k = 3 then 15 else 14)"
        "unat (mcsos_gate_type (of_nat k)) div 32 mod 4 = 0"
      by (simp_all add: mcsos_gate_type_def X86_64_IDT_GATE_TRAP_def X86_64_IDT_GATE_INTERRUPT_def bit_simps)
  qed
  then have "idt_gate (idt_bytes (idt_after mcsos_gate_type (gate_entry 0 0) stubs)) v = (if v < 32
      then Some \<lparr>g_handler = stubs ! v, g_selector = 0x28, g_ist = 0, g_type = (if v = 3 then 15 else 14), g_dpl = 0\<rparr> else None)"
    if "v < 256" for v
    using idt_after_gates [OF that, of "gate_entry 0 0" mcsos_gate_type stubs] by simp
  moreover obtain es where "mcsos_idt_init d addr stubs s h =
      Some (Returns \<lparr>idt_table = idt_after mcsos_gate_type (gate_entry 0 0) stubs,
      idtr_pointer = \<lparr>idtr_limit = 4095, idtr_base = addr\<rparr>\<rparr> (h @ [Lidt 4095 addr] @ es))" "list_all serial_event es"
    using mcsos_idt_init_eq [OF assms(1,2), of addr stubs h] by blast
  ultimately show ?second
    by (intro exI [of _ "idt_after mcsos_gate_type (gate_entry 0 0) stubs"] exI [of _ es])
      (simp add: length_idt_bytes)
qed

definition blank_idt :: idt_state where
  "blank_idt = \<lparr>idt_table = replicate 256 zero_entry, idtr_pointer = \<lparr>idtr_limit = 0, idtr_base = 0\<rparr>\<rparr>"

definition sample_stubs :: "u64 list" where
  "sample_stubs = map (\<lambda>k. 0xffffffff80101000 + of_nat (16 * k)) [0..<32]"

theorem idt_init_gates_witness:
  "\<exists>t. x86_64_idt_init 0xffffffff80200000 sample_stubs blank_idt [] =
      Some (Returns \<lparr>idt_table = t, idtr_pointer = \<lparr>idtr_limit = 4095, idtr_base = 0xffffffff80200000\<rparr>\<rparr>
        [Lidt 4095 0xffffffff80200000]) \<and>
    map_option g_handler (idt_gate (idt_bytes t) 14) = Some 0xffffffff801010e0 \<and> idt_gate (idt_bytes t) 32 = None"
  using idt_init_gates [OF slow_uart_responsive, of blank_idt sample_stubs "0xffffffff80200000" "[]"]
  by (auto simp: blank_idt_def sample_stubs_def)

subsection \<open>Exceptions\<close>

text \<open>The exceptions for which the processor pushes an error code, by the architecture manuals: \<open>#DF\<close>,
  \<open>#TS\<close>, \<open>#NP\<close>, \<open>#SS\<close>, \<open>#GP\<close>, \<open>#PF\<close>, \<open>#AC\<close>, \<open>#CP\<close>, \<open>#VC\<close> and \<open>#SX\<close>.\<close>

definition x86_error_vectors :: "nat set" where
  "x86_error_vectors = {8, 10, 11, 12, 13, 14, 17, 21, 29, 30}"

definition error_code_pushed :: "nat \<Rightarrow> u64 option \<Rightarrow> bool" where
  "error_code_pushed vector err \<longleftrightarrow> (err \<noteq> None \<longleftrightarrow> vector \<in> x86_error_vectors)"

text \<open>The stubs expect an error code exactly for these.\<close>

lemma isr_err_vectors_exact: "set isr_err_vectors = x86_error_vectors"
  by (simp add: isr_err_vectors_def x86_error_vectors_def)

abbreviation trap_stack :: "nat \<Rightarrow> u64 option \<Rightarrow> u64 list \<Rightarrow> cpu_regs \<Rightarrow> u64 list" where
  "trap_stack vector err stk c \<equiv> isr_common_save c (isr_stub vector (cpu_exception c err stk))"

lemma trap_stack_eq:
  assumes "error_code_pushed vector err"
  shows "trap_stack vector err stk c =
    isr_common_save c (of_nat vector # (case err of None \<Rightarrow> 0 | Some e \<Rightarrow> e) #
      [c_rip c, c_cs c, c_rflags c, c_rsp c, c_ss c] @ stk)"
  using assms by (auto simp: error_code_pushed_def isr_stub_def isr_err_vectors_exact cpu_exception_def split: option.splits)

lemma isr_restores:
  assumes "error_code_pushed vector err"
  shows "isr_common_restore (trap_stack vector err stk c) = c"
  unfolding trap_stack_eq [OF assms] by (simp add: isr_common_save_def isr_common_restore_def)

lemma trap_frame_fields:
  assumes "error_code_pushed vector err"
  shows "tf_vector (trap_frame_at (trap_stack vector err stk c)) = of_nat vector"
    and "mf_vector (mcsos_trap_frame_at (trap_stack vector err stk c)) = of_nat vector"
    and "mf_error_code (mcsos_trap_frame_at (trap_stack vector err stk c)) = (case err of None \<Rightarrow> 0 | Some e \<Rightarrow> e)"
    and "mf_rip (mcsos_trap_frame_at (trap_stack vector err stk c)) = c_rip c"
  unfolding trap_stack_eq [OF assms] by (simp_all add: isr_common_save_def trap_frame_at_def mcsos_trap_frame_at_def)

lemma vector_is_breakpoint: "vector < 32 \<Longrightarrow> (of_nat vector = (3 :: u64)) = (vector = 3)"
  by (simp add: word_unat_eq_iff unat_of_nat)

lemma trap_dispatch_eq:
  "x86_64_trap_dispatch d rsi f =
    (if tf_vector f = 3 then io_return () else kernel_panic d (cstr ''Fail-Closed Unhandled Kernel Exception.'') rsi)"
  by (simp add: x86_64_trap_dispatch_def Let_def klog_info_def klog_error_def)

text \<open>The lines the handler of the second kernel logs for every trap.\<close>

definition trap_dump :: "u64 \<Rightarrow> u64 \<Rightarrow> u64 \<Rightarrow> string" where
  "trap_dump vector err rip = concat (map (\<lambda>l. l @ [CHR 0x0D, CHR 0x0A])
     [''--- [TRAP FRAME REGISTER DUMP] ---'', ''Trap Vector'', ''0x'' @ map upper_digit (nibbles vector),
      ''Error Code '', ''0x'' @ map upper_digit (nibbles err), ''RIP        '', ''0x'' @ map upper_digit (nibbles rip)])"

lemma prints_trap_dump:
  assumes "uart_responsive d"
  shows "prints (io_all
      [log_writeln d (cstr ''--- [TRAP FRAME REGISTER DUMP] ---''), log_key_value_hex64 d (cstr ''Trap Vector'') v,
       log_key_value_hex64 d (cstr ''Error Code '') e, log_key_value_hex64 d (cstr ''RIP        '') r])
    (trap_dump v e r)"
proof -
  have "list_all2 prints
      [log_writeln d (cstr ''--- [TRAP FRAME REGISTER DUMP] ---''), log_key_value_hex64 d (cstr ''Trap Vector'') v,
       log_key_value_hex64 d (cstr ''Error Code '') e, log_key_value_hex64 d (cstr ''RIP        '') r]
      [''--- [TRAP FRAME REGISTER DUMP] ---'' @ [CHR 0x0D, CHR 0x0A],
       ''Trap Vector'' @ [CHR 0x0D, CHR 0x0A] @ ''0x'' @ map upper_digit (nibbles v) @ [CHR 0x0D, CHR 0x0A],
       ''Error Code '' @ [CHR 0x0D, CHR 0x0A] @ ''0x'' @ map upper_digit (nibbles e) @ [CHR 0x0D, CHR 0x0A],
       ''RIP        '' @ [CHR 0x0D, CHR 0x0A] @ ''0x'' @ map upper_digit (nibbles r) @ [CHR 0x0D, CHR 0x0A]]"
    by (intro list_all2_Cons [THEN iffD2] conjI prints_log_key_value_hex64 mcsos_log.puts_prints assms) simp_all
  from prints_all [OF this] show ?thesis by (simp add: trap_dump_def)
qed

text \<open>The stub of any vector but the breakpoint ends in a halt.\<close>

lemma x86_64_exception_halts:
  assumes "uart_responsive d" and "vector < 32" and "error_code_pushed vector err" and "vector \<noteq> 3"
  shows "\<exists>es. x86_64_exception d rsi vector err stk c h = Some (Halts (h @ [Cli] @ es @ [Hlt])) \<and>
    list_all serial_event es \<and>
    written es = CHR 0x0A # ''[MCSOS:PANIC] Fail-Closed Unhandled Kernel Exception. code=0x'' @
      map lower_digit (nibbles rsi) @ [CHR 0x0A]"
proof -
  obtain es where "kernel_panic d (cstr ''Fail-Closed Unhandled Kernel Exception.'') rsi h =
      (Some (Halts (h @ [Cli] @ es @ [Hlt])) :: unit outcome option)" "list_all serial_event es"
      "written es = CHR 0x0A # ''[MCSOS:PANIC] '' @ ''Fail-Closed Unhandled Kernel Exception.'' @ '' code=0x'' @
        map lower_digit (nibbles rsi) @ [CHR 0x0A]"
    using kernel_panic_prints [OF assms(1), of "''Fail-Closed Unhandled Kernel Exception.''" rsi h] by auto
  with assms(2,4) show ?thesis
    by (simp add: x86_64_exception_def Let_def trap_dispatch_eq trap_frame_fields [OF assms(3)] vector_is_breakpoint
      io_seq_def io_bind_def)
qed

lemma mcsos_exception_halts:
  assumes "uart_responsive d" and "vector < 32" and "error_code_pushed vector err" and "vector \<noteq> 3"
  shows "\<exists>es. mcsos_exception d n vector err stk c h = Some (Halts (h @ es @ [Hlt])) \<and> list_all serial_event es \<and>
    written es = trap_dump (of_nat vector) (case err of None \<Rightarrow> 0 | Some e \<Rightarrow> e) (c_rip c)"
proof -
  obtain es where "io_seq (io_all
      [log_writeln d (cstr ''--- [TRAP FRAME REGISTER DUMP] ---''), log_key_value_hex64 d (cstr ''Trap Vector'') (of_nat vector),
       log_key_value_hex64 d (cstr ''Error Code '') (case err of None \<Rightarrow> 0 | Some e \<Rightarrow> e),
       log_key_value_hex64 d (cstr ''RIP        '') (c_rip c)]) halt_loop h =
      (Some (Halts (h @ es @ [Hlt])) :: u64 outcome option)" "list_all serial_event es"
      "written es = trap_dump (of_nat vector) (case err of None \<Rightarrow> 0 | Some e \<Rightarrow> e) (c_rip c)"
    using prints_halts [OF prints_trap_dump [OF assms(1)]] by blast
  moreover have "mcsos_exception d n vector err stk c h = (case io_seq (io_all
      [log_writeln d (cstr ''--- [TRAP FRAME REGISTER DUMP] ---''), log_key_value_hex64 d (cstr ''Trap Vector'') (of_nat vector),
       log_key_value_hex64 d (cstr ''Error Code '') (case err of None \<Rightarrow> 0 | Some e \<Rightarrow> e),
       log_key_value_hex64 d (cstr ''RIP        '') (c_rip c)]) halt_loop h of
      None \<Rightarrow> None | Some (Halts h') \<Rightarrow> Some (Halts h')
      | Some (Returns n h') \<Rightarrow> io_return (n, isr_common_restore (trap_stack vector err stk c)) h')"
    unfolding mcsos_exception_def Let_def mcsos_trap_dispatch_def trap_frame_fields [OF assms(3)]
    using assms(2,4) by (simp add: vector_is_breakpoint mcsos_kernel_panic_at_def io_bind_def del: io_all_simps)
  ultimately show ?thesis by (simp del: io_all_simps)
qed

text \<open>The stub of the breakpoint returns to the interrupted code.\<close>

lemma breakpoint_pushes_nothing: "error_code_pushed 3 None"
  by (simp add: error_code_pushed_def x86_error_vectors_def)

lemmas breakpoint_frame = trap_frame_fields [OF breakpoint_pushes_nothing] isr_restores [OF breakpoint_pushes_nothing]

lemma breakpoint_returns: "x86_64_exception d rsi 3 None stk c h = Some (Returns c h)"
  by (simp add: x86_64_exception_def Let_def trap_dispatch_eq breakpoint_frame) (simp add: io_return_def)

lemma mcsos_breakpoint_returns:
  assumes "uart_responsive d"
  shows "\<exists>es. mcsos_exception d n 3 None stk c h = Some (Returns (n + 1, c) (h @ es)) \<and> list_all serial_event es \<and>
    written es = trap_dump 3 0 (c_rip c) @
      ''[M4] Breakpoint exception handled correctly. Recovering path...'' @ [CHR 0x0D, CHR 0x0A]"
proof -
  have "prints (io_seq (io_all
      [log_writeln d (cstr ''--- [TRAP FRAME REGISTER DUMP] ---''), log_key_value_hex64 d (cstr ''Trap Vector'') 3,
       log_key_value_hex64 d (cstr ''Error Code '') 0, log_key_value_hex64 d (cstr ''RIP        '') (c_rip c)])
      (log_writeln d (cstr ''[M4] Breakpoint exception handled correctly. Recovering path...'')))
      (trap_dump 3 0 (c_rip c) @
        ''[M4] Breakpoint exception handled correctly. Recovering path...'' @ [CHR 0x0D, CHR 0x0A])"
    by (intro prints_seq prints_trap_dump mcsos_log.puts_prints assms) simp
  from prints_then [OF this, of "io_return (n + 1)" h] show ?thesis
    unfolding mcsos_exception_def Let_def mcsos_trap_dispatch_def breakpoint_frame
    by (auto simp: io_seq_assoc io_bind_def io_return_def)
qed

subsection \<open>Delivery after the initialisation\<close>

text \<open>The linker gives each stub an address of its own. The descriptor table in force has a 64-bit code
  segment at the selector the gates use.\<close>

definition stubs_ok :: "u64 list \<Rightarrow> bool" where
  "stubs_ok stubs \<longleftrightarrow> length stubs = 32 \<and> distinct stubs"

definition kernel_code_segment :: "(u16 \<Rightarrow> u64 option) \<Rightarrow> bool" where
  "kernel_code_segment desc \<longleftrightarrow> (case desc 0x28 of None \<Rightarrow> False | Some e \<Rightarrow> code64_descriptor e)"

lemma stub_at_nth:
  assumes "stubs_ok stubs" and "i < 32"
  shows "stub_at stubs (stubs ! i) = Some i"
  using assms by (auto simp: stub_at_def stubs_ok_def find_Some_iff nth_eq_iff_index_eq)

lemma deliver_after:
  assumes "e = zero_entry \<or> e = gate_entry 0 0"
    and "\<And>k. k < 32 \<Longrightarrow> bit (attr (of_nat k)) 7 \<and> unat (attr (of_nat k)) mod 16 \<in> {14, 15}"
  shows "x86_deliver desc \<lparr>idt_table = idt_after attr e stubs, idtr_pointer = \<lparr>idtr_limit = 4095, idtr_base = addr\<rparr>\<rparr> v =
    (if v < 32 \<and> kernel_code_segment desc then Some (stubs ! v) else None)"
proof (cases "v < 256")
  case True
  then show ?thesis
    using idt_after_gates [OF True assms(1), of attr stubs] assms(2) [of v] assms(2)
    by (auto simp: x86_deliver_def kernel_code_segment_def split: option.splits)
next
  case False
  then show ?thesis by (simp add: x86_deliver_def)
qed

lemma mcsos_gate_type_ok: "bit (mcsos_gate_type w) 7 \<and> unat (mcsos_gate_type w) mod 16 \<in> {14, 15}"
  by (simp add: mcsos_gate_type_def X86_64_IDT_GATE_TRAP_def X86_64_IDT_GATE_INTERRUPT_def bit_simps)

text \<open>Once either table is loaded, the processor enters the stub of each vector below 32 when its descriptor
  table has the segment of the gates, and otherwise can deliver nothing at all.\<close>

lemma x86_64_idt_delivers:
  assumes "length (idt_table s) = 256"
  shows "\<exists>s'. x86_64_idt_init addr stubs s h = Some (Returns s' (h @ [Lidt 4095 addr])) \<and>
    (\<forall>v. x86_deliver desc s' v = (if v < 32 \<and> kernel_code_segment desc then Some (stubs ! v) else None))"
  using x86_64_idt_init_eq [OF assms, of addr stubs h] deliver_after [of zero_entry "\<lambda>_. 0x8E" desc stubs addr]
  by (auto simp: bit_simps)

lemma mcsos_idt_delivers:
  assumes "uart_responsive d" and "length (idt_table s) = 256"
  shows "\<exists>s' es. mcsos_idt_init d addr stubs s h = Some (Returns s' (h @ [Lidt 4095 addr] @ es)) \<and> list_all serial_event es \<and>
    (\<forall>desc v. x86_deliver desc s' v = (if v < 32 \<and> kernel_code_segment desc then Some (stubs ! v) else None))"
  using mcsos_idt_init_eq [OF assms, of addr stubs h]
    deliver_after [of "gate_entry 0 0" mcsos_gate_type _ stubs addr, OF _ mcsos_gate_type_ok] by blast

lemma entered_stub_delivered:
  assumes "\<forall>v. x86_deliver desc s v = (if v < 32 \<and> kernel_code_segment desc then Some (stubs ! v) else None)"
    and "stubs_ok stubs" and "kernel_code_segment desc" and "v < 32"
  shows "entered_stub desc s stubs v = Some v"
  using assms by (simp add: entered_stub_def stub_at_nth)

definition sample_regs :: cpu_regs where
  "sample_regs = \<lparr>c_r15 = 15, c_r14 = 14, c_r13 = 13, c_r12 = 12, c_r11 = 11, c_r10 = 10, c_r9 = 9, c_r8 = 8,
     c_rsi = 7, c_rdi = 6, c_rbp = 5, c_rdx = 4, c_rcx = 3, c_rbx = 2, c_rax = 1,
     c_rip = 0xffffffff80100123, c_cs = 0x28, c_rflags = 0x202, c_rsp = 0xffffffff80300000, c_ss = 0x30\<rparr>"

text \<open>The code segment of the boot loader's descriptor table.\<close>

definition sample_desc :: "u16 \<Rightarrow> u64 option" where
  "sample_desc sel = (if sel = 0x28 then Some 0x00af9b000000ffff else None)"

lemma sample_code_segment: "kernel_code_segment sample_desc"
  by (simp add: kernel_code_segment_def sample_desc_def code64_descriptor_def)

lemma sample_stubs_ok: "stubs_ok sample_stubs"
  by (simp add: stubs_ok_def sample_stubs_def upt_conv_Cons)

end
