(* ===== verification/Int80.thy ===== *)
theory Int80
  imports Syscall Traps
begin

text \<open>
  The entry of the system calls, \<open>src/mcsos/kernel/syscall/syscall_entry.S\<close>: the stub of
  \<open>int 0x80\<close> builds a frame on the stack from the registers of the caller, calls the dispatcher of
  \<open>Syscall\<close> and returns its result in \<open>rax\<close>. What the compiled dispatcher leaves in the registers
  is a parameter \<open>after_call\<close>; the calling convention promises \<open>callee_saved\<close>.
\<close>

definition syscall_frame_at :: "u64 list \<Rightarrow> mcsos_syscall_frame" where
  "syscall_frame_at stk =
     \<lparr>nr = stk ! 0, arg0 = stk ! 1, arg1 = stk ! 2, arg2 = stk ! 3, arg3 = stk ! 4, arg4 = stk ! 5,
      arg5 = stk ! 6, ret = sint (stk ! 7)\<rparr>"

definition x86_64_syscall_int80_stub ::
  "(cpu_regs \<Rightarrow> cpu_regs) \<Rightarrow> 'w syscall_globals \<Rightarrow> u64 list \<Rightarrow> cpu_regs \<Rightarrow> 'w \<Rightarrow> (cpu_regs \<times> 'w) option option" where
  "x86_64_syscall_int80_stub after_call g stk c w =
     (let stk = cpu_exception c None stk;
          stk = [c_rax c, c_rdi c, c_rsi c, c_rdx c, c_r10 c, c_r8 c, c_r9 c, 0] @ stk
      in case mcsos_syscall_dispatch_frame g (Some (syscall_frame_at stk)) w of
           None \<Rightarrow> None
         | Some None \<Rightarrow> Some None
         | Some (Some (f, w)) \<Rightarrow>
             let stk = stk[7 := word_of_int (ret (the f))];
                 c = (after_call c)\<lparr>c_rax := stk ! 7\<rparr>;
                 stk = drop 8 stk
             in Some (Some (c\<lparr>c_rip := stk ! 0, c_cs := stk ! 1, c_rflags := stk ! 2, c_rsp := stk ! 3, c_ss := stk ! 4\<rparr>, w)))"

subsection \<open>What the caller gets back\<close>

definition callee_saved :: "cpu_regs \<Rightarrow> u64 list" where
  "callee_saved c = [c_rbx c, c_rbp c, c_r12 c, c_r13 c, c_r14 c, c_r15 c]"

definition return_state :: "cpu_regs \<Rightarrow> u64 list" where
  "return_state c = [c_rip c, c_cs c, c_rflags c, c_rsp c, c_ss c]"

text \<open>The call named by \<open>rax\<close> runs with the arguments in \<open>rdi\<close>, \<open>rsi\<close>, \<open>rdx\<close>, \<open>r10\<close>, \<open>r8\<close>, \<open>r9\<close>; the
  caller resumes where it was, on its stack, with its callee-saved registers and the result in
  \<open>rax\<close>. The stub returns exactly when the dispatcher does. Of the other registers it promises
  nothing, also those in which the arguments came.\<close>

theorem int80_returns_result:
  assumes abi: "\<And>c. callee_saved (after_call c) = callee_saved c"
    and call: "mcsos_syscall_dispatch g (c_rax c) (c_rdi c) (c_rsi c) (c_rdx c) (c_r10 c) (c_r8 c) (c_r9 c) w = res"
  shows "case res of
      None \<Rightarrow> x86_64_syscall_int80_stub after_call g stk c w = None
    | Some None \<Rightarrow> x86_64_syscall_int80_stub after_call g stk c w = Some None
    | Some (Some (r, w')) \<Rightarrow> (\<exists>c'. x86_64_syscall_int80_stub after_call g stk c w = Some (Some (c', w')) \<and>
        c_rax c' = word_of_int r \<and> return_state c' = return_state c \<and> callee_saved c' = callee_saved c)"
  using abi [of c] call
  by (auto simp: x86_64_syscall_int80_stub_def mcsos_syscall_dispatch_frame_def syscall_frame_at_def
      cpu_exception_def callee_saved_def return_state_def Let_def split: option.splits prod.splits)

corollary int80_ping:
  assumes "\<And>c. callee_saved (after_call c) = callee_saved c" and "c_rax c = MCSOS_SYS_PING"
  shows "\<exists>c'. x86_64_syscall_int80_stub after_call g stk c w = Some (Some (c', w)) \<and> c_rax c' = 0x2605020A \<and>
    return_state c' = return_state c \<and> callee_saved c' = callee_saved c"
  using int80_returns_result [of after_call g c w "Some (Some (0x2605020A, w))" stk] assms
  by (simp add: mcsos_syscall_dispatch_def mcsos_numbers g_table_def sys_ping_def)

end
