(* ===== verification/Timer.thy ===== *)
theory Timer
  imports Serial
begin

text \<open>
  The interrupt controllers and the timer: \<open>src/src/pic.c\<close> and \<open>src/src/pit.c\<close>.

  The code is modelled as the port accesses it makes. What these mean is stated against reference
  definitions of the two devices, written from their data sheets: a pair of 8259A controllers
  (\<open>pic_run\<close>: initialisation words, mask and in-service registers) and channel 0 of the 8254
  (\<open>pit_run\<close>: control word, then low and high byte of the reload value). A division by zero and a
  shift by more than the width of the operand are not defined in C and give \<open>None\<close>.
\<close>

subsection \<open>The interrupt controllers\<close>

definition PIC1_COMMAND :: u16 where "PIC1_COMMAND = 0x20"
definition PIC1_DATA :: u16 where "PIC1_DATA = 0x21"
definition PIC2_COMMAND :: u16 where "PIC2_COMMAND = 0xA0"
definition PIC2_DATA :: u16 where "PIC2_DATA = 0xA1"
definition PIC_EOI :: u8 where "PIC_EOI = 0x20"

lemmas pic_ports = PIC1_COMMAND_def PIC1_DATA_def PIC2_COMMAND_def PIC2_DATA_def PIC_EOI_def

definition pic_remap :: "device \<Rightarrow> u8 \<Rightarrow> u8 \<Rightarrow> unit io" where
  "pic_remap d master_offset slave_offset =
     io_bind (inb d PIC1_DATA) (\<lambda>master_mask.
     io_bind (inb d PIC2_DATA) (\<lambda>slave_mask.
     io_all
       [outb PIC1_COMMAND 0x11, io_wait,
        outb PIC2_COMMAND 0x11, io_wait,
        outb PIC1_DATA master_offset, io_wait,
        outb PIC2_DATA slave_offset, io_wait,
        outb PIC1_DATA 0x04, io_wait,
        outb PIC2_DATA 0x02, io_wait,
        outb PIC1_DATA 0x01, io_wait,
        outb PIC2_DATA 0x01, io_wait,
        outb PIC1_DATA master_mask,
        outb PIC2_DATA slave_mask]))"

definition pic_mask_all :: "unit io" where
  "pic_mask_all = io_all [outb PIC1_DATA 0xFF, outb PIC2_DATA 0xFF]"

definition pic_unmask_irq :: "device \<Rightarrow> u8 \<Rightarrow> unit io" where
  "pic_unmask_irq d irq =
     (let (port, irq) = (if irq < 8 then (PIC1_DATA, irq) else (PIC2_DATA, irq - 8))
      in if 32 \<le> unat irq then (\<lambda>h. None)
         else io_bind (inb d port) (\<lambda>v.
           outb port (ucast ((ucast v :: u32) AND NOT (push_bit (unat irq) 1)))))"

definition pic_send_eoi :: "u8 \<Rightarrow> unit io" where
  "pic_send_eoi irq =
     io_seq (if irq \<ge> 8 then outb PIC2_COMMAND PIC_EOI else io_return ()) (outb PIC1_COMMAND PIC_EOI)"

definition pic_read_master_mask :: "device \<Rightarrow> u8 io" where
  "pic_read_master_mask d = inb d PIC1_DATA"

definition pic_read_slave_mask :: "device \<Rightarrow> u8 io" where
  "pic_read_slave_mask d = inb d PIC2_DATA"

subsection \<open>The timer\<close>

definition PIT_BASE_FREQUENCY :: u32 where "PIT_BASE_FREQUENCY = 1193182"
definition PIT_CHANNEL0_DATA :: u16 where "PIT_CHANNEL0_DATA = 0x40"
definition PIT_MODE_COMMAND :: u16 where "PIT_MODE_COMMAND = 0x43"

definition pit_divisor :: "u32 \<Rightarrow> u32" where
  "pit_divisor hz =
     (let divisor = PIT_BASE_FREQUENCY div hz
      in if PIT_BASE_FREQUENCY mod hz \<ge> hz div 2 then divisor + 1 else divisor)"

definition pit_configure_hz :: "u32 \<Rightarrow> unit io" where
  "pit_configure_hz hz =
     (if hz = 0 then (\<lambda>h. None)
      else io_all
        [outb PIT_MODE_COMMAND 0x36,
         outb PIT_CHANNEL0_DATA (ucast (pit_divisor hz AND 0xFF)),
         outb PIT_CHANNEL0_DATA (ucast (drop_bit 8 (pit_divisor hz) AND 0xFF))])"

definition timer_on_irq0 :: "device \<Rightarrow> u64 \<Rightarrow> u64 io" where
  "timer_on_irq0 d g_ticks =
     (let g_ticks = g_ticks + 1
      in if g_ticks mod 100 = 0
         then io_seq (io_all
                [serial_write_string d (cstr ''[MCSOS:TIMER] ticks=''),
                 serial_write_dec64 d g_ticks,
                 serial_write_string d (cstr [CHR 0x0A])])
              (io_return g_ticks)
         else io_return g_ticks)"

definition timer_ticks :: "u64 \<Rightarrow> u64" where
  "timer_ticks g_ticks = g_ticks"

subsection \<open>The controllers as their data sheet describes them\<close>

text \<open>\<open>pic_stage\<close> is the initialisation word the controller expects next, 0 when it is ready.
  A command with bit 4 set starts the initialisation and clears mask and in-service bits; the words
  that follow are the vector offset, the cascade wiring (unless bit 1 of the first word is set)
  and the mode (if bit 0 is set). The command 0x20 ends the in-service interrupt of the highest
  priority.\<close>

record pic =
  pic_stage :: nat
  pic_icw1 :: u8
  pic_offset :: u8
  pic_cascade :: u8
  pic_mode :: u8
  pic_imr :: u8
  pic_isr :: u8

record pics =
  master :: pic
  slave :: pic

definition pic_command :: "u8 \<Rightarrow> pic \<Rightarrow> pic" where
  "pic_command v p =
     (if bit v 4 then p\<lparr>pic_stage := 2, pic_icw1 := v, pic_imr := 0, pic_isr := 0\<rparr>
      else if v = 0x20 then p\<lparr>pic_isr := pic_isr p AND (pic_isr p - 1)\<rparr>
      else p)"

definition pic_data :: "u8 \<Rightarrow> pic \<Rightarrow> pic" where
  "pic_data v p =
     (if pic_stage p = 2 then
        p\<lparr>pic_offset := v AND 0xF8,
          pic_stage := (if \<not> bit (pic_icw1 p) 1 then 3 else if bit (pic_icw1 p) 0 then 4 else 0)\<rparr>
      else if pic_stage p = 3 then
        p\<lparr>pic_cascade := v, pic_stage := (if bit (pic_icw1 p) 0 then 4 else 0)\<rparr>
      else if pic_stage p = 4 then p\<lparr>pic_mode := v, pic_stage := 0\<rparr>
      else p\<lparr>pic_imr := v\<rparr>)"

fun pic_step :: "io_event \<Rightarrow> pics \<Rightarrow> pics" where
  "pic_step (Out port v) ps =
     (if port = 0x20 then ps\<lparr>master := pic_command v (master ps)\<rparr>
      else if port = 0x21 then ps\<lparr>master := pic_data v (master ps)\<rparr>
      else if port = 0xA0 then ps\<lparr>slave := pic_command v (slave ps)\<rparr>
      else if port = 0xA1 then ps\<lparr>slave := pic_data v (slave ps)\<rparr>
      else ps)"
| "pic_step _ ps = ps"

definition pic_run :: "history \<Rightarrow> pics \<Rightarrow> pics" where
  "pic_run h ps = fold pic_step h ps"

lemma pic_run_simps [simp]:
  "pic_run [] ps = ps"
  "pic_run (e # h) ps = pic_run h (pic_step e ps)"
  "pic_run (g @ h) ps = pic_run h (pic_run g ps)"
  by (simp_all add: pic_run_def)

definition pics_ready :: "pics \<Rightarrow> bool" where
  "pics_ready ps \<longleftrightarrow> pic_stage (master ps) = 0 \<and> pic_stage (slave ps) = 0"

text \<open>A read of the data port of a controller that is not being initialised gives its mask.\<close>

definition masks_readable :: "device \<Rightarrow> pics \<Rightarrow> bool" where
  "masks_readable d ps \<longleftrightarrow> (\<forall>h. pics_ready (pic_run h ps) \<longrightarrow>
     d h PIC1_DATA = pic_imr (master (pic_run h ps)) \<and> d h PIC2_DATA = pic_imr (slave (pic_run h ps)))"

definition remap_words :: "u8 \<Rightarrow> u8 \<Rightarrow> u8 \<Rightarrow> u8 \<Rightarrow> history" where
  "remap_words m s x y = map (\<lambda>(p, v). Out p v)
     [(0x20, 0x11), (0x80, 0), (0xA0, 0x11), (0x80, 0), (0x21, m), (0x80, 0), (0xA1, s), (0x80, 0),
      (0x21, 0x04), (0x80, 0), (0xA1, 0x02), (0x80, 0), (0x21, 0x01), (0x80, 0), (0xA1, 0x01), (0x80, 0),
      (0x21, x), (0xA1, y)]"

lemma pic_run_remap_words:
  assumes "pic_stage ma = 0" and "pic_stage sl = 0"
  shows "pic_run (remap_words m s (pic_imr ma) (pic_imr sl)) \<lparr>master = ma, slave = sl\<rparr> =
    \<lparr>master = ma\<lparr>pic_icw1 := 0x11, pic_offset := m AND 0xF8, pic_cascade := 4, pic_mode := 1, pic_isr := 0\<rparr>,
     slave = sl\<lparr>pic_icw1 := 0x11, pic_offset := s AND 0xF8, pic_cascade := 2, pic_mode := 1, pic_isr := 0\<rparr>\<rparr>"
  using assms by (cases ma, cases sl) (simp add: remap_words_def pic_command_def pic_data_def bit_simps)

text \<open>C38: On two 8259A controllers that await no initialisation word, pic_remap sets the
  vector offsets to the given ones rounded down to a multiple of 8, wires the slave to line 2,
  and leaves both interrupt masks as they were.\<close>

theorem pic_remap_keeps_masks:
  assumes "masks_readable d ps" and "pics_ready (pic_run h ps)"
  shows "\<exists>es. pic_remap d m s h = Some (Returns () (h @ es)) \<and>
    pic_run (h @ es) ps =
      \<lparr>master = (master (pic_run h ps))\<lparr>pic_icw1 := 0x11, pic_offset := m AND 0xF8, pic_cascade := 4,
         pic_mode := 1, pic_isr := 0\<rparr>,
       slave = (slave (pic_run h ps))\<lparr>pic_icw1 := 0x11, pic_offset := s AND 0xF8, pic_cascade := 2,
         pic_mode := 1, pic_isr := 0\<rparr>\<rparr>"
proof -
  define x where "x = d h PIC1_DATA"
  define y where "y = d (h @ [In PIC1_DATA x]) PIC2_DATA"
  let ?es = "In PIC1_DATA x # In PIC2_DATA y # remap_words m s x y"
  have same: "pic_run (h @ [In PIC1_DATA x]) ps = pic_run h ps" by simp
  obtain ma sl where p: "pic_run h ps = \<lparr>master = ma, slave = sl\<rparr>" by (cases "pic_run h ps") auto
  have "x = pic_imr (master (pic_run h ps))" "y = pic_imr (slave (pic_run h ps))"
    unfolding x_def [symmetric] y_def using assms same unfolding masks_readable_def x_def by metis+
  then have "x = pic_imr ma" "y = pic_imr sl" by (simp_all add: p)
  then have "pic_run (h @ ?es) ps =
    \<lparr>master = ma\<lparr>pic_icw1 := 0x11, pic_offset := m AND 0xF8, pic_cascade := 4, pic_mode := 1, pic_isr := 0\<rparr>,
     slave = sl\<lparr>pic_icw1 := 0x11, pic_offset := s AND 0xF8, pic_cascade := 2, pic_mode := 1, pic_isr := 0\<rparr>\<rparr>"
    using pic_run_remap_words [of ma sl m s] assms(2) by (simp add: p pics_ready_def)
  moreover have "pic_remap d m s h = Some (Returns () (h @ ?es))"
    unfolding pic_remap_def remap_words_def io_bind_inb x_def [symmetric] y_def [symmetric]
    by (simp add: io_simps pic_ports io_return_def)
  ultimately show ?thesis by (intro exI [of _ ?es]) (simp add: p)
qed

text \<open>Controllers that answer reads from the reference definition, started by the firmware with
  offsets 8 and 0x70.\<close>

definition bios_pics :: pics where
  "bios_pics =
     \<lparr>master = \<lparr>pic_stage = 0, pic_icw1 = 0x11, pic_offset = 8, pic_cascade = 4, pic_mode = 1, pic_imr = 0xB8, pic_isr = 0\<rparr>,
      slave = \<lparr>pic_stage = 0, pic_icw1 = 0x11, pic_offset = 0x70, pic_cascade = 2, pic_mode = 1, pic_imr = 0x8E, pic_isr = 0\<rparr>\<rparr>"

definition pic_device :: device where
  "pic_device h port =
     (if port = PIC1_DATA then pic_imr (master (pic_run h bios_pics))
      else if port = PIC2_DATA then pic_imr (slave (pic_run h bios_pics)) else 0)"

lemma pic_device_masks: "masks_readable pic_device bios_pics"
  by (simp add: masks_readable_def pic_device_def pic_ports)

theorem pic_remap_keeps_masks_witness:
  "\<exists>es. pic_remap pic_device 0x20 0x28 [] = Some (Returns () es) \<and>
    pic_offset (master (pic_run es bios_pics)) = 0x20 \<and> pic_offset (slave (pic_run es bios_pics)) = 0x28 \<and>
    pic_imr (master (pic_run es bios_pics)) = 0xB8"
  using pic_remap_keeps_masks [OF pic_device_masks, of "[]" "0x20" "0x28"]
  by (auto simp: pics_ready_def bios_pics_def)

subsection \<open>Masking and end of interrupt\<close>

lemma clear_bit_byte:
  "(ucast ((ucast v :: u32) AND NOT (push_bit k 1)) :: u8) = v AND NOT (push_bit k 1)"
  by (rule bit_word_eqI) (auto simp: bit_simps)

lemma pic_run_data:
  assumes "pics_ready ps"
  shows "pic_run [Out PIC1_DATA v] ps = ps\<lparr>master := (master ps)\<lparr>pic_imr := v\<rparr>\<rparr>"
    and "pic_run [Out PIC2_DATA v] ps = ps\<lparr>slave := (slave ps)\<lparr>pic_imr := v\<rparr>\<rparr>"
  using assms by (simp_all add: pic_ports pics_ready_def pic_data_def)

text \<open>Unmasking one of the 16 lines clears its mask bit and changes nothing else of the controllers.\<close>

theorem pic_unmask_irq_exact:
  assumes "masks_readable d ps" and "pics_ready (pic_run h ps)" and "irq < 16"
  shows "\<exists>es. pic_unmask_irq d irq h = Some (Returns () (h @ es)) \<and>
    pic_run (h @ es) ps =
      (if irq < 8
       then (pic_run h ps)\<lparr>master := (master (pic_run h ps))
              \<lparr>pic_imr := pic_imr (master (pic_run h ps)) AND NOT (push_bit (unat irq) 1)\<rparr>\<rparr>
       else (pic_run h ps)\<lparr>slave := (slave (pic_run h ps))
              \<lparr>pic_imr := pic_imr (slave (pic_run h ps)) AND NOT (push_bit (unat irq - 8) 1)\<rparr>\<rparr>)"
proof -
  let ?p = "pic_run h ps"
  have masks: "d h PIC1_DATA = pic_imr (master ?p)" "d h PIC2_DATA = pic_imr (slave ?p)"
    using assms(1,2) by (simp_all add: masks_readable_def)
  show ?thesis
  proof (cases "irq < 8")
    case True
    let ?v = "pic_imr (master ?p)" and ?w = "pic_imr (master ?p) AND NOT (push_bit (unat irq) 1)"
    have "\<not> 32 \<le> unat irq" using True by (simp add: word_less_nat_alt)
    then have "pic_unmask_irq d irq h = Some (Returns () (h @ [In PIC1_DATA ?v, Out PIC1_DATA ?w]))"
      using True by (simp add: pic_unmask_irq_def io_bind_inb masks clear_bit_byte outb_def io_event_def del: push_bit_of_1)
    then show ?thesis using True pic_run_data(1) [OF assms(2), of ?w] by simp
  next
    case False
    let ?v = "pic_imr (slave ?p)" and ?w = "pic_imr (slave ?p) AND NOT (push_bit (unat irq - 8) 1)"
    have "8 \<le> irq" using False by simp
    then have irq: "unat (irq - 8) = unat irq - 8" by (simp add: unat_sub)
    then have "\<not> 32 \<le> unat (irq - 8)" using assms(3) by (simp add: word_less_nat_alt)
    then have "pic_unmask_irq d irq h = Some (Returns () (h @ [In PIC2_DATA ?v, Out PIC2_DATA ?w]))"
      using False by (simp add: pic_unmask_irq_def io_bind_inb masks clear_bit_byte outb_def io_event_def irq del: push_bit_of_1)
    then show ?thesis using False pic_run_data(2) [OF assms(2), of ?w] by simp
  qed
qed

theorem pic_unmask_irq_exact_witness:
  "\<exists>es. pic_unmask_irq pic_device 12 [] = Some (Returns () es) \<and>
    pic_imr (slave (pic_run es bios_pics)) = 0x8E AND NOT (push_bit 4 1)"
  using pic_unmask_irq_exact [OF pic_device_masks, of "[]" 12] by (auto simp: pics_ready_def bios_pics_def)

lemma pic_mask_all_masks:
  assumes "pics_ready (pic_run h ps)"
  shows "\<exists>es. pic_mask_all h = Some (Returns () (h @ es)) \<and> pics_ready (pic_run (h @ es) ps) \<and>
    pic_imr (master (pic_run (h @ es) ps)) = 0xFF \<and> pic_imr (slave (pic_run (h @ es) ps)) = 0xFF"
  using assms
  by (intro exI [of _ "[Out PIC1_DATA 0xFF, Out PIC2_DATA 0xFF]"])
    (simp add: pic_mask_all_def io_simps io_return_def pic_ports pics_ready_def pic_data_def)

lemma pic_send_eoi_ends:
  "\<exists>es. pic_send_eoi irq h = Some (Returns () (h @ es)) \<and>
    pic_isr (master (pic_run (h @ es) ps)) =
      pic_isr (master (pic_run h ps)) AND (pic_isr (master (pic_run h ps)) - 1) \<and>
    pic_isr (slave (pic_run (h @ es) ps)) =
      (if irq \<ge> 8 then pic_isr (slave (pic_run h ps)) AND (pic_isr (slave (pic_run h ps)) - 1)
       else pic_isr (slave (pic_run h ps))) \<and>
    pic_imr (master (pic_run (h @ es) ps)) = pic_imr (master (pic_run h ps)) \<and>
    pic_imr (slave (pic_run (h @ es) ps)) = pic_imr (slave (pic_run h ps))"
  by (intro exI [of _ "(if irq \<ge> 8 then [Out PIC2_COMMAND PIC_EOI] else []) @ [Out PIC1_COMMAND PIC_EOI]"])
    (simp add: pic_send_eoi_def io_simps pic_ports pic_command_def bit_simps, simp add: io_event_def)

subsection \<open>Channel 0 of the timer as its data sheet describes it\<close>

record pit =
  pit_mode :: u8
  pit_low :: "u8 option"
  pit_reload :: nat

text \<open>A reload value of zero counts 65536.\<close>

definition pit_count :: "nat \<Rightarrow> nat" where
  "pit_count n = (if n mod 65536 = 0 then 65536 else n mod 65536)"

fun pit_step :: "io_event \<Rightarrow> pit \<Rightarrow> pit" where
  "pit_step (Out port v) p =
     (if port = 0x43 \<and> v AND 0xF0 = 0x30 then p\<lparr>pit_mode := v, pit_low := None\<rparr>
      else if port = 0x40 then
        (case pit_low p of
           None \<Rightarrow> p\<lparr>pit_low := Some v\<rparr>
         | Some l \<Rightarrow> p\<lparr>pit_low := None, pit_reload := pit_count (unat l + 256 * unat v)\<rparr>)
      else p)"
| "pit_step _ p = p"

definition pit_run :: "history \<Rightarrow> pit \<Rightarrow> pit" where
  "pit_run h p = fold pit_step h p"

lemma unat_pit_divisor:
  assumes "hz \<noteq> 0"
  shows "unat (pit_divisor hz) =
    1193182 div unat hz + (if unat hz div 2 \<le> 1193182 mod unat hz then 1 else 0)"
proof -
  have q: "unat (PIT_BASE_FREQUENCY div hz) = 1193182 div unat hz"
    by (simp add: PIT_BASE_FREQUENCY_def unat_div)
  have "1193182 div unat hz \<le> 1193182" by (rule div_le_dividend)
  then have "1193182 div unat hz < 4294967295" by linarith
  then have "unat (PIT_BASE_FREQUENCY div hz + 1) = 1193182 div unat hz + 1"
    using unat_add_no_wrap [of "PIT_BASE_FREQUENCY div hz" 1] by (simp add: q)
  then show ?thesis
    by (simp add: pit_divisor_def Let_def word_le_nat_alt unat_div unat_mod PIT_BASE_FREQUENCY_def)
qed

lemma bytes_of_divisor:
  "unat (ucast (x AND 0xFF) :: u8) + 256 * unat (ucast (drop_bit 8 x AND 0xFF) :: u8) = unat (x :: u32) mod 65536"
proof -
  have lo: "unat (ucast (x AND 0xFF) :: u8) = unat x mod 256" for x :: u32
  proof -
    have "x AND 0xFF = x AND mask 8" by (simp add: mask_eq_exp_minus_1)
    then show ?thesis by (simp only: unsigned_ucast_eq unat_and_mask) (simp add: take_bit_eq_mod)
  qed
  have "unat x div 256 mod 256 * 256 + unat x mod 256 = unat x mod (256 * 256)"
    by (simp only: mod_mult2_eq mult.commute)
  moreover have "unat (drop_bit 8 x) = unat x div 256"
    by (simp only: unat_drop_bit_eq) (simp add: drop_bit_eq_div)
  ultimately show ?thesis by (simp only: lo) simp
qed

lemma divisor_nearest:
  fixes f n :: nat
  assumes "0 < n"
  defines "q \<equiv> f div n + (if n div 2 \<le> f mod n then 1 else 0)"
  shows "\<bar>int q * int n - int f\<bar> \<le> (int n + 1) div 2"
proof -
  have f: "int f = int (f div n) * int n + int (f mod n)"
    by (simp add: of_nat_mult [symmetric] of_nat_add [symmetric] del: of_nat_mult of_nat_add)
  have r: "f mod n < n" using assms(1) by simp
  show ?thesis
  proof (cases "n div 2 \<le> f mod n")
    case True
    then have "int q * int n - int f = int n - int (f mod n)" using f by (simp add: q_def algebra_simps)
    with True r show ?thesis by linarith
  next
    case False
    then have "int q * int n - int f = - int (f mod n)" using f by (simp add: q_def)
    with False show ?thesis by linarith
  qed
qed

lemma divisor_bounds:
  fixes n :: nat
  assumes "19 \<le> n" and "n \<le> 1193182"
  shows "1 \<le> 1193182 div n" and "1193182 div n \<le> 62799"
proof -
  show "1 \<le> 1193182 div n" using assms by (simp add: Suc_le_eq div_greater_zero_iff)
  have "1193182 div n \<le> 1193182 div 19" using assms by (intro div_le_mono2) simp_all
  then show "1193182 div n \<le> 62799" by simp
qed

lemma pit_configure_hz_reload:
  assumes "hz \<noteq> 0"
  shows "\<exists>es. pit_configure_hz hz h = Some (Returns () (h @ es)) \<and>
    pit_run (h @ es) p =
      (pit_run h p)\<lparr>pit_mode := 0x36, pit_low := None, pit_reload := pit_count (unat (pit_divisor hz))\<rparr>"
proof -
  let ?lo = "ucast (pit_divisor hz AND 0xFF) :: u8" and ?hi = "ucast (drop_bit 8 (pit_divisor hz) AND 0xFF) :: u8"
  let ?es = "[Out 0x43 0x36, Out 0x40 ?lo, Out 0x40 ?hi]"
  have "pit_configure_hz hz h = Some (Returns () (h @ ?es))"
    using assms by (simp add: pit_configure_hz_def io_simps io_return_def PIT_MODE_COMMAND_def PIT_CHANNEL0_DATA_def)
  moreover have "pit_count (unat ?lo + 256 * unat ?hi) = pit_count (unat (pit_divisor hz))"
    by (simp only: bytes_of_divisor) (simp add: pit_count_def)
  ultimately show ?thesis by (intro exI [of _ ?es]) (simp add: pit_run_def)
qed

text \<open>C39: pit_configure_hz programs channel 0 with the rounded divisor cut to 16 bits, 0
  counting as 65536; for 19 Hz up to the base frequency the programmed period is within half a
  count (rounded up) of the requested one, and 0 Hz is the undefined division.\<close>

theorem pit_configure_hz_rate:
  "pit_configure_hz 0 h = None \<and>
   (hz \<noteq> 0 \<longrightarrow> (\<exists>es. pit_configure_hz hz h = Some (Returns () (h @ es)) \<and>
     pit_mode (pit_run (h @ es) p) = 0x36 \<and>
     pit_reload (pit_run (h @ es) p) = pit_count (unat (pit_divisor hz)))) \<and>
   (19 \<le> hz \<and> hz \<le> 1193182 \<longrightarrow>
     \<bar>int (pit_count (unat (pit_divisor hz))) * uint hz - 1193182\<bar> \<le> (uint hz + 1) div 2)"
proof (intro conjI impI)
  show "pit_configure_hz 0 h = None" by (simp add: pit_configure_hz_def)
  show "\<exists>es. pit_configure_hz hz h = Some (Returns () (h @ es)) \<and>
     pit_mode (pit_run (h @ es) p) = 0x36 \<and>
     pit_reload (pit_run (h @ es) p) = pit_count (unat (pit_divisor hz))" if "hz \<noteq> 0"
    using pit_configure_hz_reload [OF that, of h p] by (elim exE conjE) (intro exI conjI, auto)
  assume range: "19 \<le> hz \<and> hz \<le> 1193182"
  then have n: "19 \<le> unat hz" "unat hz \<le> 1193182" by (simp_all add: word_le_nat_alt)
  then have nz: "hz \<noteq> 0" by auto
  have d: "1 \<le> unat (pit_divisor hz)" "unat (pit_divisor hz) \<le> 62800"
    using divisor_bounds [OF n] by (simp_all add: unat_pit_divisor [OF nz])
  then have "pit_count (unat (pit_divisor hz)) = unat (pit_divisor hz)" by (simp add: pit_count_def)
  then show "\<bar>int (pit_count (unat (pit_divisor hz))) * uint hz - 1193182\<bar> \<le> (uint hz + 1) div 2"
    using divisor_nearest [of "unat hz" 1193182] n(1) by (simp add: unat_pit_divisor [OF nz])
qed

theorem pit_configure_hz_rate_witness:
  "(\<exists>es. pit_configure_hz 100 [] = Some (Returns () es) \<and>
    pit_reload (pit_run es \<lparr>pit_mode = 0, pit_low = None, pit_reload = 65536\<rparr>) = 11932)"
proof -
  have "unat (pit_divisor 100) = 11932" by (simp add: unat_pit_divisor)
  then show ?thesis
    using pit_configure_hz_rate [of "[]" 100 "\<lparr>pit_mode = 0, pit_low = None, pit_reload = 65536\<rparr>"]
    by (auto simp: pit_count_def)
qed

text \<open>Outside that range the rate is another one: at 18 Hz and below the divisor does not fit 16
  bits, at 1 Hz it is also one too large, and above 2386365 Hz it is 0, which counts 65536.\<close>

lemma pit_rate_outside:
  "pit_count (unat (pit_divisor 18)) = 752" "unat (pit_divisor 1) = 1193183"
  "pit_count (unat (pit_divisor 3000000)) = 65536"
  by (simp_all add: unat_pit_divisor pit_count_def)

subsection \<open>Ticks\<close>

text \<open>Calls of the tick handler one after the other, from a given count. No code of the repository calls it
  yet: the descriptor table has no gate for the timer's vector.\<close>

primrec timer_calls :: "device \<Rightarrow> nat \<Rightarrow> u64 \<Rightarrow> u64 io" where
  "timer_calls d 0 t = io_return t"
| "timer_calls d (Suc n) t = io_bind (timer_calls d n t) (timer_on_irq0 d)"

definition tick_line :: "nat \<Rightarrow> string" where
  "tick_line n = ''[MCSOS:TIMER] ticks='' @ decimal n @ [CHR 0x0A]"

lemma timer_on_irq0_prints:
  assumes "uart_responsive d"
  shows "\<exists>es. timer_on_irq0 d t h = Some (Returns (t + 1) (h @ es)) \<and> list_all serial_event es \<and>
    written es = (if (t + 1) mod 100 = 0 then tick_line (unat (t + 1)) else [])"
proof (cases "(t + 1) mod 100 = 0")
  case True
  note puts = serial.puts_prints [OF assms]
  have "list_all2 prints [serial_write_string d (cstr ''[MCSOS:TIMER] ticks=''), serial_write_dec64 d (t + 1),
      serial_write_string d (cstr [CHR 0x0A])] [''[MCSOS:TIMER] ticks='', decimal (unat (t + 1)), [CHR 0x0A]]"
    unfolding serial_write_string_def
    by (intro list_all2_Cons [THEN iffD2] conjI puts prints_serial_write_dec64 assms) simp_all
  from prints_then [OF prints_all [OF this], of "io_return (t + 1)" h] True show ?thesis
    by (auto simp: timer_on_irq0_def Let_def io_return_def tick_line_def)
next
  case False
  then show ?thesis by (intro exI [of _ "[]"]) (simp add: timer_on_irq0_def Let_def io_return_def)
qed

lemma timer_calls_print:
  assumes "uart_responsive d" and "n < 2 ^ 64"
  shows "\<exists>es. timer_calls d n 0 h = Some (Returns (of_nat n) (h @ es)) \<and> list_all serial_event es \<and>
    written es = concat (map (\<lambda>k. tick_line (100 * k)) [1..<Suc (n div 100)])"
  using assms(2)
proof (induction n)
  case 0
  then show ?case by (simp add: io_return_def)
next
  case (Suc n)
  then obtain es where es: "timer_calls d n 0 h = Some (Returns (of_nat n) (h @ es))" "list_all serial_event es"
      "written es = concat (map (\<lambda>k. tick_line (100 * k)) [1..<Suc (n div 100)])"
    by auto
  have u: "unat (of_nat n + 1 :: u64) = Suc n"
  proof -
    have "of_nat n + 1 = (of_nat (Suc n) :: u64)" by simp
    then have "unat (of_nat n + 1 :: u64) = Suc n mod 2 ^ 64" by (simp only: unat_of_nat) (simp add: take_bit_eq_mod)
    with Suc.prems show ?thesis by simp
  qed
  then have dvd: "(of_nat n + 1 :: u64) mod 100 = 0 \<longleftrightarrow> Suc n mod 100 = 0"
    by (simp only: word_unat_eq_iff unat_mod) simp
  obtain fs where fs: "timer_on_irq0 d (of_nat n) (h @ es) = Some (Returns (of_nat n + 1) ((h @ es) @ fs))"
      "list_all serial_event fs" "written fs = (if Suc n mod 100 = 0 then tick_line (Suc n) else [])"
    using timer_on_irq0_prints [OF assms(1), of "of_nat n" "h @ es"] unfolding u dvd by blast
  have step: "[1..<Suc (Suc n div 100)] = [1..<Suc (n div 100)] @ (if Suc n mod 100 = 0 then [Suc n div 100] else [])"
    by (simp add: div_Suc)
  have "written (es @ fs) = concat (map (\<lambda>k. tick_line (100 * k)) [1..<Suc (Suc n div 100)])"
    unfolding step using es(3) fs(3) by (auto simp: mult_div_mod_eq [symmetric])
  then show ?case
    using es fs by (intro exI [of _ "es @ fs"]) (simp add: io_bind_Returns add.commute)
qed

text \<open>A port that is never ready stops the handler at its first report.\<close>

lemma timer_calls_stuck:
  assumes "\<forall>k. \<not> transmitter_ready d (polled d k h)"
  shows "timer_calls d n 0 h = (if n < 100 then Some (Returns (of_nat n) h) else None)"
proof (induction n)
  case 0
  then show ?case by (simp add: io_return_def)
next
  case (Suc n)
  have "serial_wait d h = None" using assms serial_wait_returns_ready [of d h] by (metis not_None_eq)
  then have "serial_write_char d c h = None" for c by (simp add: serial_write_char_def io_seq_def io_bind_def)
  then have stuck: "serial_write_string d (cstr ''[MCSOS:TIMER] ticks='') h = None"
    by (simp add: serial_write_string_def cstr_def io_seq_def io_bind_def)
  have "unat (of_nat n + 1 :: u64) = Suc n" if "n < 100"
  proof -
    have "of_nat n + 1 = (of_nat (Suc n) :: u64)" by simp
    then have "unat (of_nat n + 1 :: u64) = Suc n mod 2 ^ 64" by (simp only: unat_of_nat) (simp add: take_bit_eq_mod)
    with that show ?thesis by simp
  qed
  then have "(of_nat n + 1 :: u64) mod 100 = 0 \<longleftrightarrow> Suc n = 100" if "n < 100"
    using that by (auto simp: word_unat_eq_iff unat_mod dest!: dvd_imp_le)
  then show ?case
    using Suc.IH stuck by (auto simp: io_bind_def timer_on_irq0_def Let_def io_seq_def io_return_def add.commute)
qed

text \<open>C40: After n calls of timer_on_irq0 from a count of 0 the count is n; on a serial
  port that becomes ready it has been sent exactly one line for each multiple of 100 up to n,
  in order, with that number in decimal, and on a port that never becomes ready the first 99
  calls return with nothing sent and the hundredth does not return. (No code calls the handler
  yet, and the descriptor table has no gate for the timer.)\<close>

theorem timer_reports_every_100_ticks:
  assumes "n < 2 ^ 64"
  shows "(uart_responsive d \<longrightarrow> (\<exists>es. timer_calls d n 0 h = Some (Returns (of_nat n) (h @ es)) \<and> list_all serial_event es \<and>
      written es = concat (map (\<lambda>k. tick_line (100 * k)) [1..<Suc (n div 100)]))) \<and>
    ((\<forall>k. \<not> transmitter_ready d (polled d k h)) \<longrightarrow>
      timer_calls d n 0 h = (if n < 100 then Some (Returns (of_nat n) h) else None))"
  using timer_calls_print [OF _ assms] timer_calls_stuck by blast

theorem timer_reports_every_100_ticks_witness:
  "(\<exists>es. timer_calls slow_uart 250 0 [] = Some (Returns 250 es) \<and> written es = tick_line 100 @ tick_line 200) \<and>
    timer_calls (\<lambda>h port. 0) 100 0 [] = None"
  using timer_reports_every_100_ticks [of 250 slow_uart "[]"] timer_reports_every_100_ticks [of 100 "\<lambda>h port. 0" "[]"]
    slow_uart_responsive
  by (auto simp: upt_rec transmitter_ready_def)

end
