(* ===== verification/Kmem.thy ===== *)
theory Kmem
  imports Kernel_Prelude "HOL-Library.Monad_Syntax"
begin

text \<open>
  The kernel heap: \<open>src/kernel/mm/kmem.c\<close> and \<open>src/include/mcsos/kmem.h\<close>.

  \<^item> The memory is a function from addresses to bytes, and a block header is the 48 bytes the C
    structure takes (\<open>magic\<close> at 0, \<open>size\<close> at 8, \<open>free\<close> at 16, \<open>_pad\<close> at 20, \<open>prev\<close> at 24, \<open>next\<close>
    at 32, tail padding), read and written little-endian: headers and the payloads the callers
    use share one memory, so that a header which ran into a payload would be visible.
  \<^item> Loops that follow the list through memory are partial functions whose value \<open>None\<close> is not
    returning; the theorems show that they return.
  \<^item> \<open>heap_blocks\<close> abstracts the memory to the list of block sizes with their free flags. The
    blocks tile the heap without gap; first-fit allocation, freeing with coalescing, statistics
    and the heap check are functions on that list.
\<close>

subsection \<open>Bytes in memory\<close>

type_synonym bytes = "u64 \<Rightarrow> u8"

definition load64 :: "bytes \<Rightarrow> u64 \<Rightarrow> u64" where
  "load64 m a = word_rcat (rev (map (\<lambda>i. m (a + of_nat i)) [0..<8]))"

definition load32 :: "bytes \<Rightarrow> u64 \<Rightarrow> u32" where
  "load32 m a = word_rcat (rev (map (\<lambda>i. m (a + of_nat i)) [0..<4]))"

definition store64 :: "bytes \<Rightarrow> u64 \<Rightarrow> u64 \<Rightarrow> bytes" where
  "store64 m a v = (\<lambda>x. if x - a < 8 then ucast (drop_bit (8 * unat (x - a)) v) else m x)"

definition store32 :: "bytes \<Rightarrow> u64 \<Rightarrow> u32 \<Rightarrow> bytes" where
  "store32 m a v = (\<lambda>x. if x - a < 4 then ucast (drop_bit (8 * unat (x - a)) v) else m x)"

subsection \<open>Block headers and the state of the allocator\<close>

definition KMEM_MIN_SPLIT :: u64 where "KMEM_MIN_SPLIT = 32"
definition KMEM_ALIGN :: u64 where "KMEM_ALIGN = 16"
definition KMEM_MAGIC :: u64 where "KMEM_MAGIC = 0x4d43534f53484541"
definition sizeof_kmem_block :: u64 where "sizeof_kmem_block = 48"

definition kb_magic :: "bytes \<Rightarrow> u64 \<Rightarrow> u64" where "kb_magic m b = load64 m b"
definition kb_size :: "bytes \<Rightarrow> u64 \<Rightarrow> u64" where "kb_size m b = load64 m (b + 8)"
definition kb_free :: "bytes \<Rightarrow> u64 \<Rightarrow> u32" where "kb_free m b = load32 m (b + 16)"
definition kb_prev :: "bytes \<Rightarrow> u64 \<Rightarrow> u64" where "kb_prev m b = load64 m (b + 24)"
definition kb_next :: "bytes \<Rightarrow> u64 \<Rightarrow> u64" where "kb_next m b = load64 m (b + 32)"

definition set_magic :: "bytes \<Rightarrow> u64 \<Rightarrow> u64 \<Rightarrow> bytes" where "set_magic m b v = store64 m b v"
definition set_size :: "bytes \<Rightarrow> u64 \<Rightarrow> u64 \<Rightarrow> bytes" where "set_size m b v = store64 m (b + 8) v"
definition set_free :: "bytes \<Rightarrow> u64 \<Rightarrow> u32 \<Rightarrow> bytes" where "set_free m b v = store32 m (b + 16) v"
definition set_pad :: "bytes \<Rightarrow> u64 \<Rightarrow> u32 \<Rightarrow> bytes" where "set_pad m b v = store32 m (b + 20) v"
definition set_prev :: "bytes \<Rightarrow> u64 \<Rightarrow> u64 \<Rightarrow> bytes" where "set_prev m b v = store64 m (b + 24) v"
definition set_next :: "bytes \<Rightarrow> u64 \<Rightarrow> u64 \<Rightarrow> bytes" where "set_next m b v = store64 m (b + 32) v"

record kmem_state =
  heap :: bytes
  g_heap_base :: u64
  g_heap_end :: u64
  g_head :: u64
  g_initialized :: bool

record kmem_stats =
  total_bytes :: u64
  used_bytes :: u64
  free_bytes :: u64
  block_count :: u64
  free_count :: u64
  largest_free :: u64

subsection \<open>Operations\<close>

definition kmem_memset :: "bytes \<Rightarrow> u64 \<Rightarrow> u8 \<Rightarrow> u64 \<Rightarrow> bytes" where
  "kmem_memset m dst v n = for_loop 0 n 1 (\<lambda>i m. m(dst + i := v)) m"

definition kmem_align_up_ptr :: "u64 \<Rightarrow> u64 \<Rightarrow> u64" where
  "kmem_align_up_ptr v align = (v + (align - 1)) AND NOT (align - 1)"

definition kmem_align_up_size :: "u64 \<Rightarrow> u64 \<Rightarrow> u64" where
  "kmem_align_up_size v align = (v + (align - 1)) AND NOT (align - 1)"

definition kmem_payload :: "u64 \<Rightarrow> u64" where "kmem_payload b = b + sizeof_kmem_block"

definition kmem_header_from_payload :: "u64 \<Rightarrow> u64" where
  "kmem_header_from_payload ptr = ptr - sizeof_kmem_block"

definition kmem_ptr_in_heap :: "kmem_state \<Rightarrow> u64 \<Rightarrow> bool" where
  "kmem_ptr_in_heap s ptr \<longleftrightarrow> ptr \<ge> g_heap_base s \<and> ptr < g_heap_end s"

definition kmem_split_if_useful :: "kmem_state \<Rightarrow> u64 \<Rightarrow> u64 \<Rightarrow> bytes \<Rightarrow> bytes" where
  "kmem_split_if_useful s block wanted m =
     (let new_addr = kmem_align_up_ptr (kmem_payload block + wanted) KMEM_ALIGN in
      if new_addr + sizeof_kmem_block \<ge> g_heap_end s then m
      else let consumed = new_addr - kmem_payload block in
        if kb_size m block \<le> consumed + sizeof_kmem_block + KMEM_MIN_SPLIT then m
        else
          let nb = new_addr;
              m = set_magic m nb KMEM_MAGIC;
              m = set_size m nb (kb_size m block - consumed - sizeof_kmem_block);
              m = set_free m nb 1;
              m = set_pad m nb 0;
              m = set_prev m nb block;
              m = set_next m nb (kb_next m block);
              m = (if kb_next m block \<noteq> 0 then set_prev m (kb_next m block) nb else m);
              m = set_next m block nb
          in set_size m block wanted)"

partial_function (option) kmem_coalesce_forward :: "u64 \<Rightarrow> bytes \<Rightarrow> bytes option" where
  "kmem_coalesce_forward block m =
     (if block \<noteq> 0 \<and> kb_next m block \<noteq> 0 \<and> kb_free m (kb_next m block) \<noteq> 0 then
        let nxt = kb_next m block;
            expected = kmem_align_up_ptr (kmem_payload block + kb_size m block) KMEM_ALIGN
        in if expected \<noteq> nxt then Some m
           else
             let m = set_size m block (kb_size m block + (sizeof_kmem_block + kb_size m nxt));
                 m = set_next m block (kb_next m nxt);
                 m = (if kb_next m nxt \<noteq> 0 then set_prev m (kb_next m nxt) block else m);
                 m = set_magic m nxt 0;
                 m = set_size m nxt 0;
                 m = set_prev m nxt 0;
                 m = set_next m nxt 0
             in kmem_coalesce_forward block m
      else Some m)"

function kmem_validate_loop :: "kmem_state \<Rightarrow> nat \<Rightarrow> u64 \<Rightarrow> u64 \<Rightarrow> u64 \<Rightarrow> int" where
  "kmem_validate_loop s guard cur cursor prev =
     (if cur = 0 then 0
      else let guard = guard + 1 in
        if guard > 1048576 then -3
        else if cur \<noteq> cursor then -4
        else if cur < g_heap_base s \<or> cur + sizeof_kmem_block > g_heap_end s then -5
        else if kb_magic (heap s) cur \<noteq> KMEM_MAGIC then -6
        else if kb_prev (heap s) cur \<noteq> prev then -7
        else if kb_size (heap s) cur > g_heap_end s - kmem_payload cur then -8
        else
          let cursor = kmem_align_up_ptr (kmem_payload cur + kb_size (heap s) cur) KMEM_ALIGN in
          if cursor = 0 \<or> cursor > g_heap_end s then -9
          else kmem_validate_loop s guard (kb_next (heap s) cur) cursor cur)"
  by pat_completeness auto

termination
  by (relation "measure (\<lambda>(s, guard, _). 1048577 - guard)") auto

declare kmem_validate_loop.simps [simp del]

lemma kmem_validate_loop_null [simp]: "kmem_validate_loop s guard 0 cursor prev = 0"
  by (subst kmem_validate_loop.simps) simp

definition kmem_validate :: "kmem_state \<Rightarrow> int" where
  "kmem_validate s =
     (if \<not> g_initialized s \<or> g_heap_base s = 0 \<or> g_heap_end s \<le> g_heap_base s \<or> g_head s = 0 then -1
      else if g_head s \<noteq> g_heap_base s then -2
      else kmem_validate_loop s 0 (g_head s) (g_heap_base s) 0)"

definition kmem_init :: "kmem_state \<Rightarrow> u64 \<Rightarrow> u64 \<Rightarrow> int \<times> kmem_state" where
  "kmem_init s base bytes =
     (if base = 0 \<or> bytes < sizeof_kmem_block + KMEM_MIN_SPLIT then (-1, s)
      else let start = kmem_align_up_ptr base KMEM_ALIGN in
        if start = 0 \<or> start < base then (-2, s)
        else let lost = start - base in
          if bytes \<le> lost + sizeof_kmem_block + KMEM_MIN_SPLIT then (-3, s)
          else let usable = (bytes - lost) AND NOT (KMEM_ALIGN - 1) in
            if usable \<le> sizeof_kmem_block + KMEM_MIN_SPLIT then (-4, s)
            else
              let head = start;
                  m = set_magic (heap s) head KMEM_MAGIC;
                  m = set_size m head (usable - sizeof_kmem_block);
                  m = set_free m head 1;
                  m = set_pad m head 0;
                  m = set_prev m head 0;
                  m = set_next m head 0;
                  s = \<lparr>heap = m, g_heap_base = start, g_heap_end = start + usable, g_head = head,
                       g_initialized = True\<rparr>
              in (kmem_validate s, s))"

partial_function (option) alloc_loop :: "kmem_state \<Rightarrow> u64 \<Rightarrow> u64 \<Rightarrow> (u64 \<times> kmem_state) option" where
  "alloc_loop s wanted cur =
     (if cur = 0 then Some (0, s)
      else if kb_magic (heap s) cur \<noteq> KMEM_MAGIC then Some (0, s)
      else if kb_free (heap s) cur \<noteq> 0 \<and> kb_size (heap s) cur \<ge> wanted then
        let m = kmem_split_if_useful s cur wanted (heap s)
        in Some (kmem_payload cur, s\<lparr>heap := set_free m cur 0\<rparr>)
      else alloc_loop s wanted (kb_next (heap s) cur))"

definition kmem_alloc :: "kmem_state \<Rightarrow> u64 \<Rightarrow> (u64 \<times> kmem_state) option" where
  "kmem_alloc s bytes =
     (if \<not> g_initialized s \<or> bytes = 0 then Some (0, s)
      else let wanted = kmem_align_up_size bytes KMEM_ALIGN in
        if wanted = 0 then Some (0, s) else alloc_loop s wanted (g_head s))"

definition kmem_calloc :: "kmem_state \<Rightarrow> u64 \<Rightarrow> u64 \<Rightarrow> (u64 \<times> kmem_state) option" where
  "kmem_calloc s count bytes =
     (if count \<noteq> 0 \<and> bytes > - 1 div count then Some (0, s)
      else let total = count * bytes in
        do {
          (ptr, s) \<leftarrow> kmem_alloc s total;
          Some (ptr, if ptr \<noteq> 0 then s\<lparr>heap := kmem_memset (heap s) ptr 0 total\<rparr> else s)
        })"

definition kmem_free_checked :: "kmem_state \<Rightarrow> u64 \<Rightarrow> (int \<times> kmem_state) option" where
  "kmem_free_checked s ptr =
     (if ptr = 0 then Some (0, s)
      else if \<not> kmem_ptr_in_heap s ptr then Some (-1, s)
      else if ptr AND (KMEM_ALIGN - 1) \<noteq> 0 then Some (-2, s)
      else let block = kmem_header_from_payload ptr in
        if \<not> kmem_ptr_in_heap s block \<or> kb_magic (heap s) block \<noteq> KMEM_MAGIC then Some (-3, s)
        else if kb_free (heap s) block \<noteq> 0 then Some (-4, s)
        else do {
          m \<leftarrow> kmem_coalesce_forward block (set_free (heap s) block 1);
          m \<leftarrow> (if kb_prev m block \<noteq> 0 \<and> kb_free m (kb_prev m block) \<noteq> 0
               then kmem_coalesce_forward (kb_prev m block) m else Some m);
          let s = s\<lparr>heap := m\<rparr>;
          Some (kmem_validate s, s)
        })"

partial_function (option) stats_loop :: "bytes \<Rightarrow> u64 \<Rightarrow> kmem_stats \<Rightarrow> kmem_stats option" where
  "stats_loop m cur out =
     (if cur = 0 then Some out
      else
        let out = out\<lparr>block_count := block_count out + 1\<rparr>;
            out = (if kb_free m cur \<noteq> 0 then
                     let out = out\<lparr>free_count := free_count out + 1\<rparr>;
                         out = out\<lparr>free_bytes := free_bytes out + kb_size m cur\<rparr>
                     in if kb_size m cur > largest_free out then out\<lparr>largest_free := kb_size m cur\<rparr> else out
                   else out\<lparr>used_bytes := used_bytes out + kb_size m cur\<rparr>)
        in stats_loop m (kb_next m cur) out)"

definition kmem_get_stats :: "kmem_state \<Rightarrow> kmem_stats option \<Rightarrow> kmem_stats option option" where
  "kmem_get_stats s out =
     (case out of
        None \<Rightarrow> Some None
      | Some _ \<Rightarrow>
          let out = \<lparr>total_bytes = 0, used_bytes = 0, free_bytes = 0, block_count = 0, free_count = 0,
                     largest_free = 0\<rparr>
          in if \<not> g_initialized s then Some (Some out)
             else let out = out\<lparr>total_bytes := g_heap_end s - g_heap_base s\<rparr>
               in map_option Some (stats_loop (heap s) (g_head s) out))"

subsection \<open>Reading what was written\<close>

text \<open>Two memories agree on the bytes at the addresses from \<open>x\<close> up to \<open>y\<close>.\<close>

definition agree :: "bytes \<Rightarrow> bytes \<Rightarrow> nat \<Rightarrow> nat \<Rightarrow> bool" where
  "agree m m' x y \<longleftrightarrow> (\<forall>i. x \<le> i \<and> i < y \<longrightarrow> m (of_nat i) = m' (of_nat i))"

lemma bit_rcat_bytes:
  "bit (word_rcat (rev bs) :: 'a::len word) n \<longleftrightarrow>
     n < LENGTH('a) \<and> n div 8 < length bs \<and> bit ((bs :: u8 list) ! (n div 8)) (n mod 8)"
  using bit_horner_sum_uint_exp_iff [of bs n]
  by (auto simp: word_rcat_def bit_word_of_int_iff)

lemma bit_load64: "bit (load64 m a) n \<longleftrightarrow> n < 64 \<and> bit (m (a + of_nat (n div 8))) (n mod 8)"
proof -
  have "n div 8 < 8 \<longleftrightarrow> n < 64" by (simp add: div_less_iff_less_mult)
  then show ?thesis
    by (auto simp: load64_def bit_rcat_bytes nth_append simp del: upt_Suc of_nat_add)
qed

lemma bit_load32: "bit (load32 m a) n \<longleftrightarrow> n < 32 \<and> bit (m (a + of_nat (n div 8))) (n mod 8)"
proof -
  have "n div 8 < 4 \<longleftrightarrow> n < 32" by (simp add: div_less_iff_less_mult)
  then show ?thesis
    by (auto simp: load32_def bit_rcat_bytes nth_append simp del: upt_Suc of_nat_add)
qed

lemma small_offset: "k < 2 ^ 64 \<Longrightarrow> unat (of_nat k :: u64) = k"
  by (simp add: unat_of_nat)

lemma load64_store64 [simp]: "load64 (store64 m a v) a = v"
proof (rule bit_word_eqI)
  fix n assume "n < LENGTH(64)"
  then have n: "n < 64" "n div 8 < 8" by simp_all
  then have "unat (of_nat (n div 8) :: u64) = n div 8" by (intro small_offset) simp
  then show "bit (load64 (store64 m a v) a) n = bit v n"
    using n by (simp add: bit_load64 store64_def word_less_nat_alt bit_simps)
qed

lemma load32_store32 [simp]: "load32 (store32 m a v) a = v"
proof (rule bit_word_eqI)
  fix n assume "n < LENGTH(32)"
  then have n: "n < 32" "n div 8 < 4" by simp_all
  then have "unat (of_nat (n div 8) :: u64) = n div 8" by (intro small_offset) simp
  then show "bit (load32 (store32 m a v) a) n = bit v n"
    using n by (simp add: bit_load32 store32_def word_less_nat_alt bit_simps)
qed

lemma of_nat_less_shift: "(of_nat a :: u64) + of_nat k = of_nat (a + k)" by simp

lemma load64_agree: "agree m m' a (a + 8) \<Longrightarrow> load64 m (of_nat a) = load64 m' (of_nat a)"
  by (rule bit_word_eqI) (simp add: bit_load64 agree_def flip: of_nat_add)

lemma load32_agree: "agree m m' a (a + 4) \<Longrightarrow> load32 m (of_nat a) = load32 m' (of_nat a)"
  by (rule bit_word_eqI) (simp add: bit_load32 agree_def flip: of_nat_add)

lemma agree_refl [simp]: "agree m m x y"
  by (simp add: agree_def)

lemma agree_trans: "agree m m' x y \<Longrightarrow> agree m' m'' x y \<Longrightarrow> agree m m'' x y"
  by (simp add: agree_def)

lemma agree_sub: "agree m m' x y \<Longrightarrow> x \<le> x' \<Longrightarrow> y' \<le> y \<Longrightarrow> agree m m' x' y'"
  by (auto simp: agree_def)

lemma outside_offset:
  assumes "i < 2 ^ 64" and "a + k \<le> 2 ^ 64" and "i < a \<or> a + k \<le> i" and "0 < k"
  shows "k \<le> unat ((of_nat i :: u64) - of_nat a)"
proof -
  have "unat (of_nat i :: u64) = i" "unat (of_nat a :: u64) = a"
    using assms by (simp_all add: unat_of_nat)
  then show ?thesis using assms by (auto simp: unat_sub_if')
qed

lemma store64_agree:
  assumes "a + 8 \<le> 2 ^ 64" and "y \<le> a \<or> a + 8 \<le> x" and "y \<le> 2 ^ 64"
  shows "agree (store64 m (of_nat a) v) m x y"
  unfolding agree_def
proof (intro allI impI)
  fix i assume i: "x \<le> i \<and> i < y"
  have "8 \<le> unat ((of_nat i :: u64) - of_nat a)"
    by (rule outside_offset) (use i assms in auto)
  then show "store64 m (of_nat a) v (of_nat i) = m (of_nat i)"
    by (simp add: store64_def word_less_nat_alt)
qed

lemma store32_agree:
  assumes "a + 4 \<le> 2 ^ 64" and "y \<le> a \<or> a + 4 \<le> x" and "y \<le> 2 ^ 64"
  shows "agree (store32 m (of_nat a) v) m x y"
  unfolding agree_def
proof (intro allI impI)
  fix i assume i: "x \<le> i \<and> i < y"
  have "4 \<le> unat ((of_nat i :: u64) - of_nat a)"
    by (rule outside_offset) (use i assms in auto)
  then show "store32 m (of_nat a) v (of_nat i) = m (of_nat i)"
    by (simp add: store32_def word_less_nat_alt)
qed

text \<open>The fields of one header do not overlap.\<close>

lemmas header_fields = kb_magic_def kb_size_def kb_free_def kb_prev_def kb_next_def
lemmas header_stores = set_magic_def set_size_def set_free_def set_pad_def set_prev_def set_next_def

lemma of_nat_offsets:
  "(of_nat b :: u64) + 8 = of_nat (b + 8)" "(of_nat b :: u64) + 16 = of_nat (b + 16)"
  "(of_nat b :: u64) + 20 = of_nat (b + 20)" "(of_nat b :: u64) + 24 = of_nat (b + 24)"
  "(of_nat b :: u64) + 32 = of_nat (b + 32)" "(of_nat b :: u64) + 48 = of_nat (b + 48)"
  by simp_all

definition block_space :: "nat \<Rightarrow> bool" where "block_space b \<longleftrightarrow> b + 48 \<le> 2 ^ 64"

lemma field_same:
  assumes "block_space b"
  defines "B \<equiv> of_nat b"
  shows "kb_magic (set_magic m B v) B = v" "kb_size (set_magic m B v) B = kb_size m B"
    "kb_free (set_magic m B v) B = kb_free m B" "kb_prev (set_magic m B v) B = kb_prev m B"
    "kb_next (set_magic m B v) B = kb_next m B"
    "kb_magic (set_size m B v) B = kb_magic m B" "kb_size (set_size m B v) B = v"
    "kb_free (set_size m B v) B = kb_free m B" "kb_prev (set_size m B v) B = kb_prev m B"
    "kb_next (set_size m B v) B = kb_next m B"
    "kb_magic (set_free m B u) B = kb_magic m B" "kb_size (set_free m B u) B = kb_size m B"
    "kb_free (set_free m B u) B = u" "kb_prev (set_free m B u) B = kb_prev m B"
    "kb_next (set_free m B u) B = kb_next m B"
    "kb_magic (set_pad m B u) B = kb_magic m B" "kb_size (set_pad m B u) B = kb_size m B"
    "kb_free (set_pad m B u) B = kb_free m B" "kb_prev (set_pad m B u) B = kb_prev m B"
    "kb_next (set_pad m B u) B = kb_next m B"
    "kb_magic (set_prev m B v) B = kb_magic m B" "kb_size (set_prev m B v) B = kb_size m B"
    "kb_free (set_prev m B v) B = kb_free m B" "kb_prev (set_prev m B v) B = v"
    "kb_next (set_prev m B v) B = kb_next m B"
    "kb_magic (set_next m B v) B = kb_magic m B" "kb_size (set_next m B v) B = kb_size m B"
    "kb_free (set_next m B v) B = kb_free m B" "kb_prev (set_next m B v) B = kb_prev m B"
    "kb_next (set_next m B v) B = v"
  using assms(1) unfolding B_def header_fields header_stores block_space_def of_nat_offsets
  by (simp_all add: load64_agree load32_agree store64_agree store32_agree del: of_nat_add)

lemma header_agree:
  assumes "agree m m' b (b + 48)"
  shows "kb_magic m (of_nat b) = kb_magic m' (of_nat b)" "kb_size m (of_nat b) = kb_size m' (of_nat b)"
    "kb_free m (of_nat b) = kb_free m' (of_nat b)" "kb_prev m (of_nat b) = kb_prev m' (of_nat b)"
    "kb_next m (of_nat b) = kb_next m' (of_nat b)"
  unfolding header_fields of_nat_offsets
  by (rule load64_agree load32_agree; rule agree_sub [OF assms]; simp)+

lemma set_agree:
  assumes "block_space b" and "y \<le> b \<or> b + 48 \<le> x" and "y \<le> 2 ^ 64"
  shows "agree (set_magic m (of_nat b) v) m x y" "agree (set_size m (of_nat b) v) m x y"
    "agree (set_free m (of_nat b) u) m x y" "agree (set_pad m (of_nat b) u) m x y"
    "agree (set_prev m (of_nat b) v) m x y" "agree (set_next m (of_nat b) v) m x y"
  unfolding header_stores of_nat_offsets
  by (rule store64_agree store32_agree; use assms in \<open>auto simp: block_space_def\<close>)+

subsection \<open>The block list in memory\<close>

type_synonym block = "nat \<times> bool"

definition extent :: "block list \<Rightarrow> nat" where "extent bs = (\<Sum>(s, f)\<leftarrow>bs. 48 + s)"

lemma extent_simps [simp]:
  "extent [] = 0" "extent ((s, f) # bs) = 48 + s + extent bs" "extent (xs @ ys) = extent xs + extent ys"
  by (simp_all add: extent_def)

text \<open>The header at \<open>a\<close> describes a block of \<open>s\<close> bytes between \<open>p\<close> and \<open>n\<close>.\<close>

definition header :: "bytes \<Rightarrow> nat \<Rightarrow> nat \<Rightarrow> nat \<Rightarrow> bool \<Rightarrow> nat \<Rightarrow> bool" where
  "header m p a s f n \<longleftrightarrow> kb_magic m (of_nat a) = KMEM_MAGIC \<and> kb_size m (of_nat a) = of_nat s \<and>
     (kb_free m (of_nat a) \<noteq> 0 \<longleftrightarrow> f) \<and> kb_prev m (of_nat a) = of_nat p \<and> kb_next m (of_nat a) = of_nat n"

text \<open>
  Blocks laid out one after the other from \<open>a\<close> on, the first with predecessor \<open>p\<close>, the last with
  successor \<open>n\<close>.
\<close>

fun seg :: "bytes \<Rightarrow> nat \<Rightarrow> nat \<Rightarrow> block list \<Rightarrow> nat \<Rightarrow> bool" where
  "seg m p a [] n \<longleftrightarrow> True"
| "seg m p a ((s, f) # bs) n \<longleftrightarrow>
     header m p a s f (if bs = [] then n else a + 48 + s) \<and> seg m a (a + 48 + s) bs n"

definition last_block :: "nat \<Rightarrow> nat \<Rightarrow> block list \<Rightarrow> nat" where
  "last_block p a bs = (if bs = [] then p else a + extent (butlast bs))"

fun agree_headers :: "bytes \<Rightarrow> bytes \<Rightarrow> nat \<Rightarrow> block list \<Rightarrow> bool" where
  "agree_headers m m' a [] \<longleftrightarrow> True"
| "agree_headers m m' a ((s, f) # bs) \<longleftrightarrow>
     agree m m' a (a + 48) \<and> agree_headers m m' (a + 48 + s) bs"

lemma header_cong: "agree m m' a (a + 48) \<Longrightarrow> header m p a s f n = header m' p a s f n"
  by (simp add: header_def header_agree [of m m'])

lemma blocks_cong: "agree_headers m m' a bs \<Longrightarrow> seg m p a bs n = seg m' p a bs n"
  by (induction bs arbitrary: p a) (auto simp: header_cong)

lemma agree_headers_range: "agree m m' a (a + extent bs) \<Longrightarrow> agree_headers m m' a bs"
proof (induction bs arbitrary: a)
  case (Cons b bs)
  obtain z f where b: "b = (z, f)" by fastforce
  then have "agree m m' a (a + 48)" "agree m m' (a + 48 + z) (a + 48 + z + extent bs)"
    using Cons.prems by (auto elim!: agree_sub)
  then show ?case using Cons.IH b by simp
qed simp

lemma seg_agree: "agree m m' a (a + extent bs) \<Longrightarrow> seg m p a bs n = seg m' p a bs n"
  by (rule blocks_cong) (rule agree_headers_range)

lemma last_block_simps [simp]:
  "last_block p a [] = p" "last_block p a ((s, f) # bs) = last_block a (a + 48 + s) bs"
  by (auto simp: last_block_def)

lemma blocks_append:
  "seg m p a (xs @ ys) n \<longleftrightarrow>
     seg m p a xs (if ys = [] then n else a + extent xs) \<and> seg m (last_block p a xs) (a + extent xs) ys n"
proof (induction xs arbitrary: p a)
  case (Cons b xs)
  obtain z f where b: "b = (z, f)" by fastforce
  show ?case
    using Cons.IH [of a "a + 48 + z"] unfolding b by (cases "xs = []") (auto simp: add.assoc)
qed simp

lemma seg_next:
  "xs \<noteq> [] \<Longrightarrow> seg m p a xs n \<Longrightarrow> kb_next m (of_nat (last_block p a xs)) = of_nat n"
  by (induction xs arbitrary: p a) (auto simp: header_def split: if_splits)

subsection \<open>Addresses of well-formed blocks\<close>

definition sizes_ok :: "block list \<Rightarrow> bool" where
  "sizes_ok bs \<longleftrightarrow> (\<forall>(z, f) \<in> set bs. 16 \<le> z \<and> z mod 16 = 0)"

lemma sizes_ok_simps [simp]:
  "sizes_ok []" "sizes_ok ((z, f) # bs) \<longleftrightarrow> 16 \<le> z \<and> z mod 16 = 0 \<and> sizes_ok bs"
  "sizes_ok (xs @ ys) \<longleftrightarrow> sizes_ok xs \<and> sizes_ok ys"
  by (auto simp: sizes_ok_def)

lemma extent_mod: "sizes_ok bs \<Longrightarrow> extent bs mod 16 = 0"
proof (induction bs)
  case (Cons b bs)
  obtain z f where b: "b = (z, f)" by fastforce
  then have "(48 + z + extent bs) mod 16 = 0" using Cons by (simp add: mod_add_eq [symmetric, of _ "extent bs"])
      (simp add: mod_add_eq [symmetric, of _ z])
  then show ?case by (simp add: b)
qed simp

lemma unat_nat: "x < 18446744073709551616 \<Longrightarrow> unat (of_nat x :: u64) = x"
  by (simp add: unat_of_nat)

lemma align_up_id:
  assumes "x mod 16 = 0" and "x < 18446744073709551616"
  shows "kmem_align_up_ptr (of_nat x) KMEM_ALIGN = of_nat x"
proof -
  obtain k where k: "x = 16 * k" using assms(1) by (metis dvdE mod_eq_0_iff_dvd)
  have "x + 15 < 18446744073709551616" using assms(2) k by simp
  then have "unat (of_nat x + 15 :: u64) = x + 15"
    using unat_nat [OF assms(2)] by (subst unat_add_no_wrap) simp_all
  moreover have "(x + 15) - (x + 15) mod 16 = x" using k by simp
  ultimately have "unat ((of_nat x + 15 :: u64) AND NOT 15) = x"
    by (simp only: mask_simps)
  then have "unat ((of_nat x + 15 :: u64) AND NOT 15) = unat (of_nat x :: u64)"
    using assms by (simp add: unat_nat)
  then show ?thesis by (simp add: kmem_align_up_ptr_def KMEM_ALIGN_def unsigned_word_eqI)
qed

lemma of_nat_eq_iff64:
  "x < 18446744073709551616 \<Longrightarrow> y < 18446744073709551616 \<Longrightarrow> (of_nat x :: u64) = of_nat y \<longleftrightarrow> x = y"
  by (metis unat_nat)

lemma of_nat_eq_0_iff64: "x < 18446744073709551616 \<Longrightarrow> (of_nat x :: u64) = 0 \<longleftrightarrow> x = 0"
  using of_nat_eq_iff64 [of x 0] by simp

lemma payload_of_nat: "kmem_payload (of_nat a) = of_nat (a + 48)"
  by (simp add: kmem_payload_def sizeof_kmem_block_def)

lemma block_end:
  assumes "a mod 16 = 0" and "z mod 16 = 0" and "a + 48 + z < 18446744073709551616"
  shows "kmem_align_up_ptr (kmem_payload (of_nat a) + of_nat z) KMEM_ALIGN = of_nat (a + 48 + z)"
proof -
  have "(a + 48 + z) mod 16 = 0"
    using assms(1,2) by (simp add: mod_add_eq [symmetric, of _ z]) (simp add: mod_add_eq [symmetric, of a])
  from align_up_id [OF this assms(3)] show ?thesis by (simp add: payload_of_nat)
qed

lemma next_mod: "a mod 16 = 0 \<Longrightarrow> z mod 16 = 0 \<Longrightarrow> (a + 48 + z) mod (16 :: nat) = 0"
  by (simp add: mod_add_eq [symmetric, of _ z]) (simp add: mod_add_eq [symmetric, of a])

subsection \<open>The check of the heap\<close>

lemma kmem_validate_loop_seg:
  assumes "seg (heap s) p a bs 0" and "sizes_ok bs" and "bs \<noteq> []" and "a mod 16 = 0"
    and "unat (g_heap_base s) \<le> a" and "0 < a" and "a + extent bs = unat (g_heap_end s)"
  shows "kmem_validate_loop s g (of_nat a) (of_nat a) (of_nat p) =
    (if g + length bs \<le> 1048576 then 0 else -3)"
  using assms
proof (induction bs arbitrary: g p a)
  case (Cons b bs)
  obtain z f where b: "b = (z, f)" by fastforce
  have e: "a + 48 + z + extent bs = unat (g_heap_end s)" using Cons.prems(7) by (simp add: b)
  then have lt: "a + 48 + z + extent bs < 18446744073709551616" using unat_u64_bound [of "g_heap_end s"] by simp
  have z: "16 \<le> z" "z mod 16 = 0" using Cons.prems(2) by (simp_all add: b)
  have h: "header (heap s) p a z f (if bs = [] then 0 else a + 48 + z)"
    using Cons.prems(1) by (simp add: b)
  note flds = h [unfolded header_def]
  have pl: "unat (g_heap_end s - kmem_payload (of_nat a)) = z + extent bs"
    using e lt by (simp add: payload_of_nat unat_sub_if' unat_nat del: of_nat_add)
  have step: "kmem_validate_loop s g (of_nat a) (of_nat a) (of_nat p) =
      (if g + 1 > 1048576 then -3
       else kmem_validate_loop s (g + 1) (kb_next (heap s) (of_nat a)) (of_nat (a + 48 + z)) (of_nat a))"
  proof -
    have "(of_nat a :: u64) \<noteq> 0" "\<not> of_nat a < g_heap_base s" "\<not> of_nat a + sizeof_kmem_block > g_heap_end s"
      "\<not> (of_nat z :: u64) > g_heap_end s - kmem_payload (of_nat a)"
      "(of_nat (a + 48 + z) :: u64) \<noteq> 0" "\<not> of_nat (a + 48 + z) > g_heap_end s"
      using lt e Cons.prems(5,6) pl unfolding sizeof_kmem_block_def of_nat_offsets
      by (simp_all add: word_less_nat_alt unat_nat of_nat_eq_0_iff64 del: of_nat_add)
    then show ?thesis
      using flds block_end [OF Cons.prems(4) z(2)] lt
      by (subst kmem_validate_loop.simps) (simp del: of_nat_add)
  qed
  show ?case
  proof (cases "bs = []")
    case True
    then show ?thesis using flds unfolding step by (simp add: b)
  next
    case False
    have "kmem_validate_loop s (g + 1) (of_nat (a + 48 + z)) (of_nat (a + 48 + z)) (of_nat a) =
        (if g + 1 + length bs \<le> 1048576 then 0 else -3)"
      by (rule Cons.IH) (use Cons.prems False e z next_mod [OF Cons.prems(4) z(2)] in \<open>simp_all add: b\<close>)
    then show ?thesis using flds False unfolding step by (simp add: b)
  qed
qed simp

subsection \<open>Splitting a block\<close>

definition apart :: "nat \<Rightarrow> nat \<Rightarrow> bool" where
  "apart b c \<longleftrightarrow> block_space b \<and> block_space c \<and> (b + 48 \<le> c \<or> c + 48 \<le> b)"

lemma field_other:
  assumes "apart b c"
  defines "B \<equiv> of_nat b" and "C \<equiv> of_nat c"
  shows "kb_magic (set_magic m B v) C = kb_magic m C" "kb_size (set_magic m B v) C = kb_size m C"
    "kb_free (set_magic m B v) C = kb_free m C" "kb_prev (set_magic m B v) C = kb_prev m C"
    "kb_next (set_magic m B v) C = kb_next m C"
    "kb_magic (set_size m B v) C = kb_magic m C" "kb_size (set_size m B v) C = kb_size m C"
    "kb_free (set_size m B v) C = kb_free m C" "kb_prev (set_size m B v) C = kb_prev m C"
    "kb_next (set_size m B v) C = kb_next m C"
    "kb_magic (set_free m B u) C = kb_magic m C" "kb_size (set_free m B u) C = kb_size m C"
    "kb_free (set_free m B u) C = kb_free m C" "kb_prev (set_free m B u) C = kb_prev m C"
    "kb_next (set_free m B u) C = kb_next m C"
    "kb_magic (set_pad m B u) C = kb_magic m C" "kb_size (set_pad m B u) C = kb_size m C"
    "kb_free (set_pad m B u) C = kb_free m C" "kb_prev (set_pad m B u) C = kb_prev m C"
    "kb_next (set_pad m B u) C = kb_next m C"
    "kb_magic (set_prev m B v) C = kb_magic m C" "kb_size (set_prev m B v) C = kb_size m C"
    "kb_free (set_prev m B v) C = kb_free m C" "kb_prev (set_prev m B v) C = kb_prev m C"
    "kb_next (set_prev m B v) C = kb_next m C"
    "kb_magic (set_next m B v) C = kb_magic m C" "kb_size (set_next m B v) C = kb_size m C"
    "kb_free (set_next m B v) C = kb_free m C" "kb_prev (set_next m B v) C = kb_prev m C"
    "kb_next (set_next m B v) C = kb_next m C"
proof -
  have b: "block_space b" "c + 48 \<le> b \<or> b + 48 \<le> c" "c + 48 \<le> 2 ^ 64"
    using assms(1) by (auto simp: apart_def block_space_def)
  show "kb_magic (set_magic m B v) C = kb_magic m C" "kb_size (set_magic m B v) C = kb_size m C"
    "kb_free (set_magic m B v) C = kb_free m C" "kb_prev (set_magic m B v) C = kb_prev m C"
    "kb_next (set_magic m B v) C = kb_next m C"
    "kb_magic (set_size m B v) C = kb_magic m C" "kb_size (set_size m B v) C = kb_size m C"
    "kb_free (set_size m B v) C = kb_free m C" "kb_prev (set_size m B v) C = kb_prev m C"
    "kb_next (set_size m B v) C = kb_next m C"
    "kb_magic (set_free m B u) C = kb_magic m C" "kb_size (set_free m B u) C = kb_size m C"
    "kb_free (set_free m B u) C = kb_free m C" "kb_prev (set_free m B u) C = kb_prev m C"
    "kb_next (set_free m B u) C = kb_next m C"
    "kb_magic (set_pad m B u) C = kb_magic m C" "kb_size (set_pad m B u) C = kb_size m C"
    "kb_free (set_pad m B u) C = kb_free m C" "kb_prev (set_pad m B u) C = kb_prev m C"
    "kb_next (set_pad m B u) C = kb_next m C"
    "kb_magic (set_prev m B v) C = kb_magic m C" "kb_size (set_prev m B v) C = kb_size m C"
    "kb_free (set_prev m B v) C = kb_free m C" "kb_prev (set_prev m B v) C = kb_prev m C"
    "kb_next (set_prev m B v) C = kb_next m C"
    "kb_magic (set_next m B v) C = kb_magic m C" "kb_size (set_next m B v) C = kb_size m C"
    "kb_free (set_next m B v) C = kb_free m C" "kb_prev (set_next m B v) C = kb_prev m C"
    "kb_next (set_next m B v) C = kb_next m C"
    unfolding B_def C_def by (rule header_agree, rule set_agree, rule b(1), rule b(2), rule b(3))+
qed

text \<open>
  The second memory differs from the first only in the headers at the addresses of the list.
\<close>

definition headers_only :: "nat list \<Rightarrow> bytes \<Rightarrow> bytes \<Rightarrow> bool" where
  "headers_only bs m m' \<longleftrightarrow>
     (\<forall>x y. y \<le> 2 ^ 64 \<longrightarrow> (\<forall>b \<in> set bs. y \<le> b \<or> b + 48 \<le> x) \<longrightarrow> agree m' m x y)"

lemma headers_only_refl: "headers_only bs m m"
  by (simp add: headers_only_def)

lemma headers_only_set:
  assumes "headers_only bs m m'" and "b \<in> set bs" and "block_space b"
  shows "headers_only bs m (set_magic m' (of_nat b) v)" "headers_only bs m (set_size m' (of_nat b) v)"
    "headers_only bs m (set_free m' (of_nat b) u)" "headers_only bs m (set_pad m' (of_nat b) u)"
    "headers_only bs m (set_prev m' (of_nat b) v)" "headers_only bs m (set_next m' (of_nat b) v)"
proof -
  have "headers_only bs m k" if "\<And>x y. y \<le> b \<or> b + 48 \<le> x \<Longrightarrow> y \<le> 2 ^ 64 \<Longrightarrow> agree k m' x y" for k
    using assms(1,2) that unfolding headers_only_def by (blast intro: agree_trans)
  note this [OF set_agree(1) [OF assms(3)]] this [OF set_agree(2) [OF assms(3)]]
    this [OF set_agree(3) [OF assms(3)]] this [OF set_agree(4) [OF assms(3)]]
    this [OF set_agree(5) [OF assms(3)]] this [OF set_agree(6) [OF assms(3)]]
  then show "headers_only bs m (set_magic m' (of_nat b) v)" "headers_only bs m (set_size m' (of_nat b) v)"
    "headers_only bs m (set_free m' (of_nat b) u)" "headers_only bs m (set_pad m' (of_nat b) u)"
    "headers_only bs m (set_prev m' (of_nat b) v)" "headers_only bs m (set_next m' (of_nat b) v)"
    by simp_all
qed

text \<open>The header that follows a block, when there is one.\<close>

definition first_header :: "nat \<Rightarrow> block list \<Rightarrow> nat list" where
  "first_header x ys = (if ys = [] then [] else [x])"

lemma headers_only_agree:
  "headers_only bs m m' \<Longrightarrow> y \<le> 2 ^ 64 \<Longrightarrow> (\<And>b. b \<in> set bs \<Longrightarrow> y \<le> b \<or> b + 48 \<le> x) \<Longrightarrow> agree m' m x y"
  by (simp add: headers_only_def)

lemma seg_relink:
  assumes seg: "seg m p x ys 0" and only: "headers_only bs m m'"
    and low: "\<forall>b \<in> set bs. b = x \<or> b + 48 \<le> x" and e: "x + extent ys < 2 ^ 64"
    and first: "ys \<noteq> [] \<Longrightarrow> kb_magic m' (of_nat x) = kb_magic m (of_nat x) \<and>
      kb_size m' (of_nat x) = kb_size m (of_nat x) \<and> kb_free m' (of_nat x) = kb_free m (of_nat x) \<and>
      kb_next m' (of_nat x) = kb_next m (of_nat x) \<and> kb_prev m' (of_nat x) = of_nat q"
  shows "seg m' q x ys 0"
proof (cases ys)
  case (Cons y ys')
  obtain z f where y: "y = (z, f)" by fastforce
  have "agree m' m (x + 48 + z) (x + 48 + z + extent ys')"
    by (rule headers_only_agree [OF only]) (use low e in \<open>auto simp: Cons y\<close>)
  from seg_agree [OF this] show ?thesis
    using seg first by (simp add: Cons y header_def)
qed simp

text \<open>The address arithmetic of a split: where the new block goes, and that neither guard stops it.\<close>

lemma split_arith:
  assumes b: "b mod 16 = 0" and w: "w mod 16 = 0" "w + 80 < z" and e: "b + 48 + z + k = unat (g_heap_end s)"
  shows "kmem_align_up_ptr (kmem_payload (of_nat b) + of_nat w) KMEM_ALIGN = of_nat (b + 48 + w)"
    and "(of_nat (b + 48 + w) :: u64) - kmem_payload (of_nat b) = of_nat w"
    and "\<not> of_nat (b + 48 + w) + sizeof_kmem_block \<ge> g_heap_end s"
    and "\<not> (of_nat z :: u64) \<le> of_nat w + sizeof_kmem_block + KMEM_MIN_SPLIT"
    and "(of_nat z :: u64) - of_nat w - sizeof_kmem_block = of_nat (z - w - 48)"
proof -
  have lt: "b + 48 + z + k < 18446744073709551616" using e unat_u64_bound [of "g_heap_end s"] by simp
  show "kmem_align_up_ptr (kmem_payload (of_nat b) + of_nat w) KMEM_ALIGN = of_nat (b + 48 + w)"
    by (rule block_end [OF b w(1)]) (use lt w in simp)
  show "(of_nat (b + 48 + w) :: u64) - kmem_payload (of_nat b) = of_nat w" by (simp add: payload_of_nat)
  show "\<not> of_nat (b + 48 + w) + sizeof_kmem_block \<ge> g_heap_end s"
    using lt e w unfolding sizeof_kmem_block_def of_nat_offsets
    by (simp add: word_le_nat_alt unat_nat del: of_nat_add)
  have "(of_nat w :: u64) + 48 + 32 = of_nat (w + 80)" by simp
  then show "\<not> (of_nat z :: u64) \<le> of_nat w + sizeof_kmem_block + KMEM_MIN_SPLIT"
    using lt w by (simp add: sizeof_kmem_block_def KMEM_MIN_SPLIT_def word_le_nat_alt unat_nat del: of_nat_add)
  show "(of_nat z :: u64) - of_nat w - sizeof_kmem_block = of_nat (z - w - 48)"
    using w by (simp add: sizeof_kmem_block_def of_nat_diff)
qed

lemma split_effect:
  assumes seg: "seg m p b ((z, f) # ys) 0" and b: "b mod 16 = 0" and z: "z mod 16 = 0"
    and e: "b + 48 + z + extent ys = unat (g_heap_end s)"
    and w: "w mod 16 = 0" "w + 80 < z"
  defines "m' \<equiv> kmem_split_if_useful s (of_nat b) (of_nat w) m"
  shows "seg m' p b ((w, f) # (z - w - 48, True) # ys) 0"
    and "headers_only (b # (b + 48 + w) # first_header (b + 48 + z) ys) m m'"
proof -
  let ?n = "b + 48 + w" and ?x = "b + 48 + z"
  have lt: "b + 48 + z + extent ys < 18446744073709551616"
    using e unat_u64_bound [of "g_heap_end s"] by simp
  have h: "header m p b z f (if ys = [] then 0 else ?x)" and tl: "seg m b ?x ys 0" using seg by simp_all
  have space: "block_space b" "block_space ?n" using lt w by (simp_all add: block_space_def)
  have space_x: "block_space ?x" if "ys \<noteq> []"
    using lt that by (cases ys) (auto simp: block_space_def)
  have ap: "apart b ?n" "apart ?n b" using space by (simp_all add: apart_def)
  have ap_x: "apart b ?x" "apart ?x b" "apart ?n ?x" "apart ?x ?n" if "ys \<noteq> []"
    using space space_x [OF that] w by (auto simp: apart_def)
  note arith = split_arith [OF b w e]
  define m1 where "m1 = set_next (set_prev (set_pad (set_free (set_size (set_magic m (of_nat ?n) KMEM_MAGIC)
      (of_nat ?n) (of_nat (z - w - 48))) (of_nat ?n) 1) (of_nat ?n) 0) (of_nat ?n) (of_nat b)) (of_nat ?n)
      (if ys = [] then 0 else of_nat ?x)"
  define m2 where "m2 = (if ys = [] then m1 else set_prev m1 (of_nat ?x) (of_nat ?n))"
  have x0: "(of_nat ?x :: u64) \<noteq> 0" if "ys \<noteq> []"
    using lt by (simp add: of_nat_eq_0_iff64 del: of_nat_add)
  have kb: "kb_size m (of_nat b) = of_nat z" "kb_next m (of_nat b) = (if ys = [] then 0 else of_nat ?x)"
    using h by (auto simp: header_def)
  note fields = field_same [OF space(1)] field_same [OF space(2)] field_other [OF ap(1)] field_other [OF ap(2)]
  have m': "m' = set_size (set_next m2 (of_nat b) (of_nat ?n)) (of_nat b) (of_nat w)"
    using arith(3,4) x0 unfolding m'_def kmem_split_if_useful_def Let_def arith(1,2)
    by (simp add: fields kb arith(5) m2_def m1_def del: of_nat_add)
  show only: "headers_only (b # ?n # first_header ?x ys) m m'"
    unfolding m' m2_def m1_def
    by (auto simp: first_header_def space space_x intro!: headers_only_set headers_only_refl simp del: of_nat_add)
  have hb: "header m' p b w f ?n"
    using h ap_x unfolding m' m2_def m1_def header_def
    by (auto simp: fields field_other simp del: of_nat_add)
  have hn: "header m' b ?n (z - w - 48) True (if ys = [] then 0 else ?x)"
    using ap_x unfolding m' m2_def m1_def header_def
    by (auto simp: fields field_other simp del: of_nat_add)
  have "seg m' ?n ?x ys 0"
  proof (rule seg_relink [OF tl only])
    show "\<forall>c \<in> set (b # ?n # first_header ?x ys). c = ?x \<or> c + 48 \<le> ?x"
      using w by (auto simp: first_header_def)
    show "?x + extent ys < 2 ^ 64" using lt by simp
    assume ys: "ys \<noteq> []"
    note fs = ap_x [OF ys] space_x [OF ys]
    show "kb_magic m' (of_nat ?x) = kb_magic m (of_nat ?x) \<and>
      kb_size m' (of_nat ?x) = kb_size m (of_nat ?x) \<and> kb_free m' (of_nat ?x) = kb_free m (of_nat ?x) \<and>
      kb_next m' (of_nat ?x) = kb_next m (of_nat ?x) \<and> kb_prev m' (of_nat ?x) = of_nat ?n"
      using ys unfolding m' m2_def m1_def
      by (simp add: field_other [OF fs(1)] field_other [OF fs(3)] field_same [OF fs(5)] del: of_nat_add)
  qed
  moreover have eq: "?n + 48 + (z - w - 48) = ?x" using w by simp
  ultimately show "seg m' p b ((w, f) # (z - w - 48, True) # ys) 0"
    using hb hn unfolding seg.simps eq by simp
qed

subsection \<open>Changing the free flag and merging blocks\<close>

lemma set_free_effect:
  assumes seg: "seg m p b ((z, f) # ys) n" and e: "b + 48 + z + extent ys < 18446744073709551616"
  shows "seg (set_free m (of_nat b) v) p b ((z, v \<noteq> 0) # ys) n" and "headers_only [b] m (set_free m (of_nat b) v)"
proof -
  have space: "block_space b" using e by (simp add: block_space_def)
  show only: "headers_only [b] m (set_free m (of_nat b) v)"
    by (rule headers_only_set [OF headers_only_refl _ space]) simp
  have "agree (set_free m (of_nat b) v) m (b + 48 + z) (b + 48 + z + extent ys)"
    by (rule headers_only_agree [OF only]) (use e in auto)
  from seg_agree [OF this] show "seg (set_free m (of_nat b) v) p b ((z, v \<noteq> 0) # ys) n"
    using seg by (auto simp: header_def field_same [OF space])
qed

lemma coalesce_stop:
  assumes "seg m p b ((z, f) # ys) 0" and "ys = [] \<or> \<not> snd (hd ys)"
  shows "kmem_coalesce_forward (of_nat b) m = Some m"
proof (cases ys)
  case Nil
  then show ?thesis using assms by (subst kmem_coalesce_forward.simps) (simp add: header_def)
next
  case (Cons y ys')
  then have "kb_free m (of_nat (b + 48 + z)) = 0" "kb_next m (of_nat b) = of_nat (b + 48 + z)"
    using assms by (cases y; auto simp: header_def)+
  then show ?thesis by (subst kmem_coalesce_forward.simps) (simp del: of_nat_add)
qed

lemma coalesce_step:
  assumes seg: "seg m p b ((z, f) # (z', True) # ys) 0" and b: "b mod 16 = 0" "0 < b" and z: "z mod 16 = 0"
    and e: "b + 48 + z + 48 + z' + extent ys < 18446744073709551616"
  obtains m' where "kmem_coalesce_forward (of_nat b) m = kmem_coalesce_forward (of_nat b) m'"
    "seg m' p b ((z + 48 + z', f) # ys) 0"
    "headers_only (b # (b + 48 + z) # first_header (b + 48 + z + 48 + z') ys) m m'"
proof -
  let ?n = "b + 48 + z"
  define x where "x = ?n + 48 + z'"
  have h: "header m p b z f ?n" and hn: "header m b ?n z' True (if ys = [] then 0 else x)"
    and tl: "seg m ?n x ys 0" using seg unfolding x_def by simp_all
  have ex: "x + extent ys < 18446744073709551616" "?n + 48 \<le> x" using e by (simp_all add: x_def)
  have space: "block_space b" "block_space ?n" using e by (simp_all add: block_space_def)
  have space_x: "block_space x" if "ys \<noteq> []"
    using ex that by (cases ys) (auto simp: block_space_def)
  have ap: "apart b ?n" "apart ?n b" using space by (simp_all add: apart_def)
  have ap_x: "apart b x" "apart x b" "apart ?n x" "apart x ?n" if "ys \<noteq> []"
    using space space_x [OF that] ex by (auto simp: apart_def)
  have nz: "(of_nat b :: u64) \<noteq> 0" "(of_nat ?n :: u64) \<noteq> 0" and xz: "ys \<noteq> [] \<Longrightarrow> (of_nat x :: u64) \<noteq> 0"
    using e ex b(2) by (simp_all add: of_nat_eq_0_iff64 del: of_nat_add)
  have expected: "kmem_align_up_ptr (kmem_payload (of_nat b) + of_nat z) KMEM_ALIGN = of_nat ?n"
    by (rule block_end [OF b(1) z]) (use e in simp)
  have sum: "(of_nat z :: u64) + (sizeof_kmem_block + of_nat z') = of_nat (z + 48 + z')"
    by (simp add: sizeof_kmem_block_def)
  define m1 where "m1 = set_next (set_size m (of_nat b) (of_nat (z + 48 + z'))) (of_nat b)
      (if ys = [] then 0 else of_nat x)"
  define m2 where "m2 = (if ys = [] then m1 else set_prev m1 (of_nat x) (of_nat b))"
  define m' where "m' = set_next (set_prev (set_size (set_magic m2 (of_nat ?n) 0) (of_nat ?n) 0) (of_nat ?n) 0)
      (of_nat ?n) 0"
  have kb: "kb_size m (of_nat b) = of_nat z" "kb_next m (of_nat b) = of_nat ?n"
    "kb_size m (of_nat ?n) = of_nat z'" "kb_next m (of_nat ?n) = (if ys = [] then 0 else of_nat x)"
    "kb_free m (of_nat ?n) \<noteq> 0"
    using h hn by (auto simp: header_def)
  note fields = field_same [OF space(1)] field_same [OF space(2)] field_other [OF ap(1)] field_other [OF ap(2)]
  have step: "kmem_coalesce_forward (of_nat b) m = kmem_coalesce_forward (of_nat b) m'"
    using nz xz kb(5)
    by (subst kmem_coalesce_forward.simps)
       (simp add: kb(1-4) expected sum fields m'_def m2_def m1_def Let_def del: of_nat_add)
  have only: "headers_only (b # ?n # first_header x ys) m m'"
    unfolding m'_def m2_def m1_def
    by (auto simp: first_header_def space space_x intro!: headers_only_set headers_only_refl simp del: of_nat_add)
  have hb: "header m' p b (z + 48 + z') f (if ys = [] then 0 else x)"
    using h ap_x unfolding m'_def m2_def m1_def header_def
    by (auto simp: fields field_other simp del: of_nat_add)
  have "seg m' b x ys 0"
  proof (rule seg_relink [OF tl only])
    show "\<forall>c \<in> set (b # ?n # first_header x ys). c = x \<or> c + 48 \<le> x"
      using ex by (auto simp: first_header_def)
    show "x + extent ys < 2 ^ 64" using ex by simp
    assume ys: "ys \<noteq> []"
    note fs = ap_x [OF ys] space_x [OF ys]
    show "kb_magic m' (of_nat x) = kb_magic m (of_nat x) \<and>
      kb_size m' (of_nat x) = kb_size m (of_nat x) \<and> kb_free m' (of_nat x) = kb_free m (of_nat x) \<and>
      kb_next m' (of_nat x) = kb_next m (of_nat x) \<and> kb_prev m' (of_nat x) = of_nat b"
      using ys unfolding m'_def m2_def m1_def
      by (simp add: field_other [OF fs(1)] field_other [OF fs(3)] field_same [OF fs(5)] del: of_nat_add)
  qed
  moreover have eq: "b + 48 + (z + 48 + z') = x" by (simp add: x_def)
  ultimately have "seg m' p b ((z + 48 + z', f) # ys) 0" using hb unfolding seg.simps eq by simp
  with step only [unfolded x_def] show thesis using that by blast
qed

subsection \<open>The invariant of the heap\<close>

fun coalesced :: "block list \<Rightarrow> bool" where
  "coalesced (x # y # bs) \<longleftrightarrow> \<not> (snd x \<and> snd y) \<and> coalesced (y # bs)"
| "coalesced _ \<longleftrightarrow> True"

text \<open>The blocks tile the heap from its base to its end. The bound on their extent leaves out only the heap from
  address 16 to \<open>2 ^ 64 - 16\<close>, in which a request for everything makes the sums of the split wrap around.\<close>

definition kmem_wf :: "kmem_state \<Rightarrow> block list \<Rightarrow> bool" where
  "kmem_wf s bs \<longleftrightarrow> g_initialized s \<and> 0 < unat (g_heap_base s) \<and> extent bs + 32 < 2 ^ 64 \<and> unat (g_heap_base s) mod 16 = 0 \<and>
     g_head s = g_heap_base s \<and> unat (g_heap_base s) + extent bs = unat (g_heap_end s) \<and>
     bs \<noteq> [] \<and> sizes_ok bs \<and> coalesced bs \<and> seg (heap s) 0 (unat (g_heap_base s)) bs 0"

text \<open>The addresses and sizes of the payloads in use.\<close>

fun used_payloads :: "nat \<Rightarrow> block list \<Rightarrow> (nat \<times> nat) set" where
  "used_payloads a [] = {}"
| "used_payloads a ((z, f) # bs) = (if f then {} else {(a + 48, z)}) \<union> used_payloads (a + 48 + z) bs"

lemma used_payloads_append [simp]:
  "used_payloads a (xs @ ys) = used_payloads a xs \<union> used_payloads (a + extent xs) ys"
  by (induction xs arbitrary: a) (auto simp: add.assoc)

lemma used_payloads_range: "(q, z) \<in> used_payloads a bs \<Longrightarrow> a + 48 \<le> q \<and> q + z \<le> a + extent bs"
  by (induction bs arbitrary: a) (fastforce split: if_splits)+

lemma coalesced_append:
  "coalesced (xs @ y # ys) \<longleftrightarrow> coalesced (xs @ [y]) \<and> coalesced (y # ys)"
  by (induction xs rule: coalesced.induct) auto

lemma coalesced_snoc: "coalesced (xs @ [y]) \<longleftrightarrow> coalesced xs \<and> \<not> (xs \<noteq> [] \<and> snd (last xs) \<and> snd y)"
  by (induction xs rule: coalesced.induct) auto

lemma coalesced_Cons: "coalesced (y # ys) \<longleftrightarrow> coalesced ys \<and> \<not> (ys \<noteq> [] \<and> snd y \<and> snd (hd ys))"
  by (cases ys) auto

lemma kmem_wfD:
  assumes "kmem_wf s bs"
  defines "a \<equiv> unat (g_heap_base s)"
  shows "g_initialized s" "0 < a" "a mod 16 = 0" "g_head s = of_nat a" "a + extent bs = unat (g_heap_end s)"
    "a + extent bs < 18446744073709551616" "bs \<noteq> []" "sizes_ok bs" "coalesced bs" "seg (heap s) 0 a bs 0"
    "extent bs + 32 < 18446744073709551616"
  using assms unat_u64_bound [of "g_heap_end s"] by (simp_all add: kmem_wf_def)

lemma kmem_wf_validate:
  assumes "kmem_wf s bs"
  shows "kmem_validate s = (if length bs \<le> 1048576 then 0 else -3)"
proof -
  note wf = kmem_wfD [OF assms]
  have "extent bs \<noteq> 0" using wf(7) by (cases bs) auto
  then have "g_heap_base s \<noteq> 0" "\<not> g_heap_end s \<le> g_heap_base s" "g_head s = g_heap_base s"
    using wf(2,4,5) by (auto simp: word_le_nat_alt)
  then show ?thesis
    using kmem_validate_loop_seg [OF wf(10,8,7,3) _ _ wf(5), of 0] wf(1,2,4) by (simp add: kmem_validate_def)
qed

subsection \<open>Allocation\<close>

lemma split_none:
  assumes size: "kb_size m (of_nat b) = of_nat z" and b: "b mod 16 = 0" and w: "w mod 16 = 0" "w \<le> z" "z \<le> w + 80"
    and e: "b + 48 + z < 18446744073709551616" "z + 80 < 18446744073709551616"
  shows "kmem_split_if_useful s (of_nat b) (of_nat w) m = m"
proof -
  have new_addr: "kmem_align_up_ptr (kmem_payload (of_nat b) + of_nat w) KMEM_ALIGN = of_nat (b + 48 + w)"
    by (rule block_end [OF b w(1)]) (use e w in simp)
  have consumed: "(of_nat (b + 48 + w) :: u64) - kmem_payload (of_nat b) = of_nat w"
    by (simp add: payload_of_nat)
  have "(of_nat w :: u64) + 48 + 32 = of_nat (w + 80)" by simp
  then have "(of_nat z :: u64) \<le> of_nat w + sizeof_kmem_block + KMEM_MIN_SPLIT"
    using e w b by (simp add: sizeof_kmem_block_def KMEM_MIN_SPLIT_def word_le_nat_alt unat_nat del: of_nat_add)
  then show ?thesis
    by (simp add: kmem_split_if_useful_def Let_def new_addr consumed size del: of_nat_add)
qed

definition fits :: "nat \<Rightarrow> block \<Rightarrow> bool" where "fits w x \<longleftrightarrow> snd x \<and> w \<le> fst x"

lemma alloc_loop_skip:
  assumes seg: "seg (heap s) p a (xs @ ys) 0" and e: "a + extent (xs @ ys) < 18446744073709551616" and a: "0 < a"
    and w: "w < 18446744073709551616" and nofit: "\<forall>x \<in> set xs. \<not> fits w x" and ne: "xs @ ys \<noteq> []"
  shows "alloc_loop s (of_nat w) (of_nat a) =
    (if ys = [] then Some (0, s) else alloc_loop s (of_nat w) (of_nat (a + extent xs)))"
  using assms
proof (induction xs arbitrary: p a)
  case (Cons x xs)
  obtain z f where x: "x = (z, f)" by fastforce
  have h: "header (heap s) p a z f (if xs @ ys = [] then 0 else a + 48 + z)" "seg (heap s) a (a + 48 + z) (xs @ ys) 0"
    using Cons.prems(1) by (simp_all add: x)
  have lt: "a + 48 + z + extent (xs @ ys) < 18446744073709551616" using Cons.prems(2) by (simp add: x)
  have nf: "\<not> (f \<and> w \<le> z)" using Cons.prems(5) by (simp add: x fits_def)
  have "(of_nat w :: u64) \<le> of_nat z \<longleftrightarrow> w \<le> z" using lt w by (simp add: word_le_nat_alt unat_nat)
  moreover have "(of_nat a :: u64) \<noteq> 0" using lt Cons.prems(3) by (simp add: of_nat_eq_0_iff64)
  ultimately have step: "alloc_loop s (of_nat w) (of_nat a) = alloc_loop s (of_nat w) (kb_next (heap s) (of_nat a))"
    using h nf by (subst alloc_loop.simps) (auto simp: header_def)
  show ?case
  proof (cases "xs @ ys = []")
    case True
    then have "kb_next (heap s) (of_nat a) = 0" using h by (simp add: header_def)
    then show ?thesis using step True by (subst (asm) (2) alloc_loop.simps) simp
  next
    case False
    then have "kb_next (heap s) (of_nat a) = of_nat (a + 48 + z)" using h by (auto simp: header_def)
    then show ?thesis
      using step Cons.IH [OF h(2) lt] Cons.prems(4,5) False by (simp add: x add.assoc)
  qed
qed simp

definition alloc_split :: "nat \<Rightarrow> nat \<Rightarrow> block list" where
  "alloc_split w z = (if w + 80 < z then [(w, False), (z - w - 48, True)] else [(z, False)])"

text \<open>A change of headers keeps the payloads in use of a list of blocks.\<close>

definition keeps_payloads :: "bytes \<Rightarrow> bytes \<Rightarrow> nat \<Rightarrow> block list \<Rightarrow> bool" where
  "keeps_payloads m m' a bs \<longleftrightarrow> (\<forall>(q, z) \<in> used_payloads a bs. agree m' m q (q + z))"

lemma headers_only_payloads:
  assumes only: "headers_only cs m m'" and e: "a + extent bs < 2 ^ 64"
    and cs: "\<And>c. c \<in> set cs \<Longrightarrow> c = a \<or> c + 48 \<le> a \<or> a + extent bs \<le> c"
  shows "keeps_payloads m m' a bs"
  unfolding keeps_payloads_def
proof clarify
  fix q z assume "(q, z) \<in> used_payloads a bs"
  then have "a + 48 \<le> q" "q + z \<le> a + extent bs" using used_payloads_range by blast+
  then show "agree m' m q (q + z)"
    by (intro headers_only_agree [OF only]) (use e cs in fastforce)+
qed

lemma alloc_block_effect:
  assumes seg: "seg m p b ((z, True) # ys) 0" and b: "b mod 16 = 0" and z: "z mod 16 = 0"
    and e: "b + 48 + z + extent ys = unat (g_heap_end s)" "z + 80 < 18446744073709551616" and w: "w mod 16 = 0" "w \<le> z"
  defines "m' \<equiv> set_free (kmem_split_if_useful s (of_nat b) (of_nat w) m) (of_nat b) 0"
  shows "seg m' p b (alloc_split w z @ ys) 0"
    and "\<exists>cs. headers_only cs m m' \<and>
      (\<forall>c \<in> set cs. b \<le> c \<and> (c = b + 48 + z \<or> c + 48 \<le> b + 48 + z))"
proof -
  let ?k = "kmem_split_if_useful s (of_nat b) (of_nat w) m"
  have lt: "b + 48 + z + extent ys < 18446744073709551616"
    using e(1) unat_u64_bound [of "g_heap_end s"] by simp
  have space: "block_space b" using lt by (simp add: block_space_def)
  show "seg m' p b (alloc_split w z @ ys) 0"
  proof (cases "w + 80 < z")
    case True
    from set_free_effect(1) [OF split_effect(1) [OF seg b z e(1) w(1) True], of 0] lt True
    show ?thesis by (simp add: m'_def alloc_split_def)
  next
    case False
    have "?k = m" by (rule split_none [of _ _ z]) (use seg b w False lt e(2) in \<open>simp_all add: header_def\<close>)
    then show ?thesis
      using set_free_effect(1) [OF seg lt, of 0] False by (simp add: m'_def alloc_split_def)
  qed
  show "\<exists>cs. headers_only cs m m' \<and>
      (\<forall>c \<in> set cs. b \<le> c \<and> (c = b + 48 + z \<or> c + 48 \<le> b + 48 + z))"
  proof (cases "w + 80 < z")
    case True
    have "headers_only (b # (b + 48 + w) # first_header (b + 48 + z) ys) m m'"
      unfolding m'_def by (rule headers_only_set(3) [OF split_effect(2) [OF seg b z e(1) w(1) True] _ space]) simp
    then show ?thesis
      using True by (intro exI [of _ "b # (b + 48 + w) # first_header (b + 48 + z) ys"])
        (auto simp: first_header_def)
  next
    case False
    have "?k = m" by (rule split_none [of _ _ z]) (use seg b w False lt e(2) in \<open>simp_all add: header_def\<close>)
    then show ?thesis
      using set_free_effect(2) [OF seg lt] by (intro exI [of _ "[b]"]) (simp add: m'_def)
  qed
qed

lemma of_nat_unat_u64: "unat (x :: u64) = k \<Longrightarrow> x = of_nat k"
  by auto

lemma wanted_size:
  "unat (kmem_align_up_size n KMEM_ALIGN) =
     (if unat n \<le> 18446744073709551600 then (unat n + 15) div 16 * 16 else 0)"
proof (cases "unat n \<le> 18446744073709551600")
  case True
  then have "unat (n + 15) = unat n + 15" by (subst unat_add_no_wrap) simp_all
  then show ?thesis
    using True by (simp add: kmem_align_up_size_def KMEM_ALIGN_def mask_simps minus_mod_eq_div_mult)
next
  case False
  then have "unat (n + 15) = unat n + 15 - 18446744073709551616"
    using unat_u64_bound [of n] by (simp add: unat_word_ariths mod_if)
  then have "unat (n + 15) < 16" using unat_u64_bound [of n] by simp
  then show ?thesis
    using False by (simp add: kmem_align_up_size_def KMEM_ALIGN_def mask_simps)
qed

lemma coalesced_split:
  assumes "coalesced (xs @ (z, True) # ys)"
  shows "coalesced (xs @ alloc_split w z @ ys)"
  using assms unfolding alloc_split_def
  by (auto simp: coalesced_append [of xs] coalesced_snoc coalesced_Cons)

lemma sizes_ok_split:
  assumes "16 \<le> z" "z mod 16 = 0" and "16 \<le> w" "w mod 16 = 0"
  shows "sizes_ok (alloc_split w z)"
proof -
  obtain i j where "z = 16 * i" "w = 16 * j" using assms by (metis dvdE mod_eq_0_iff_dvd)
  moreover from this have "16 * i - 16 * j - 48 = 16 * (i - j - 3)" by simp
  ultimately show ?thesis using assms by (auto simp: alloc_split_def)
qed

lemma extent_split: "extent (alloc_split w z) = 48 + z"
  by (simp add: alloc_split_def)

lemma keeps_payloads_append:
  "keeps_payloads m m' a (xs @ ys) \<longleftrightarrow> keeps_payloads m m' a xs \<and> keeps_payloads m m' (a + extent xs) ys"
  by (auto simp: keeps_payloads_def)

text \<open>Replacing the middle of the block list.\<close>

lemma kmem_wf_replace:
  assumes wf: "kmem_wf s (xs @ mid @ ys)"
    and seg: "seg m' (last_block 0 (unat (g_heap_base s)) xs) (unat (g_heap_base s) + extent xs) (mid' @ ys) 0"
    and same: "agree m' (heap s) 0 (unat (g_heap_base s) + extent xs)"
    and mid': "extent mid' = extent mid" "sizes_ok mid'" "mid' \<noteq> []" "mid \<noteq> []" "coalesced (xs @ mid' @ ys)"
  shows "kmem_wf (s\<lparr>heap := m'\<rparr>) (xs @ mid' @ ys)"
proof -
  note wf' = kmem_wfD [OF wf]
  have "seg (heap s) 0 (unat (g_heap_base s)) xs (unat (g_heap_base s) + extent xs)"
    using wf'(10) mid'(4) by (simp add: blocks_append [of _ _ _ xs])
  moreover have "agree m' (heap s) (unat (g_heap_base s)) (unat (g_heap_base s) + extent xs)"
    by (rule agree_sub [OF same]) simp_all
  ultimately have "seg m' 0 (unat (g_heap_base s)) xs (unat (g_heap_base s) + extent xs)"
    using seg_agree by blast
  then have "seg m' 0 (unat (g_heap_base s)) (xs @ mid' @ ys) 0"
    using seg mid'(3) by (subst blocks_append) simp
  then show ?thesis using wf mid' by (simp add: kmem_wf_def)
qed

lemma kmem_alloc_none:
  assumes wf: "kmem_wf s bs"
    and "n = 0 \<or> 18446744073709551600 < unat n \<or> (\<forall>x \<in> set bs. \<not> fits ((unat n + 15) div 16 * 16) x)"
  shows "kmem_alloc s n = Some (0, s)"
proof (cases "n = 0 \<or> kmem_align_up_size n KMEM_ALIGN = 0")
  case True
  then show ?thesis by (auto simp: kmem_alloc_def)
next
  case False
  note wf' = kmem_wfD [OF wf]
  let ?w = "(unat n + 15) div 16 * 16"
  have n: "unat n \<le> 18446744073709551600"
    using False wanted_size [of n] by (metis unat_eq_zero)
  then have w: "kmem_align_up_size n KMEM_ALIGN = of_nat ?w" "?w < 18446744073709551616"
    using wanted_size [of n] by (metis of_nat_unat_u64, simp)
  have "\<forall>x \<in> set bs. \<not> fits ?w x" using assms(2) False n by auto
  then have "alloc_loop s (of_nat ?w) (of_nat (unat (g_heap_base s))) = Some (0, s)"
    using alloc_loop_skip [of s 0 "unat (g_heap_base s)" bs "[]" ?w] wf' w by simp
  then show ?thesis using False wf'(1,4) by (simp add: kmem_alloc_def w(1))
qed

lemma keeps_around:
  assumes only: "headers_only cs m m'" and e: "a + extent (xs @ mid @ ys) < 2 ^ 64"
    and cs: "\<And>c. c \<in> set cs \<Longrightarrow> a + extent xs \<le> c \<and>
      (c = a + extent xs + extent mid \<or> c + 48 \<le> a + extent xs + extent mid)"
    and mid: "used_payloads (a + extent xs) mid = {}"
  shows "keeps_payloads m m' a (xs @ mid @ ys)" and "agree m' m 0 (a + extent xs)"
proof -
  have "keeps_payloads m m' a xs"
    by (rule headers_only_payloads [OF only]) (use e cs in fastforce)+
  moreover have "keeps_payloads m m' (a + extent xs + extent mid) ys"
    by (rule headers_only_payloads [OF only]) (use e cs in fastforce)+
  ultimately show "keeps_payloads m m' a (xs @ mid @ ys)"
    using mid by (simp add: keeps_payloads_append) (simp add: keeps_payloads_def)
  show "agree m' m 0 (a + extent xs)"
    by (rule headers_only_agree [OF only]) (use e cs in fastforce)+
qed

lemma base_mod: "a mod 16 = 0 \<Longrightarrow> sizes_ok xs \<Longrightarrow> (a + extent xs) mod 16 = 0"
  using extent_mod [of xs] by (simp add: mod_add_eq [symmetric, of a])

lemma kmem_alloc_some:
  assumes wf: "kmem_wf s (xs @ (z, True) # ys)"
    and n: "n \<noteq> 0" "unat n \<le> 18446744073709551600"
    and fit: "\<forall>x \<in> set xs. \<not> fits ((unat n + 15) div 16 * 16) x" "(unat n + 15) div 16 * 16 \<le> z"
  defines "base \<equiv> unat (g_heap_base s)" and "w \<equiv> (unat n + 15) div 16 * 16"
  shows "\<exists>m'. kmem_alloc s n = Some (of_nat (base + extent xs + 48), s\<lparr>heap := m'\<rparr>) \<and>
    kmem_wf (s\<lparr>heap := m'\<rparr>) (xs @ alloc_split w z @ ys) \<and>
    keeps_payloads (heap s) m' base (xs @ (z, True) # ys)"
proof -
  note wf' = kmem_wfD [OF wf, folded base_def]
  define b where "b = base + extent xs"
  have e: "b + 48 + z + extent ys = unat (g_heap_end s)" "b + 48 + z + extent ys < 18446744073709551616"
    using wf'(5,6) by (simp_all add: b_def)
  have z: "16 \<le> z" "z mod 16 = 0" and xs: "sizes_ok xs" using wf'(8) by simp_all
  have b: "b mod 16 = 0" "0 < b" and wide: "z + 80 < 18446744073709551616"
    using base_mod [OF wf'(3) xs] wf'(2,11) by (simp_all add: b_def)
  have "0 < unat n" using n(1) by (simp add: unat_gt_0)
  then have w: "w mod 16 = 0" "w \<le> z" "16 \<le> w" "w < 18446744073709551616"
    using fit(2) n(2) by (simp_all add: w_def)
  have wanted: "kmem_align_up_size n KMEM_ALIGN = of_nat w"
    by (rule of_nat_unat_u64) (simp add: wanted_size w_def n(2))
  have seg: "seg (heap s) (last_block 0 base xs) b ((z, True) # ys) 0"
    using wf'(10) by (simp add: blocks_append [of _ _ _ xs] b_def)
  define m' where "m' = set_free (kmem_split_if_useful s (of_nat b) (of_nat w) (heap s)) (of_nat b) 0"
  note eff = alloc_block_effect [OF seg b(1) z(2) e(1) wide w(1,2), folded m'_def]
  obtain cs where cs: "headers_only cs (heap s) m'"
    "\<forall>c \<in> set cs. b \<le> c \<and> (c = b + 48 + z \<or> c + 48 \<le> b + 48 + z)" using eff(2) by blast
  have around: "keeps_payloads (heap s) m' base (xs @ [(z, True)] @ ys)" "agree m' (heap s) 0 (base + extent xs)"
    by (rule keeps_around [OF cs(1), of base xs "[(z, True)]" ys]; use e cs(2) in \<open>auto simp: b_def\<close>)+
  have loop: "alloc_loop s (of_nat w) (of_nat base) = alloc_loop s (of_nat w) (of_nat b)"
    using alloc_loop_skip [OF wf'(10,6) _ w(4)] fit(1) wf'(2) by (simp add: w_def b_def)
  have "(of_nat b :: u64) \<noteq> 0" "(of_nat w :: u64) \<le> of_nat z" "(of_nat w :: u64) \<noteq> 0"
    using e b w by (simp_all add: of_nat_eq_0_iff64 word_le_nat_alt unat_nat)
  then have "alloc_loop s (of_nat w) (of_nat b) = Some (of_nat (b + 48), s\<lparr>heap := m'\<rparr>)"
    and "kmem_alloc s n = alloc_loop s (of_nat w) (of_nat base)"
    using seg n(1) wf'(1,4) wanted
    by (subst alloc_loop.simps, simp_all add: header_def m'_def Let_def payload_of_nat kmem_alloc_def)
  then have ret: "kmem_alloc s n = Some (of_nat (base + extent xs + 48), s\<lparr>heap := m'\<rparr>)"
    using loop by (simp add: b_def)
  have "kmem_wf (s\<lparr>heap := m'\<rparr>) (xs @ alloc_split w z @ ys)"
  proof (rule kmem_wf_replace [of s xs "[(z, True)]" ys])
    show "seg m' (last_block 0 (unat (g_heap_base s)) xs) (unat (g_heap_base s) + extent xs) (alloc_split w z @ ys) 0"
      using eff(1) by (simp add: b_def base_def)
    show "coalesced (xs @ alloc_split w z @ ys)" by (rule coalesced_split [OF wf'(9)])
    show "alloc_split w z \<noteq> []" by (simp add: alloc_split_def)
  qed (use wf around(2) sizes_ok_split [OF z w(3,1)] extent_split in \<open>simp_all add: base_def\<close>)
  then show ?thesis using ret around(1) by auto
qed

subsection \<open>Freeing\<close>

text \<open>The block list after freeing the block of size \<open>z\<close> between \<open>xs\<close> and \<open>ys\<close>.\<close>

definition merge_next :: "nat \<Rightarrow> block list \<Rightarrow> block list" where
  "merge_next z ys = (if ys \<noteq> [] \<and> snd (hd ys) then (z + 48 + fst (hd ys), True) # tl ys else (z, True) # ys)"

definition release :: "block list \<Rightarrow> nat \<Rightarrow> block list \<Rightarrow> block list" where
  "release xs z ys =
     (let bs = merge_next z ys in
      if xs \<noteq> [] \<and> snd (last xs) then butlast xs @ (fst (last xs) + 48 + fst (hd bs), True) # tl bs
      else xs @ bs)"

lemma coalesce_once:
  assumes seg: "seg m p b ((z, True) # ys) 0" and b: "b mod 16 = 0" "0 < b" and z: "z mod 16 = 0"
    and e: "b + 48 + z + extent ys < 18446744073709551616" and ys: "coalesced ys"
  obtains m' cs where "kmem_coalesce_forward (of_nat b) m = Some m'" "seg m' p b (merge_next z ys) 0"
    "headers_only cs m m'" "cs \<noteq> [] \<longrightarrow> ys \<noteq> [] \<and> snd (hd ys)"
    "\<forall>c \<in> set cs. b \<le> c \<and> (c = b + 48 + z + 48 + fst (hd ys) \<or> c + 48 \<le> b + 48 + z + 48 + fst (hd ys))"
proof (cases "ys \<noteq> [] \<and> snd (hd ys)")
  case False
  then show thesis
    using coalesce_stop [OF seg] seg by (intro that [of m "[]"]) (auto simp: merge_next_def headers_only_refl)
next
  case True
  then obtain z' ys' where y: "ys = (z', True) # ys'" by (cases ys) auto
  have "b + 48 + z + 48 + z' + extent ys' < 18446744073709551616" using e by (simp add: y)
  from coalesce_step [OF seg [unfolded y] b z this] obtain m' where
    m': "kmem_coalesce_forward (of_nat b) m = kmem_coalesce_forward (of_nat b) m'"
    "seg m' p b ((z + 48 + z', True) # ys') 0"
    "headers_only (b # (b + 48 + z) # first_header (b + 48 + z + 48 + z') ys') m m'" by blast
  have "kmem_coalesce_forward (of_nat b) m' = Some m'"
    by (rule coalesce_stop [OF m'(2)]) (use ys y in \<open>auto simp: coalesced_Cons\<close>)
  then show thesis
    using m' by (intro that [of m' "b # (b + 48 + z) # first_header (b + 48 + z + 48 + z') ys'"])
      (auto simp: y merge_next_def first_header_def)
qed

lemma merge_next_props:
  "extent (merge_next z ys) = 48 + z + extent ys"
  "z mod 16 = 0 \<Longrightarrow> 16 \<le> z \<Longrightarrow> sizes_ok ys \<Longrightarrow> sizes_ok (merge_next z ys)"
  "coalesced ys \<Longrightarrow> coalesced (merge_next z ys)"
  "used_payloads a (merge_next z ys) = used_payloads (a + 48 + z) ys"
  "merge_next z ys \<noteq> []" "snd (hd (merge_next z ys))"
  using next_mod [of z "fst (hd ys)"]
  by (cases ys; auto simp: merge_next_def coalesced_Cons add.assoc)+

lemma headers_only_trans:
  "headers_only cs m m' \<Longrightarrow> headers_only ds m' m'' \<Longrightarrow> headers_only (cs @ ds) m m''"
  unfolding headers_only_def by (metis UnCI agree_trans set_append)

lemma merge_next_split: "merge_next z ys = (fst (hd (merge_next z ys)), True) # tl (merge_next z ys)"
  by (simp add: merge_next_def)

lemma free_here:
  assumes seg: "seg m p b ((z, False) # ys) 0" and b: "b mod 16 = 0" "0 < b" and z: "z mod 16 = 0"
    and e: "b + 48 + z + extent ys < 18446744073709551616" and ys: "coalesced ys"
  defines "bs \<equiv> merge_next z ys"
  obtains m' cs where "kmem_coalesce_forward (of_nat b) (set_free m (of_nat b) 1) = Some m'"
    "seg m' p b bs 0" "headers_only cs m m'"
    "\<forall>c \<in> set cs. b \<le> c \<and> (c = b + 48 + fst (hd bs) \<or> c + 48 \<le> b + 48 + fst (hd bs))"
proof -
  note sf = set_free_effect [OF seg e, of 1]
  from sf(1) have seg1: "seg (set_free m (of_nat b) 1) p b ((z, True) # ys) 0" by simp
  obtain m' cs where m': "kmem_coalesce_forward (of_nat b) (set_free m (of_nat b) 1) = Some m'"
    "seg m' p b bs 0" "headers_only cs (set_free m (of_nat b) 1) m'" "cs \<noteq> [] \<longrightarrow> ys \<noteq> [] \<and> snd (hd ys)"
    "\<forall>c \<in> set cs. b \<le> c \<and> (c = b + 48 + z + 48 + fst (hd ys) \<or> c + 48 \<le> b + 48 + z + 48 + fst (hd ys))"
    unfolding bs_def by (rule coalesce_once [OF seg1 b z e ys]) blast
  have "\<forall>c \<in> set ([b] @ cs). b \<le> c \<and> (c = b + 48 + fst (hd bs) \<or> c + 48 \<le> b + 48 + fst (hd bs))"
  proof (cases "cs = []")
    case True
    then show ?thesis by simp
  next
    case False
    then have "fst (hd bs) = z + 48 + fst (hd ys)" using m'(4) by (simp add: bs_def merge_next_def)
    then show ?thesis using m'(5) by (auto simp: add.assoc)
  qed
  then show thesis using that [OF m'(1,2) headers_only_trans [OF sf(2) m'(3)]] by blast
qed

lemma merge_next_rest: "\<exists>mid. (z, False) # ys = mid @ tl (merge_next z ys) \<and> mid \<noteq> []"
proof (cases "ys \<noteq> [] \<and> snd (hd ys)")
  case True
  then show ?thesis by (intro exI [of _ "[(z, False), hd ys]"]) (simp add: merge_next_def)
next
  case False
  then show ?thesis by (intro exI [of _ "[(z, False)]"]) (auto simp: merge_next_def)
qed

text \<open>The first half of a release: the block is marked free and takes in the one after it.\<close>

lemma free_forward:
  assumes wf: "kmem_wf s (xs @ (z, False) # ys)"
  defines "base \<equiv> unat (g_heap_base s)"
  defines "b \<equiv> base + extent xs" and "p \<equiv> last_block 0 base xs" and "bs \<equiv> merge_next z ys"
  obtains m1 cs where "kmem_coalesce_forward (of_nat b) (set_free (heap s) (of_nat b) 1) = Some m1"
    "seg m1 p b bs 0" "headers_only cs (heap s) m1"
    "\<forall>c \<in> set cs. b \<le> c \<and> (c = b + 48 + fst (hd bs) \<or> c + 48 \<le> b + 48 + fst (hd bs))"
    "kb_prev m1 (of_nat b) = of_nat p" "seg m1 0 base xs b"
proof -
  note wf' = kmem_wfD [OF wf, folded base_def]
  have e: "b + 48 + z + extent ys < 18446744073709551616" using wf'(6) by (simp add: b_def)
  have z: "z mod 16 = 0" and xs: "sizes_ok xs" and ys: "coalesced ys"
    using wf'(8,9) coalesced_append [of xs "(z, False)" ys] by (simp_all add: coalesced_Cons)
  have b: "b mod 16 = 0" "0 < b" using base_mod [OF wf'(3) xs] wf'(2) by (simp_all add: b_def)
  have seg: "seg (heap s) p b ((z, False) # ys) 0" "seg (heap s) 0 base xs b"
    using wf'(10) by (simp_all add: blocks_append [of _ _ _ xs] b_def p_def)
  obtain m1 cs where m1: "kmem_coalesce_forward (of_nat b) (set_free (heap s) (of_nat b) 1) = Some m1"
    "seg m1 p b bs 0" "headers_only cs (heap s) m1"
    "\<forall>c \<in> set cs. b \<le> c \<and> (c = b + 48 + fst (hd bs) \<or> c + 48 \<le> b + 48 + fst (hd bs))"
    unfolding bs_def by (rule free_here [OF seg(1) b z e ys]) blast
  have bs: "bs = (fst (hd bs), True) # tl bs" unfolding bs_def by (rule merge_next_split)
  have prev: "kb_prev m1 (of_nat b) = of_nat p" using m1(2) by (subst (asm) bs) (simp add: header_def)
  have "agree m1 (heap s) base (base + extent xs)"
    by (rule headers_only_agree [OF m1(3)]) (use m1(4) e in \<open>auto simp: b_def\<close>)
  from seg_agree [OF this] have "seg m1 0 base xs b" using seg(2) by simp
  with m1 prev show thesis by (rule that)
qed

lemma free_merged:
  assumes wf: "kmem_wf s (xs @ (z, False) # ys)"
  defines "base \<equiv> unat (g_heap_base s)"
  obtains m1 m' cs xs1 t rest where
    "kmem_coalesce_forward (of_nat (base + extent xs)) (set_free (heap s) (of_nat (base + extent xs)) 1) = Some m1"
    "(if kb_prev m1 (of_nat (base + extent xs)) \<noteq> 0 \<and> kb_free m1 (kb_prev m1 (of_nat (base + extent xs))) \<noteq> 0
      then kmem_coalesce_forward (kb_prev m1 (of_nat (base + extent xs))) m1 else Some m1) = Some m'"
    "release xs z ys = xs1 @ (t, True) # rest" "\<exists>mid. xs @ (z, False) # ys = xs1 @ mid @ rest \<and> mid \<noteq> []"
    "seg m' (last_block 0 base xs1) (base + extent xs1) ((t, True) # rest) 0" "headers_only cs (heap s) m'"
    "\<forall>c \<in> set cs. base + extent xs1 \<le> c \<and> (c = base + extent xs1 + 48 + t \<or> c + 48 \<le> base + extent xs1 + 48 + t)"
proof -
  note wf' = kmem_wfD [OF wf, folded base_def]
  define b where "b = base + extent xs"
  define bs where "bs = merge_next z ys"
  define p where "p = last_block 0 base xs"
  have e: "b + 48 + z + extent ys < 18446744073709551616" using wf'(6) by (simp add: b_def)
  have xs: "sizes_ok xs" and ys: "coalesced ys"
    using wf'(8,9) coalesced_append [of xs "(z, False)" ys] by (simp_all add: coalesced_Cons)
  obtain m1 cs where m1: "kmem_coalesce_forward (of_nat b) (set_free (heap s) (of_nat b) 1) = Some m1"
    "seg m1 p b bs 0" "headers_only cs (heap s) m1"
    "\<forall>c \<in> set cs. b \<le> c \<and> (c = b + 48 + fst (hd bs) \<or> c + 48 \<le> b + 48 + fst (hd bs))"
    and prev: "kb_prev m1 (of_nat b) = of_nat p" and segx: "seg m1 0 base xs b"
    unfolding b_def bs_def p_def base_def by (rule free_forward [OF wf]) blast
  have bs: "bs = (fst (hd bs), True) # tl bs" unfolding bs_def by (rule merge_next_split)
  obtain mid where mid: "(z, False) # ys = mid @ tl bs" "mid \<noteq> []" using merge_next_rest bs_def by blast
  then have mid': "xs @ (z, False) # ys = xs @ mid @ tl bs" by simp
  show thesis
  proof (cases xs rule: rev_cases)
    case Nil
    then have "p = 0" "release xs z ys = xs @ (fst (hd bs), True) # tl bs"
      using bs by (simp_all add: p_def release_def Let_def bs_def [symmetric])
    then show thesis
      using m1 bs prev mid(2) mid' by (intro that [of m1 m1 xs "fst (hd bs)" "tl bs" cs]) (simp_all add: b_def p_def)
  next
    case (snoc xs' x)
    obtain zp fp where x: "x = (zp, fp)" by fastforce
    have p: "p = base + extent xs'" "b = p + 48 + zp" by (simp_all add: p_def b_def snoc x last_block_def)
    have h: "header m1 (last_block 0 base xs') p zp fp b"
      using segx by (simp add: snoc x blocks_append [of _ _ _ xs'] p)
    have p0: "(of_nat p :: u64) \<noteq> 0" using e p wf'(2) by (simp add: of_nat_eq_0_iff64 del: of_nat_add)
    show thesis
    proof (cases fp)
      case False
      then have "release xs z ys = xs @ (fst (hd bs), True) # tl bs"
        using bs by (simp add: release_def Let_def bs_def [symmetric] snoc x)
      then show thesis
        using m1 bs prev h False mid(2) mid' by (intro that [of m1 m1 xs "fst (hd bs)" "tl bs" cs])
          (simp_all add: b_def p_def header_def)
    next
      case True
      have s1: "seg m1 (last_block 0 base xs') p ((zp, True) # bs) 0"
        using h m1(2) True p merge_next_props(5) [of z ys] by (simp add: bs_def)
      have s2: "extent bs = 48 + z + extent ys" "coalesced bs"
        using merge_next_props(1,3) ys by (simp_all add: bs_def)
      have s3: "p mod 16 = 0" "0 < p" "zp mod 16 = 0"
        using xs base_mod [OF wf'(3)] wf'(2) by (simp_all add: p snoc x)
      have s4: "p + 48 + zp + extent bs < 18446744073709551616" using e p s2(1) by simp
      obtain m2 ds where m2: "kmem_coalesce_forward (of_nat p) m1 = Some m2"
        "seg m2 (last_block 0 base xs') p (merge_next zp bs) 0" "headers_only ds m1 m2"
        "\<forall>c \<in> set ds. p \<le> c \<and> (c = p + 48 + zp + 48 + fst (hd bs) \<or> c + 48 \<le> p + 48 + zp + 48 + fst (hd bs))"
        by (rule coalesce_once [OF s1 s3 s4 s2(2)]) blast
      define t where "t = zp + 48 + fst (hd bs)"
      have t: "merge_next zp bs = (t, True) # tl bs" "release xs z ys = xs' @ (t, True) # tl bs"
        using bs merge_next_props(5,6) [of z ys] True
        by (simp_all add: t_def merge_next_def [of zp] release_def Let_def bs_def [symmetric] snoc x)
      have "\<forall>c \<in> set (cs @ ds). p \<le> c \<and> (c = p + 48 + t \<or> c + 48 \<le> p + 48 + t)"
        using m1(4) m2(4) p(2) by (auto simp: t_def add.assoc)
      moreover have "xs @ (z, False) # ys = xs' @ (x # mid) @ tl bs" using mid' by (simp add: snoc)
      ultimately show thesis
        using m1(1) m2 t headers_only_trans [OF m1(3) m2(3)] prev h True p0
        by (intro that [of m1 m2 xs' t "tl bs" "cs @ ds"]) (simp_all add: b_def [symmetric] p header_def)
    qed
  qed
qed

lemma release_props:
  assumes "coalesced (xs @ (z, False) # ys)" and "sizes_ok (xs @ (z, False) # ys)"
  shows "extent (release xs z ys) = extent (xs @ (z, False) # ys)" "sizes_ok (release xs z ys)"
    "coalesced (release xs z ys)"
    "used_payloads a (release xs z ys) = used_payloads a xs \<union> used_payloads (a + extent xs + 48 + z) ys"
proof -
  define bs where "bs = merge_next z ys"
  have ys: "coalesced ys" "sizes_ok ys" "z mod 16 = 0" "16 \<le> z" "sizes_ok xs" "coalesced xs"
    using assms coalesced_append [of xs "(z, False)" ys] by (simp_all add: coalesced_Cons coalesced_snoc)
  have bs: "bs = (fst (hd bs), True) # tl bs" unfolding bs_def by (rule merge_next_split)
  have mp': "extent bs = 48 + z + extent ys" "sizes_ok bs" "coalesced bs"
    "used_payloads c bs = used_payloads (c + 48 + z) ys" for c
    using ys by (simp_all add: bs_def merge_next_props)
  obtain t r where t: "bs = (t, True) # r" using bs by blast
  have "extent (release xs z ys) = extent (xs @ (z, False) # ys) \<and> sizes_ok (release xs z ys) \<and>
    coalesced (release xs z ys) \<and>
    used_payloads a (release xs z ys) = used_payloads a xs \<union> used_payloads (a + extent xs + 48 + z) ys"
  proof (cases xs rule: rev_cases)
    case Nil
    then show ?thesis using mp' ys by (simp add: release_def bs_def [symmetric] add.assoc)
  next
    case (snoc xs' x)
    obtain zp fp where x: "x = (zp, fp)" by fastforce
    have mod: "zp mod 16 = 0" "t mod 16 = 0" "16 \<le> t" using ys(5) mp'(2) by (simp_all add: snoc x t)
    show ?thesis
    proof (cases fp)
      case True
      then have r: "release xs z ys = xs' @ (zp + 48 + t, True) # r"
        by (simp add: release_def bs_def [symmetric] t snoc x)
      have c: "coalesced (xs' @ [(zp + 48 + t, True)])" "coalesced ((zp + 48 + t, True) # r)"
        using ys(6) mp'(3) True by (auto simp: snoc x t coalesced_snoc coalesced_Cons)
      then have "coalesced (xs' @ (zp + 48 + t, True) # r)"
        using coalesced_append [of xs' "(zp + 48 + t, True)" r] by simp
      moreover have "used_payloads a (xs' @ (zp + 48 + t, True) # r) =
          used_payloads a xs \<union> used_payloads (a + extent xs + 48 + z) ys"
        using mp'(4) [of "a + extent xs' + 48 + zp"] True by (simp add: snoc x t ac_simps)
      moreover have "sizes_ok (xs' @ (zp + 48 + t, True) # r)"
        using ys(5) mp'(2) next_mod [OF mod(1,2)] mod by (simp add: snoc x t)
      ultimately show ?thesis using mp'(1) unfolding r by (simp add: snoc x t)
    next
      case False
      then have r: "release xs z ys = xs @ bs"
        by (simp add: release_def bs_def [symmetric] snoc x)
      have "coalesced (xs @ [(t, True)])" using ys(6) False by (simp only: coalesced_snoc) (simp add: snoc x)
      then have "coalesced (xs @ bs)" using mp'(3) coalesced_append [of xs "(t, True)" "r"] by (simp add: t)
      moreover have "used_payloads a (xs @ bs) = used_payloads a xs \<union> used_payloads (a + extent xs + 48 + z) ys"
        using mp'(4) [of "a + extent xs"] by simp
      ultimately show ?thesis using mp'(1,2) ys unfolding r by simp
    qed
  qed
  then show "extent (release xs z ys) = extent (xs @ (z, False) # ys)" "sizes_ok (release xs z ys)"
    "coalesced (release xs z ys)"
    "used_payloads a (release xs z ys) = used_payloads a xs \<union> used_payloads (a + extent xs + 48 + z) ys"
    by blast+
qed

lemma release_alloc:
  assumes "coalesced (xs @ (z, True) # ys)"
  shows "alloc_split w z @ ys = (fst (hd (alloc_split w z)), False) # tl (alloc_split w z) @ ys \<and>
    release xs (fst (hd (alloc_split w z))) (tl (alloc_split w z) @ ys) = xs @ (z, True) # ys"
  using assms coalesced_append [of xs "(z, True)" ys]
  by (auto simp: alloc_split_def release_def merge_next_def coalesced_Cons coalesced_snoc)

lemma kmem_free_spec:
  assumes wf: "kmem_wf s (xs @ (z, False) # ys)"
  defines "base \<equiv> unat (g_heap_base s)"
  shows "\<exists>m'. kmem_free_checked s (of_nat (base + extent xs + 48)) =
      Some (if length (release xs z ys) \<le> 1048576 then 0 else -3, s\<lparr>heap := m'\<rparr>) \<and>
    kmem_wf (s\<lparr>heap := m'\<rparr>) (release xs z ys) \<and> keeps_payloads (heap s) m' base (release xs z ys)"
proof -
  note wf' = kmem_wfD [OF wf, folded base_def]
  define b where "b = base + extent xs"
  obtain m1 m' cs xs1 t rest where
    f: "kmem_coalesce_forward (of_nat b) (set_free (heap s) (of_nat b) 1) = Some m1"
    "(if kb_prev m1 (of_nat b) \<noteq> 0 \<and> kb_free m1 (kb_prev m1 (of_nat b)) \<noteq> 0
      then kmem_coalesce_forward (kb_prev m1 (of_nat b)) m1 else Some m1) = Some m'"
    "release xs z ys = xs1 @ (t, True) # rest" "\<exists>mid. xs @ (z, False) # ys = xs1 @ mid @ rest \<and> mid \<noteq> []"
    "seg m' (last_block 0 base xs1) (base + extent xs1) ((t, True) # rest) 0" "headers_only cs (heap s) m'"
    "\<forall>c \<in> set cs. base + extent xs1 \<le> c \<and> (c = base + extent xs1 + 48 + t \<or> c + 48 \<le> base + extent xs1 + 48 + t)"
    unfolding base_def b_def by (rule free_merged [OF wf]) blast
  have e: "b + 48 + z + extent ys = unat (g_heap_end s)" "b + 48 + z + extent ys < 18446744073709551616"
    using wf'(5,6) by (simp_all add: b_def)
  have zs: "16 \<le> z" and xs: "sizes_ok xs" using wf'(8) by simp_all
  have bm: "b mod 16 = 0" "base \<le> b" using base_mod [OF wf'(3) xs] by (simp_all add: b_def)
  note rp = release_props(1-3) [OF wf'(9,8)]
  have ext: "base + extent (xs1 @ [(t, True)] @ rest) < 2 ^ 64" using wf'(6) rp(1) by (simp add: f(3))
  have around: "keeps_payloads (heap s) m' base (xs1 @ [(t, True)] @ rest)" "agree m' (heap s) 0 (base + extent xs1)"
    by (rule keeps_around [OF f(6) ext]; use f(7) in \<open>auto simp: add.assoc\<close>)+
  then have keep: "keeps_payloads (heap s) m' base (release xs z ys)" by (simp add: f(3))
  obtain mid where mid: "xs @ (z, False) # ys = xs1 @ mid @ rest" "mid \<noteq> []" using f(4) by blast
  have "kmem_wf (s\<lparr>heap := m'\<rparr>) (xs1 @ [(t, True)] @ rest)"
  proof (rule kmem_wf_replace [of s xs1 mid rest])
    show "kmem_wf s (xs1 @ mid @ rest)" using wf by (simp only: mid(1))
    show "extent [(t, True)] = extent mid" using rp(1) unfolding f(3) mid(1) by simp
    show "sizes_ok [(t, True)]" "coalesced (xs1 @ [(t, True)] @ rest)" using rp(2,3) by (simp_all add: f(3))
  qed (use f(5) around(2) mid(2) in \<open>simp_all add: base_def\<close>)
  then have wf_new: "kmem_wf (s\<lparr>heap := m'\<rparr>) (release xs z ys)" by (simp add: f(3))
  have h: "header (heap s) (last_block 0 base xs) b z False (if ys = [] then 0 else b + 48 + z)"
    using wf'(10) by (auto simp: blocks_append [of _ _ _ xs] b_def split: if_splits)
  have ptr: "(of_nat (b + 48) :: u64) \<noteq> 0" "kmem_ptr_in_heap s (of_nat (b + 48))" "kmem_ptr_in_heap s (of_nat b)"
    using e zs bm wf'(2) by (simp_all add: of_nat_eq_0_iff64 kmem_ptr_in_heap_def word_le_nat_alt
        word_less_nat_alt unat_nat base_def del: of_nat_add)
  have "(b + 48) mod 16 = 0" using next_mod [OF bm(1), of 0] by simp
  then have al: "(of_nat (b + 48) :: u64) AND (KMEM_ALIGN - 1) = 0"
    using e by (simp add: KMEM_ALIGN_def mask_simps unat_nat flip: unat_eq_zero del: of_nat_add unat_eq_zero)
  have hd: "kmem_header_from_payload (of_nat (b + 48)) = of_nat b"
    by (simp add: kmem_header_from_payload_def sizeof_kmem_block_def)
  have "kmem_free_checked s (of_nat (b + 48)) = Some (kmem_validate (s\<lparr>heap := m'\<rparr>), s\<lparr>heap := m'\<rparr>)"
    using ptr al f(1,2) h unfolding kmem_free_checked_def Let_def hd
    by (simp add: header_def del: of_nat_add)
  then show ?thesis using wf_new keep kmem_wf_validate [OF wf_new] by (auto simp: b_def)
qed

subsection \<open>Writes into payloads\<close>

lemma memset_eq: "kmem_memset m dst v n x = (if unat (x - dst) < unat n then v else m x)"
proof -
  have "fold (\<lambda>k m. m(dst + of_nat k := v)) [0..<k] m x = (if unat (x - dst) < k then v else m x)"
    if "k \<le> unat n" for k
    using that
  proof (induction k)
    case (Suc k)
    have "k < 18446744073709551616" using Suc.prems unat_u64_bound [of n] by simp
    then have "x = dst + of_nat k \<longleftrightarrow> unat (x - dst) = k" by (metis add_diff_cancel_left' diff_add_cancel of_nat_unat_u64 unat_nat add.commute)
    then show ?case using Suc by (auto simp: less_Suc_eq)
  qed simp
  then show ?thesis by (simp add: kmem_memset_def for_loop_count)
qed

definition payload_write :: "bytes \<Rightarrow> bytes \<Rightarrow> nat \<Rightarrow> nat \<Rightarrow> bool" where
  "payload_write m m' q z \<longleftrightarrow>
     (\<forall>x < 18446744073709551616. x < q \<or> q + z \<le> x \<longrightarrow> m' (of_nat x) = m (of_nat x))"

lemma payload_write_agree:
  "payload_write m m' q z \<Longrightarrow> y \<le> 18446744073709551616 \<Longrightarrow> y \<le> q \<or> q + z \<le> x \<Longrightarrow> agree m' m x y"
  by (auto simp: payload_write_def agree_def)

lemma payload_write_headers:
  assumes "(q, z) \<in> used_payloads a bs" and "payload_write m m' q z" and "a + extent bs < 18446744073709551616"
  shows "agree_headers m' m a bs"
  using assms
proof (induction bs arbitrary: a)
  case (Cons b bs)
  obtain y f where b: "b = (y, f)" by fastforce
  consider "(q, z) = (a + 48, y)" | "(q, z) \<in> used_payloads (a + 48 + y) bs"
    using Cons.prems(1) by (auto simp: b split: if_splits)
  then show ?case
  proof cases
    case 1
    have "agree m' m a (a + 48)" "agree m' m (a + 48 + y) (a + 48 + y + extent bs)"
      by (rule payload_write_agree [OF Cons.prems(2)]; use 1 Cons.prems(3) in \<open>simp add: b\<close>)+
    then show ?thesis using agree_headers_range by (simp add: b)
  next
    case 2
    then have "a + 48 + y + 48 \<le> q" using used_payloads_range by blast
    then have "agree m' m a (a + 48)"
      by (intro payload_write_agree [OF Cons.prems(2)]) (use Cons.prems(3) in \<open>simp_all add: b\<close>)
    then show ?thesis using Cons.IH [OF 2 Cons.prems(2)] Cons.prems(3) by (simp add: b)
  qed
qed simp

lemma payload_write_wf:
  assumes wf: "kmem_wf s bs" and "(q, z) \<in> used_payloads (unat (g_heap_base s)) bs" and "payload_write (heap s) m' q z"
  shows "kmem_wf (s\<lparr>heap := m'\<rparr>) bs"
  using blocks_cong [OF payload_write_headers [OF assms(2,3)]] kmem_wfD(6) [OF wf] wf
  by (simp add: kmem_wf_def)

lemma used_payloads_disjoint:
  assumes "(q, z) \<in> used_payloads a bs" and "(q', z') \<in> used_payloads a bs"
  shows "(q, z) = (q', z') \<or> q + z \<le> q' \<or> q' + z' \<le> q"
  using assms
proof (induction bs arbitrary: a)
  case (Cons b bs)
  obtain y f where b: "b = (y, f)" by fastforce
  have "a + 48 + y + 48 \<le> p" if "(p, x) \<in> used_payloads (a + 48 + y) bs" for p x
    using used_payloads_range [OF that] by simp
  then show ?case using Cons by (fastforce simp: b split: if_splits)
qed simp

lemma used_payloads_size: "sizes_ok bs \<Longrightarrow> (q, z) \<in> used_payloads a bs \<Longrightarrow> 16 \<le> z"
  by (induction bs arbitrary: a) (auto split: if_splits)

lemma used_payloads_aligned:
  "sizes_ok bs \<Longrightarrow> a mod 16 = 0 \<Longrightarrow> (q, z) \<in> used_payloads a bs \<Longrightarrow> q mod 16 = 0"
proof (induction bs arbitrary: a)
  case (Cons b bs)
  obtain y f where b: "b = (y, f)" by fastforce
  have n: "(a + 48 + y) mod 16 = 0" "(a + 48) mod 16 = 0"
    using Cons.prems next_mod [of a y] next_mod [of a 0] by (simp_all add: b)
  consider "(q, z) = (a + 48, y)" | "(q, z) \<in> used_payloads (a + 48 + y) bs"
    using Cons.prems(3) by (auto simp: b split: if_splits)
  then show ?case
  proof cases
    case 1
    then show ?thesis using n(2) by simp
  next
    case 2
    then show ?thesis using Cons.IH [OF _ n(1)] Cons.prems(1) by (simp add: b)
  qed
qed simp

lemma used_payloads_split:
  assumes "(q, z) \<in> used_payloads a bs"
  shows "\<exists>xs ys. bs = xs @ (z, False) # ys \<and> q = a + extent xs + 48"
  using assms
proof (induction bs arbitrary: a)
  case (Cons b bs)
  obtain y f where b: "b = (y, f)" by fastforce
  consider "(q, z) = (a + 48, y)" "\<not> f" | "(q, z) \<in> used_payloads (a + 48 + y) bs"
    using Cons.prems by (auto simp: b split: if_splits)
  then show ?case
  proof cases
    case 1
    then show ?thesis by (intro exI [of _ "[]"] exI [of _ bs]) (simp add: b)
  next
    case 2
    then obtain xs ys where "bs = xs @ (z, False) # ys" "q = a + 48 + y + extent xs + 48"
      using Cons.IH by blast
    then show ?thesis by (intro exI [of _ "b # xs"] exI [of _ ys]) (simp add: b)
  qed
qed simp

lemma memset_payload:
  assumes "unat n \<le> z" and "q + z < 18446744073709551616" and "0 < unat n"
  shows "payload_write m (kmem_memset m (of_nat q) v n) q z"
  unfolding payload_write_def memset_eq
proof (intro allI impI)
  fix x :: nat assume x: "x < 18446744073709551616" "x < q \<or> q + z \<le> x"
  have "z \<le> unat ((of_nat x :: u64) - of_nat q)"
    by (rule outside_offset) (use x assms in auto)
  then show "(if unat ((of_nat x :: u64) - of_nat q) < unat n then v else m (of_nat x)) = m (of_nat x)"
    using assms by simp
qed

subsection \<open>What callers hold\<close>

lemma used_payloads_no_start:
  "(a + extent xs + 48, y) \<notin> used_payloads a xs" "16 \<le> z \<Longrightarrow> (a + extent xs + 48, y) \<notin> used_payloads (a + extent xs + 48 + z) ys"
  using used_payloads_range [of "a + extent xs + 48" y a xs]
    used_payloads_range [of "a + extent xs + 48" y "a + extent xs + 48 + z" ys] by auto

lemma kmem_alloc_effect:
  assumes wf: "kmem_wf s bs"
  defines "base \<equiv> unat (g_heap_base s)"
  obtains "kmem_alloc s n = Some (0, s)"
  | p m' bs' z where "kmem_alloc s n = Some (p, s\<lparr>heap := m'\<rparr>)" "p \<noteq> 0" "n \<noteq> 0" "kmem_wf (s\<lparr>heap := m'\<rparr>) bs'"
      "used_payloads base bs' = insert (unat p, z) (used_payloads base bs)" "unat n \<le> z"
      "\<forall>y. (unat p, y) \<notin> used_payloads base bs" "keeps_payloads (heap s) m' base bs"
proof (cases "n = 0 \<or> 18446744073709551600 < unat n \<or> (\<forall>x \<in> set bs. \<not> fits ((unat n + 15) div 16 * 16) x)")
  case True
  then show thesis using that(1) kmem_alloc_none [OF wf] by blast
next
  case False
  let ?w = "(unat n + 15) div 16 * 16"
  have ex: "\<exists>x \<in> set bs. fits ?w x" and n: "n \<noteq> 0" "unat n \<le> 18446744073709551600" using False by auto
  obtain xs x ys where x: "bs = xs @ x # ys" "fits ?w x" "\<forall>y \<in> set xs. \<not> fits ?w y"
    using ex by (rule split_list_first_propE)
  then obtain z where z: "bs = xs @ (z, True) # ys" "?w \<le> z" by (cases x) (auto simp: fits_def)
  note wf' = kmem_wfD [OF wf, folded base_def]
  have lt: "base + extent xs + 48 + z + extent ys < 18446744073709551616" using wf'(6) by (simp add: z(1))
  have z16: "16 \<le> z" using wf'(8) by (simp add: z(1))
  let ?p = "of_nat (base + extent xs + 48) :: u64"
  obtain m' where m': "kmem_alloc s n = Some (?p, s\<lparr>heap := m'\<rparr>)"
    "kmem_wf (s\<lparr>heap := m'\<rparr>) (xs @ alloc_split ?w z @ ys)" "keeps_payloads (heap s) m' base bs"
    using kmem_alloc_some [of s xs z ys n] wf n x(3) z unfolding base_def by auto
  have p: "unat ?p = base + extent xs + 48" "?p \<noteq> 0"
    using lt by (simp_all add: unat_nat of_nat_eq_0_iff64 del: of_nat_add)
  define t where "t = (if ?w + 80 < z then ?w else z)"
  have "base + extent xs + 48 + ?w + 48 + (z - ?w - 48) = base + extent xs + 48 + z" if "?w + 80 < z"
    using that by simp
  then have "used_payloads base (xs @ alloc_split ?w z @ ys) = insert (unat ?p, t) (used_payloads base bs)"
    unfolding alloc_split_def t_def z(1) p(1) by (auto simp: add.assoc)
  moreover have "unat n \<le> ?w"
    using div_mult_mod_eq [of "unat n + 15" 16] mod_less_divisor [of 16 "unat n + 15"] by linarith
  then have "unat n \<le> t" using z(2) by (simp add: t_def)
  moreover have "\<forall>y. (unat ?p, y) \<notin> used_payloads base bs"
    unfolding p(1) z(1) using used_payloads_no_start z16 by simp
  ultimately show thesis using that(2) m' p(2) n(1) by blast
qed

lemma kmem_free_effect:
  assumes wf: "kmem_wf s bs" and q: "(unat p, z) \<in> used_payloads (unat (g_heap_base s)) bs"
  defines "base \<equiv> unat (g_heap_base s)"
  obtains m' bs' where
    "kmem_free_checked s p = Some (if length bs' \<le> 1048576 then 0 else -3, s\<lparr>heap := m'\<rparr>)"
    "kmem_wf (s\<lparr>heap := m'\<rparr>) bs'" "used_payloads base bs = insert (unat p, z) (used_payloads base bs')"
    "\<forall>y. (unat p, y) \<notin> used_payloads base bs'" "keeps_payloads (heap s) m' base bs'"
proof -
  obtain xs ys where bs: "bs = xs @ (z, False) # ys" and p: "unat p = base + extent xs + 48"
    using used_payloads_split [OF q] by (auto simp: base_def)
  note wf' = kmem_wfD [OF wf, folded base_def]
  have z16: "16 \<le> z" using wf'(8) by (simp add: bs)
  have pw: "p = of_nat (base + extent xs + 48)" by (rule of_nat_unat_u64 [OF p])
  obtain m' where m': "kmem_free_checked s p =
      Some (if length (release xs z ys) \<le> 1048576 then 0 else -3, s\<lparr>heap := m'\<rparr>)"
    "kmem_wf (s\<lparr>heap := m'\<rparr>) (release xs z ys)" "keeps_payloads (heap s) m' base (release xs z ys)"
    using kmem_free_spec [OF wf [unfolded bs]] unfolding pw base_def by blast
  have u: "used_payloads base (release xs z ys) = used_payloads base xs \<union> used_payloads (base + extent xs + 48 + z) ys"
    by (rule release_props(4)) (use wf'(8,9) in \<open>simp_all add: bs\<close>)
  show thesis
  proof (rule that [OF m'(1,2) _ _ m'(3)])
    show "used_payloads base bs = insert (unat p, z) (used_payloads base (release xs z ys))"
      unfolding u p by (simp add: bs)
    show "\<forall>y. (unat p, y) \<notin> used_payloads base (release xs z ys)"
      unfolding u p using used_payloads_no_start z16 by simp
  qed
qed

lemma product_fits:
  fixes count n :: u64
  assumes "\<not> (count \<noteq> 0 \<and> n > - 1 div count)"
  shows "unat count * unat n < 18446744073709551616"
proof (cases "count = 0")
  case False
  then have "unat n \<le> 18446744073709551615 div unat count"
    using assms by (simp add: word_le_nat_alt not_less unat_div unsigned_minus_1_eq_mask mask_eq_exp_minus_1)
  moreover have "0 < unat count" using False by (simp add: unat_gt_0)
  ultimately have "unat n * unat count \<le> 18446744073709551615"
    by (simp add: less_eq_div_iff_mult_less_eq)
  then show ?thesis by (simp add: mult.commute)
qed simp

text \<open>A write inside a payload that was not in use before keeps the payloads that were.\<close>

lemma payload_write_keeps:
  assumes wf: "kmem_wf s bs" and base: "base = unat (g_heap_base s)"
    and used: "used_payloads base bs' = insert (a, z) (used_payloads base bs)" "\<forall>y. (a, y) \<notin> used_payloads base bs"
    and keep: "keeps_payloads (heap s) m base bs" and pw: "payload_write m m' a z"
  shows "keeps_payloads (heap s) m' base bs"
  unfolding keeps_payloads_def
proof clarify
  fix q y assume q: "(q, y) \<in> used_payloads base bs"
  then have "q + y \<le> a \<or> a + z \<le> q"
    using used_payloads_disjoint [of q y base bs' a z] used by auto
  moreover have "q + y < 18446744073709551616"
    using used_payloads_range [OF q] kmem_wfD(6) [OF wf] by (simp add: base)
  ultimately have "agree m' m q (q + y)" by (intro payload_write_agree [OF pw]) auto
  moreover have "agree m (heap s) q (q + y)" using keep q by (auto simp: keeps_payloads_def)
  ultimately show "agree m' (heap s) q (q + y)" by (rule agree_trans)
qed

lemma memset_zeroes:
  assumes "i < unat n"
  shows "kmem_memset m p 0 n (of_nat (unat p + i)) = 0"
proof -
  have "i < 18446744073709551616" using assms unat_u64_bound [of n] by linarith
  then have "unat ((of_nat (unat p + i) :: u64) - p) = i" by (simp add: unat_nat)
  then show ?thesis using assms by (simp add: memset_eq del: of_nat_add)
qed

lemma kmem_calloc_effect:
  assumes wf: "kmem_wf s bs"
  defines "base \<equiv> unat (g_heap_base s)"
  obtains "kmem_calloc s count n = Some (0, s)"
  | p m' bs' z where "kmem_calloc s count n = Some (p, s\<lparr>heap := m'\<rparr>)" "p \<noteq> 0"
      "kmem_wf (s\<lparr>heap := m'\<rparr>) bs'" "unat count * unat n < 18446744073709551616"
      "used_payloads base bs' = insert (unat p, z) (used_payloads base bs)" "unat count * unat n \<le> z"
      "\<forall>y. (unat p, y) \<notin> used_payloads base bs" "keeps_payloads (heap s) m' base bs"
      "\<forall>i < unat count * unat n. m' (of_nat (unat p + i)) = 0"
proof (cases "count \<noteq> 0 \<and> n > - 1 div count")
  case True
  then show thesis using that(1) by (simp add: kmem_calloc_def)
next
  case False
  then have no: "unat count * unat n < 18446744073709551616" by (rule product_fits)
  then have tot: "unat (count * n) = unat count * unat n" by (simp add: unat_word_ariths)
  have def: "kmem_calloc s count n = (case kmem_alloc s (count * n) of None \<Rightarrow> None | Some (p, s) \<Rightarrow>
      Some (p, if p \<noteq> 0 then s\<lparr>heap := kmem_memset (heap s) p 0 (count * n)\<rparr> else s))"
    using False by (auto simp: kmem_calloc_def split: option.splits)
  show thesis
  proof (rule kmem_alloc_effect [OF wf, of "count * n"])
    assume "kmem_alloc s (count * n) = Some (0, s)"
    then show thesis using that(1) def by simp
  next
    fix p m' bs' z
    assume a: "kmem_alloc s (count * n) = Some (p, s\<lparr>heap := m'\<rparr>)" "p \<noteq> 0" "count * n \<noteq> 0"
      "kmem_wf (s\<lparr>heap := m'\<rparr>) bs'"
      "used_payloads (unat (g_heap_base s)) bs' = insert (unat p, z) (used_payloads (unat (g_heap_base s)) bs)"
      "unat (count * n) \<le> z" "\<forall>y. (unat p, y) \<notin> used_payloads (unat (g_heap_base s)) bs"
      "keeps_payloads (heap s) m' (unat (g_heap_base s)) bs"
    let ?m = "kmem_memset m' p 0 (count * n)"
    have mem: "(unat p, z) \<in> used_payloads (unat (g_heap_base s)) bs'" using a(5) by simp
    have lt: "unat p + z < 18446744073709551616"
      using used_payloads_range [OF mem] kmem_wfD(6) [OF a(4)] by simp
    have "payload_write m' (kmem_memset m' (of_nat (unat p)) 0 (count * n)) (unat p) z"
      by (rule memset_payload) (use a(3,6) lt in \<open>simp_all add: unat_gt_0\<close>)
    then have pw: "payload_write m' ?m (unat p) z" by simp
    have wf'': "kmem_wf (s\<lparr>heap := ?m\<rparr>) bs'" using payload_write_wf [OF a(4), of "unat p" z ?m] mem pw by simp
    have keep: "keeps_payloads (heap s) ?m base bs"
      by (rule payload_write_keeps [OF wf base_def [THEN meta_eq_to_obj_eq] _ _ _ pw]) (use a(5,7,8) in \<open>simp_all add: base_def\<close>)
    have zero: "\<forall>i < unat count * unat n. ?m (of_nat (unat p + i)) = 0"
      using memset_zeroes [of _ "count * n" m' p] tot by simp
    show thesis
      by (rule that(2) [of p ?m bs' z]) (use a wf'' keep zero def no tot in \<open>simp_all add: base_def\<close>)
  qed
qed

subsection \<open>Initialisation\<close>

lemma align_up_ptr_facts:
  assumes "base \<le> kmem_align_up_ptr base KMEM_ALIGN"
  shows "unat (kmem_align_up_ptr base KMEM_ALIGN) mod 16 = 0"
  by (simp add: kmem_align_up_ptr_def KMEM_ALIGN_def mask_simps minus_mod_eq_mult_div)

text \<open>The heap that \<open>kmem_init\<close> cuts out of a range stays inside the range.\<close>

lemma init_inside:
  fixes base bytes :: u64
  defines "start \<equiv> kmem_align_up_ptr base KMEM_ALIGN"
  defines "lost \<equiv> start - base" and "usable \<equiv> (bytes - (start - base)) AND NOT (KMEM_ALIGN - 1)"
  assumes le: "unat base \<le> unat start"
    and room: "\<not> bytes \<le> lost + sizeof_kmem_block + KMEM_MIN_SPLIT"
  shows "unat start + unat usable \<le> unat base + unat bytes"
proof -
  have up: "start \<le> base + 15"
    unfolding start_def kmem_align_up_ptr_def KMEM_ALIGN_def by (simp add: word_and_le2)
  then have "unat base + 15 < 18446744073709551616"
    using le unat_u64_bound [of base] unat_plus_if' [of base 15]
    by (auto simp: word_le_nat_alt split: if_splits)
  then have lost: "unat lost = unat start - unat base" "unat start \<le> unat base + 15"
    using up le by (simp_all add: lost_def unat_sub_if' word_le_nat_alt unat_word_ariths)
  then have "unat lost + 80 < unat bytes"
    using room le by (simp add: sizeof_kmem_block_def KMEM_MIN_SPLIT_def word_le_nat_alt unat_word_ariths)
  moreover have "usable \<le> bytes - lost" unfolding usable_def lost_def by (rule word_and_le2)
  ultimately show ?thesis using lost le by (auto simp: word_le_nat_alt unat_sub_if' split: if_splits)
qed

lemma kmem_init_wf:
  assumes ret: "kmem_init s base bytes = (0, s')" and part: "(g_heap_base s', g_heap_end s') \<noteq> (16, -16)"
  shows "\<exists>z. kmem_wf s' [(z, True)] \<and> base \<le> g_heap_base s' \<and>
    unat (g_heap_end s') \<le> unat base + unat bytes"
proof -
  define start where "start = kmem_align_up_ptr base KMEM_ALIGN"
  define lost where "lost = start - base"
  define usable where "usable = (bytes - lost) AND NOT (KMEM_ALIGN - 1)"
  define m where "m = set_next (set_prev (set_pad (set_free (set_size (set_magic (heap s) start KMEM_MAGIC)
      start (usable - sizeof_kmem_block)) start 1) start 0) start 0) start 0"
  have c: "start \<noteq> 0" "\<not> start < base" "\<not> bytes \<le> lost + sizeof_kmem_block + KMEM_MIN_SPLIT"
    "\<not> usable \<le> sizeof_kmem_block + KMEM_MIN_SPLIT"
    and s': "s' = \<lparr>heap = m, g_heap_base = start, g_heap_end = start + usable, g_head = start, g_initialized = True\<rparr>"
    and v: "kmem_validate s' = 0"
    using ret unfolding kmem_init_def start_def [symmetric] lost_def [symmetric] usable_def [symmetric] Let_def m_def
    by (auto split: if_splits)
  define b where "b = unat start"
  define z where "z = unat usable - 48"
  have st: "start = of_nat b" "b mod 16 = 0" "unat base \<le> b"
    using c(2) align_up_ptr_facts [of base] by (simp_all add: b_def start_def word_less_nat_alt word_le_nat_alt)
  have us: "unat usable mod 16 = 0" "80 < unat usable"
    using c(4) by (simp_all add: usable_def KMEM_ALIGN_def mask_simps minus_mod_eq_mult_div
        sizeof_kmem_block_def KMEM_MIN_SPLIT_def word_le_nat_alt)
  have sum: "unat (start + usable) = b + unat usable"
  proof -
    have "unat (start + usable) > b"
      using v by (auto simp: s' kmem_validate_def word_le_nat_alt b_def split: if_splits)
    then show ?thesis
      using unat_plus_if' [of start usable] unat_u64_bound [of usable] by (auto simp: b_def split: if_splits)
  qed
  have z: "16 \<le> z" "z mod 16 = 0" "unat usable = 48 + z" "usable - sizeof_kmem_block = of_nat z"
  proof -
    obtain k where k: "unat usable = 16 * k" using us(1) by (metis dvdE mod_eq_0_iff_dvd)
    then have "z = 16 * (k - 3)" by (simp add: z_def)
    then show "16 \<le> z" "z mod 16 = 0" "unat usable = 48 + z" using us(2) by (simp_all add: z_def)
    show "usable - sizeof_kmem_block = of_nat z"
      by (rule of_nat_unat_u64) (use us(2) in \<open>simp add: z_def sizeof_kmem_block_def unat_sub_if'\<close>)
  qed
  have wide: "0 < b" "unat usable + 32 < 2 ^ 64"
  proof -
    show "0 < b" using c(1) by (simp add: b_def unat_gt_0)
    obtain i j where ij: "b = 16 * i" "unat usable = 16 * j" using st(2) us(1) by (metis dvdE mod_eq_0_iff_dvd)
    have "b + unat usable < 2 ^ 64" using sum unat_u64_bound [of "start + usable"] by simp
    moreover have "\<not> (b = 16 \<and> b + unat usable = 2 ^ 64 - 16)"
    proof
      assume "b = 16 \<and> b + unat usable = 2 ^ 64 - 16"
      then have "start = 16" "start + usable = -16" using sum by (simp_all add: word_unat_eq_iff b_def)
      then show False using part by (simp add: s')
    qed
    ultimately show "unat usable + 32 < 2 ^ 64" using \<open>0 < b\<close> unfolding ij by (cases "i = 1") simp_all
  qed
  have space: "block_space b" using sum us unat_u64_bound [of "start + usable"] by (simp add: block_space_def)
  have "seg m 0 b [(z, True)] 0"
    unfolding m_def z(4) unfolding st(1) seg.simps header_def by (simp add: field_same [OF space])
  then have "kmem_wf s' [(z, True)]"
    using st(2) wide z(1,2,3) sum unfolding kmem_wf_def s' b_def by simp
  moreover have "b + unat usable \<le> unat base + unat bytes"
    using init_inside [of base bytes] st(3) c(3) by (simp add: b_def start_def lost_def usable_def)
  ultimately show ?thesis using c(2) sum by (auto simp: s')
qed

subsection \<open>Statistics\<close>

definition free_sizes :: "block list \<Rightarrow> nat list" where "free_sizes bs = map fst (filter snd bs)"
definition used_sizes :: "block list \<Rightarrow> nat list" where "used_sizes bs = map fst (filter (Not \<circ> snd) bs)"

lemma sizes_simps [simp]:
  "free_sizes [] = []" "free_sizes ((z, f) # bs) = (if f then z # free_sizes bs else free_sizes bs)"
  "used_sizes [] = []" "used_sizes ((z, f) # bs) = (if f then used_sizes bs else z # used_sizes bs)"
  by (simp_all add: free_sizes_def used_sizes_def)

lemma extent_sizes: "extent bs = sum_list (used_sizes bs) + sum_list (free_sizes bs) + 48 * length bs"
  by (induction bs) auto

lemma stats_loop_seg:
  assumes "seg m p a bs 0" and "bs \<noteq> []" and "0 < a" and "a + extent bs < 18446744073709551616"
  shows "stats_loop m (of_nat a) out = Some (out\<lparr>
     used_bytes := used_bytes out + of_nat (sum_list (used_sizes bs)),
     free_bytes := free_bytes out + of_nat (sum_list (free_sizes bs)),
     block_count := block_count out + of_nat (length bs),
     free_count := free_count out + of_nat (length (free_sizes bs)),
     largest_free := of_nat (fold max (free_sizes bs) (unat (largest_free out)))\<rparr>)"
  using assms
proof (induction bs arbitrary: p a out)
  case (Cons b bs)
  obtain z f where b: "b = (z, f)" by fastforce
  have lt: "a + 48 + z + extent bs < 18446744073709551616" using Cons.prems(4) by (simp add: b)
  have h: "header m p a z f (if bs = [] then 0 else a + 48 + z)" "seg m a (a + 48 + z) bs 0"
    using Cons.prems(1) by (simp_all add: b)
  have a0: "(of_nat a :: u64) \<noteq> 0" using lt Cons.prems(3) by (simp add: of_nat_eq_0_iff64)
  have zu: "unat (of_nat z :: u64) = z" using lt by (simp add: unat_nat)
  define out1 where "out1 = (if f then out\<lparr>block_count := block_count out + 1, free_count := free_count out + 1,
      free_bytes := free_bytes out + of_nat z, largest_free := of_nat (max z (unat (largest_free out)))\<rparr>
    else out\<lparr>block_count := block_count out + 1, used_bytes := used_bytes out + of_nat z\<rparr>)"
  have big: "largest_free out < of_nat z \<longleftrightarrow> unat (largest_free out) < z"
    by (simp add: word_less_nat_alt zu)
  have step: "stats_loop m (of_nat a) out = stats_loop m (kb_next m (of_nat a)) out1"
    using a0 h(1) big
    by (subst stats_loop.simps) (auto simp: header_def out1_def Let_def max_def)
  have big1: "unat (largest_free out1) = (if f then max z (unat (largest_free out)) else unat (largest_free out))"
    using zu by (simp add: out1_def max_def)
  show ?case
  proof (cases "bs = []")
    case True
    then have "stats_loop m (of_nat a) out = Some out1"
      using step h(1) by (subst (asm) (2) stats_loop.simps) (simp add: header_def)
    then show ?thesis using True by (simp add: b out1_def)
  next
    case False
    then have nx: "kb_next m (of_nat a) = of_nat (a + 48 + z)" using h(1) by (auto simp: header_def)
    have pos: "0 < a + 48 + z" by simp
    show ?thesis
      unfolding step nx Cons.IH [OF h(2) False pos lt] big1
      by (simp add: b out1_def max.commute)
  qed
qed simp

subsection \<open>Callers of the heap\<close>

text \<open>
  A heap in use: the pointers the callers hold with the numbers of bytes they asked for. They
  allocate, write single bytes inside what they hold, and free what they hold. The one initialisation
  left out is that of the heap from address 16 to \<open>2 ^ 64 - 16\<close>, in which the sums of
  \<open>kmem_split_if_useful\<close> wrap around.
\<close>

definition holding :: "(u64 \<Rightarrow> nat option) \<Rightarrow> u64 \<Rightarrow> nat \<Rightarrow> (u64 \<Rightarrow> nat option)" where
  "holding L p n = (if p = 0 then L else L(p \<mapsto> n))"

inductive kmem_reachable :: "kmem_state \<Rightarrow> (u64 \<Rightarrow> nat option) \<Rightarrow> bool" where
  init: "kmem_init s0 base bytes = (0, s) \<Longrightarrow> (g_heap_base s, g_heap_end s) \<noteq> (16, -16) \<Longrightarrow>
    kmem_reachable s Map.empty"
| alloc: "kmem_reachable s L \<Longrightarrow> kmem_alloc s n = Some (p, s') \<Longrightarrow> kmem_reachable s' (holding L p (unat n))"
| calloc: "kmem_reachable s L \<Longrightarrow> kmem_calloc s c n = Some (p, s') \<Longrightarrow>
    kmem_reachable s' (holding L p (unat c * unat n))"
| wr: "kmem_reachable s L \<Longrightarrow> L p = Some n \<Longrightarrow> i < n \<Longrightarrow>
    kmem_reachable (s\<lparr>heap := (heap s)(p + of_nat i := v)\<rparr>) L"
| free: "kmem_reachable s L \<Longrightarrow> L p \<noteq> None \<Longrightarrow> kmem_free_checked s p = Some (rc, s') \<Longrightarrow>
    kmem_reachable s' (L(p := None))"

definition live_ok :: "(u64 \<Rightarrow> nat option) \<Rightarrow> nat \<Rightarrow> block list \<Rightarrow> bool" where
  "live_ok L a bs \<longleftrightarrow> (\<forall>p n. L p = Some n \<longrightarrow> (\<exists>z. (unat p, z) \<in> used_payloads a bs \<and> n \<le> z)) \<and>
     (\<forall>(q, z) \<in> used_payloads a bs. L (of_nat q) \<noteq> None)"

lemma holding_simps: "holding L 0 n = L" "p \<noteq> 0 \<Longrightarrow> holding L p n = L(p \<mapsto> n)"
  unfolding holding_def by simp_all

lemma live_ok_insert:
  assumes "live_ok L a bs" and "used_payloads a bs' = insert (unat p, z) (used_payloads a bs)" and "n \<le> z"
  shows "live_ok (L(p \<mapsto> n)) a bs'"
  using assms unfolding live_ok_def by (fastforce split: if_splits)

lemma live_ok_remove:
  assumes "live_ok L a bs" and "used_payloads a bs = insert (unat p, z) (used_payloads a bs')"
    and "\<forall>y. (unat p, y) \<notin> used_payloads a bs'" and "a + extent bs' < 18446744073709551616"
  shows "live_ok (L(p := None)) a bs'"
  unfolding live_ok_def
proof (intro conjI allI impI)
  fix q n assume q: "(L(p := None)) q = Some n"
  then have "q \<noteq> p" "L q = Some n" by (auto split: if_splits)
  then obtain y where "(unat q, y) \<in> used_payloads a bs" "n \<le> y" using assms(1) unfolding live_ok_def by blast
  moreover have "unat q \<noteq> unat p" using \<open>q \<noteq> p\<close> by (simp add: word_unat_eq_iff)
  ultimately show "\<exists>z. (unat q, z) \<in> used_payloads a bs' \<and> n \<le> z" using assms(2) by auto
next
  have "(L(p := None)) (of_nat q) \<noteq> None" if q: "(q, y) \<in> used_payloads a bs'" for q y
  proof -
    have "q < 18446744073709551616" using used_payloads_range [OF q] assms(4) by simp
    then have "p \<noteq> of_nat q" using q assms(3) by (auto simp: unat_nat)
    moreover have "L (of_nat q) \<noteq> None" using q assms(1,2) unfolding live_ok_def by auto
    ultimately show ?thesis by simp
  qed
  then show "\<forall>(q, z) \<in> used_payloads a bs'. (L(p := None)) (of_nat q) \<noteq> None" by blast
qed

text \<open>A caller that writes inside what it holds leaves the heap well formed.\<close>

lemma held_write_wf:
  assumes wf: "kmem_wf s bs" and L: "live_ok L (unat (g_heap_base s)) bs" and p: "L p = Some n" "i < n"
  shows "kmem_wf (s\<lparr>heap := (heap s)(p + of_nat i := v)\<rparr>) bs"
proof -
  obtain z where z: "(unat p, z) \<in> used_payloads (unat (g_heap_base s)) bs" "n \<le> z"
    using L p unfolding live_ok_def by blast
  have lt: "unat p + z < 18446744073709551616"
    using used_payloads_range [OF z(1)] kmem_wfD(6) [OF wf] by simp
  have "of_nat x \<noteq> p + of_nat i" if "x < 18446744073709551616" "x < unat p \<or> unat p + z \<le> x" for x
  proof
    assume "of_nat x = p + of_nat i"
    then have "(of_nat x :: u64) = of_nat (unat p + i)" by simp
    then have "x = unat p + i" using that(1) lt z(2) p(2) by (subst (asm) of_nat_eq_iff64) simp_all
    then show False using that(2) p(2) z(2) by simp
  qed
  then have "payload_write (heap s) ((heap s)(p + of_nat i := v)) (unat p) z"
    by (simp add: payload_write_def)
  then show ?thesis using payload_write_wf [OF wf z(1)] by auto
qed

lemma reachable_wf:
  assumes "kmem_reachable s L"
  shows "\<exists>bs. kmem_wf s bs \<and> live_ok L (unat (g_heap_base s)) bs"
  using assms
proof induction
  case (init s0 base bytes s)
  then obtain z where "kmem_wf s [(z, True)]" using kmem_init_wf by blast
  then show ?case by (intro exI [of _ "[(z, True)]"]) (simp add: live_ok_def)
next
  case (alloc s L n p s')
  then obtain bs where wf: "kmem_wf s bs" and L: "live_ok L (unat (g_heap_base s)) bs" by blast
  show ?case
  proof (rule kmem_alloc_effect [OF wf, of n])
    assume "kmem_alloc s n = Some (0, s)"
    then show ?thesis using alloc wf L by (auto simp: holding_simps)
  next
    fix q m' bs' z
    assume a: "kmem_alloc s n = Some (q, s\<lparr>heap := m'\<rparr>)" "q \<noteq> 0" "kmem_wf (s\<lparr>heap := m'\<rparr>) bs'"
      "used_payloads (unat (g_heap_base s)) bs' = insert (unat q, z) (used_payloads (unat (g_heap_base s)) bs)"
      "unat n \<le> z"
    have "live_ok (holding L q (unat n)) (unat (g_heap_base s)) bs'"
      unfolding holding_simps(2) [OF a(2)] by (rule live_ok_insert [OF L a(4,5)])
    then show ?thesis using alloc(2) a(1,3) by (intro exI [of _ bs']) auto
  qed
next
  case (calloc s L c n p s')
  then obtain bs where wf: "kmem_wf s bs" and L: "live_ok L (unat (g_heap_base s)) bs" by blast
  show ?case
  proof (rule kmem_calloc_effect [OF wf, of c n])
    assume "kmem_calloc s c n = Some (0, s)"
    then show ?thesis using calloc wf L by (auto simp: holding_simps)
  next
    fix q m' bs' z
    assume a: "kmem_calloc s c n = Some (q, s\<lparr>heap := m'\<rparr>)" "q \<noteq> 0" "kmem_wf (s\<lparr>heap := m'\<rparr>) bs'"
      "used_payloads (unat (g_heap_base s)) bs' = insert (unat q, z) (used_payloads (unat (g_heap_base s)) bs)"
      "unat c * unat n \<le> z"
    have "live_ok (holding L q (unat c * unat n)) (unat (g_heap_base s)) bs'"
      unfolding holding_simps(2) [OF a(2)] by (rule live_ok_insert [OF L a(4,5)])
    then show ?thesis using calloc(2) a(1,3) by (intro exI [of _ bs']) auto
  qed
next
  case (wr s L p n i v)
  then obtain bs where wf: "kmem_wf s bs" and L: "live_ok L (unat (g_heap_base s)) bs" by blast
  then show ?case using held_write_wf [OF wf L wr(2,3), of v] by auto
next
  case (free s L p rc s')
  then obtain bs where wf: "kmem_wf s bs" and L: "live_ok L (unat (g_heap_base s)) bs" by blast
  then obtain z where z: "(unat p, z) \<in> used_payloads (unat (g_heap_base s)) bs"
    using free(2) unfolding live_ok_def by blast
  show ?case
  proof (rule kmem_free_effect [OF wf z])
    fix m' bs'
    assume a: "kmem_free_checked s p = Some (if length bs' \<le> 1048576 then 0 else -3, s\<lparr>heap := m'\<rparr>)"
      "kmem_wf (s\<lparr>heap := m'\<rparr>) bs'"
      "used_payloads (unat (g_heap_base s)) bs = insert (unat p, z) (used_payloads (unat (g_heap_base s)) bs')"
      "\<forall>y. (unat p, y) \<notin> used_payloads (unat (g_heap_base s)) bs'"
    then show ?thesis
      using free(3) live_ok_remove [OF L a(3,4)] kmem_wfD(6) [OF a(2)]
      by (intro exI [of _ bs']) (auto simp: fun_upd_def)
  qed
qed

lemma kmem_alloc_fits:
  assumes wf: "kmem_wf s bs" and n: "n \<noteq> 0" "unat n \<le> 18446744073709551600"
    and ex: "\<exists>x \<in> set bs. fits ((unat n + 15) div 16 * 16) x"
  shows "\<exists>xs z ys m'. bs = xs @ (z, True) # ys \<and> (unat n + 15) div 16 * 16 \<le> z \<and>
    (\<forall>x \<in> set xs. \<not> fits ((unat n + 15) div 16 * 16) x) \<and>
    kmem_alloc s n = Some (of_nat (unat (g_heap_base s) + extent xs + 48), s\<lparr>heap := m'\<rparr>) \<and>
    kmem_wf (s\<lparr>heap := m'\<rparr>) (xs @ alloc_split ((unat n + 15) div 16 * 16) z @ ys) \<and>
    keeps_payloads (heap s) m' (unat (g_heap_base s)) bs"
proof -
  obtain xs x ys where x: "bs = xs @ x # ys" "fits ((unat n + 15) div 16 * 16) x"
    "\<forall>y \<in> set xs. \<not> fits ((unat n + 15) div 16 * 16) y"
    using ex by (rule split_list_first_propE)
  then obtain z where z: "bs = xs @ (z, True) # ys" "(unat n + 15) div 16 * 16 \<le> z"
    by (cases x) (auto simp: fits_def)
  from kmem_alloc_some [OF wf [unfolded z(1)] n x(3) z(2)] z x(3) show ?thesis by blast
qed

subsection \<open>Properties\<close>

text \<open>C9: On a well-formed heap kmem_alloc returns null and changes nothing exactly for
  size 0, for a size that cannot be rounded up to 16, and when no free block is large enough;
  otherwise it returns the payload of the first free block that fits, split when more than 80
  bytes remain, and changes no byte of a payload in use.\<close>

theorem kmem_alloc_first_fit:
  fixes n :: u64
  assumes wf: "kmem_wf s bs"
  defines "base \<equiv> unat (g_heap_base s)" and "w \<equiv> (unat n + 15) div 16 * 16"
  shows "if n = 0 \<or> 2 ^ 64 - 16 < unat n \<or> (\<forall>x \<in> set bs. \<not> fits w x) then kmem_alloc s n = Some (0, s)
    else \<exists>xs z ys s'. bs = xs @ (z, True) # ys \<and> w \<le> z \<and> (\<forall>x \<in> set xs. \<not> fits w x) \<and>
      kmem_alloc s n = Some (of_nat (base + extent xs + 48), s') \<and> kmem_wf s' (xs @ alloc_split w z @ ys) \<and>
      keeps_payloads (heap s) (heap s') base bs"
proof (cases "n = 0 \<or> 18446744073709551600 < unat n \<or> (\<forall>x \<in> set bs. \<not> fits w x)")
  case True
  then show ?thesis using kmem_alloc_none [OF wf, of n] by (simp add: w_def)
next
  case False
  then have ex: "\<exists>x \<in> set bs. fits w x" and n: "n \<noteq> 0" "unat n \<le> 18446744073709551600" by auto
  obtain xs z ys m' where m': "bs = xs @ (z, True) # ys" "w \<le> z" "\<forall>y \<in> set xs. \<not> fits w y"
    "kmem_alloc s n = Some (of_nat (base + extent xs + 48), s\<lparr>heap := m'\<rparr>)"
    "kmem_wf (s\<lparr>heap := m'\<rparr>) (xs @ alloc_split w z @ ys)" "keeps_payloads (heap s) m' base bs"
    unfolding base_def w_def using kmem_alloc_fits [OF wf n ex [unfolded w_def]] by blast
  have "\<not> (n = 0 \<or> 2 ^ 64 - 16 < unat n \<or> (\<forall>x \<in> set bs. \<not> fits w x))" using False by simp
  moreover have "\<exists>xs z ys s'. bs = xs @ (z, True) # ys \<and> w \<le> z \<and> (\<forall>x \<in> set xs. \<not> fits w x) \<and>
      kmem_alloc s n = Some (of_nat (base + extent xs + 48), s') \<and> kmem_wf s' (xs @ alloc_split w z @ ys) \<and>
      keeps_payloads (heap s) (heap s') base bs"
    by (rule exI [of _ xs], rule exI [of _ z], rule exI [of _ ys], rule exI [of _ "s\<lparr>heap := m'\<rparr>"])
       (use m' in simp)
  ultimately show ?thesis by (simp only: if_False)
qed

lemma payload_pointer:
  assumes wf: "kmem_wf s (xs @ (z, f) # ys)"
  defines "b \<equiv> unat (g_heap_base s) + extent xs"
  shows "(of_nat (b + 48) :: u64) \<noteq> 0" "kmem_ptr_in_heap s (of_nat (b + 48))" "kmem_ptr_in_heap s (of_nat b)"
    "(of_nat (b + 48) :: u64) AND (KMEM_ALIGN - 1) = 0" "kmem_header_from_payload (of_nat (b + 48)) = of_nat b"
    "kb_magic (heap s) (of_nat b) = KMEM_MAGIC" "kb_free (heap s) (of_nat b) \<noteq> 0 \<longleftrightarrow> f"
proof -
  note wf' = kmem_wfD [OF wf]
  have e: "b + 48 + z + extent ys = unat (g_heap_end s)" "b + 48 + z + extent ys < 18446744073709551616"
    using wf'(5,6) by (simp_all add: b_def)
  have zs: "16 \<le> z" and xs: "sizes_ok xs" using wf'(8) by simp_all
  have bm: "b mod 16 = 0" "unat (g_heap_base s) \<le> b" using base_mod [OF wf'(3) xs] by (simp_all add: b_def)
  show "(of_nat (b + 48) :: u64) \<noteq> 0" "kmem_ptr_in_heap s (of_nat (b + 48))" "kmem_ptr_in_heap s (of_nat b)"
    using e zs bm by (simp_all add: of_nat_eq_0_iff64 kmem_ptr_in_heap_def word_le_nat_alt
        word_less_nat_alt unat_nat del: of_nat_add)
  have "(b + 48) mod 16 = 0" using next_mod [OF bm(1), of 0] by simp
  then show "(of_nat (b + 48) :: u64) AND (KMEM_ALIGN - 1) = 0"
    using e by (simp add: KMEM_ALIGN_def mask_simps unat_nat flip: unat_eq_zero del: of_nat_add unat_eq_zero)
  show "kmem_header_from_payload (of_nat (b + 48)) = of_nat b"
    by (simp add: kmem_header_from_payload_def sizeof_kmem_block_def)
  have "header (heap s) (last_block 0 (unat (g_heap_base s)) xs) b z f (if ys = [] then 0 else b + 48 + z)"
    using wf'(10) by (auto simp: blocks_append [of _ _ _ xs] b_def split: if_splits)
  then show "kb_magic (heap s) (of_nat b) = KMEM_MAGIC" "kb_free (heap s) (of_nat b) \<noteq> 0 \<longleftrightarrow> f"
    by (simp_all add: header_def)
qed

text \<open>C10: On a well-formed heap freeing null does nothing, freeing a free block returns
  -4 and changes nothing, and freeing a block in use merges it with the free neighbours on both
  sides and keeps every payload still in use; it returns 0, or -3 when more than 1048576 blocks
  are left, although the block has been freed.\<close>

theorem kmem_free_exact:
  fixes f :: bool
  assumes wf: "kmem_wf s (xs @ (z, f) # ys)"
  defines "base \<equiv> unat (g_heap_base s)"
  shows "kmem_free_checked s 0 = Some (0, s) \<and>
    (if f then kmem_free_checked s (of_nat (base + extent xs + 48)) = Some (-4, s)
     else \<exists>s'. kmem_free_checked s (of_nat (base + extent xs + 48)) =
         Some (if length (release xs z ys) \<le> 1048576 then 0 else -3, s') \<and>
       kmem_wf s' (release xs z ys) \<and> keeps_payloads (heap s) (heap s') base (release xs z ys))"
proof (cases f)
  case True
  then show ?thesis
    using payload_pointer [OF wf] unfolding base_def
    by (simp add: kmem_free_checked_def Let_def del: of_nat_add)
next
  case False
  obtain m' where "kmem_free_checked s (of_nat (base + extent xs + 48)) =
      Some (if length (release xs z ys) \<le> 1048576 then 0 else -3, s\<lparr>heap := m'\<rparr>)"
    "kmem_wf (s\<lparr>heap := m'\<rparr>) (release xs z ys)" "keeps_payloads (heap s) m' base (release xs z ys)"
    using kmem_free_spec [of s xs z ys] wf False unfolding base_def by auto
  then show ?thesis
    using False by (auto simp: kmem_free_checked_def intro!: exI [of _ "s\<lparr>heap := m'\<rparr>"])
qed

text \<open>Freeing a block right after its allocation succeeds and gives back the list of
  blocks there was before, with the payloads in use unchanged.\<close>

lemma kmem_alloc_free_back:
  assumes wf: "kmem_wf s bs" and a: "kmem_alloc s n = Some (p, s')" and p: "p \<noteq> 0"
    and len: "length bs \<le> 1048576"
  shows "\<exists>s''. kmem_free_checked s' p = Some (0, s'') \<and> kmem_wf s'' bs \<and>
    keeps_payloads (heap s) (heap s'') (unat (g_heap_base s)) bs"
proof -
  let ?w = "(unat n + 15) div 16 * 16" and ?base = "unat (g_heap_base s)"
  have c: "n \<noteq> 0" "unat n \<le> 18446744073709551600" "\<exists>x \<in> set bs. fits ?w x"
    using kmem_alloc_none [OF wf, of n] a p by fastforce+
  obtain xs z ys m' where m': "bs = xs @ (z, True) # ys"
    "kmem_alloc s n = Some (of_nat (?base + extent xs + 48), s\<lparr>heap := m'\<rparr>)"
    "kmem_wf (s\<lparr>heap := m'\<rparr>) (xs @ alloc_split ?w z @ ys)" "keeps_payloads (heap s) m' ?base bs"
    using kmem_alloc_fits [OF wf c] by blast
  define t r where "t = fst (hd (alloc_split ?w z))" and "r = tl (alloc_split ?w z) @ ys"
  have split: "alloc_split ?w z @ ys = (t, False) # r" "release xs t r = bs"
    using release_alloc [of xs z ys ?w] kmem_wfD(9) [OF wf] by (auto simp: t_def r_def m'(1))
  from m'(3) have "kmem_wf (s\<lparr>heap := m'\<rparr>) (xs @ (t, False) # r)" by (simp add: split(1))
  from kmem_free_spec [OF this] obtain m'' where m'': "kmem_free_checked (s\<lparr>heap := m'\<rparr>) (of_nat (?base + extent xs + 48)) =
      Some (0, s\<lparr>heap := m''\<rparr>)" "kmem_wf (s\<lparr>heap := m''\<rparr>) bs" "keeps_payloads m' m'' ?base bs"
    using len by (auto simp: split(2))
  have "keeps_payloads (heap s) m'' ?base bs"
    using m'(4) m''(3) agree_trans unfolding keeps_payloads_def by blast
  moreover have "p = of_nat (?base + extent xs + 48)" "s' = s\<lparr>heap := m'\<rparr>" using a m'(2) by simp_all
  ultimately show ?thesis using m''(1,2) by (intro exI [of _ "s\<lparr>heap := m''\<rparr>"]) simp
qed

definition fresh_kmem :: kmem_state where
  "fresh_kmem = \<lparr>heap = (\<lambda>_. 0xAA), g_heap_base = 0, g_heap_end = 0, g_head = 0, g_initialized = False\<rparr>"

definition sample_kmem :: kmem_state where
  "sample_kmem = snd (kmem_init fresh_kmem 0x1000 0x1000)"

lemma sample_kmem_init: "kmem_init fresh_kmem 0x1000 0x1000 = (0, sample_kmem)"
  and sample_kmem_wf: "kmem_wf sample_kmem [(4048, True)]"
proof -
  let ?m = "set_next (set_prev (set_pad (set_free (set_size (set_magic (heap fresh_kmem) 0x1000 KMEM_MAGIC)
      0x1000 4048) 0x1000 1) 0x1000 0) 0x1000 0) 0x1000 0"
  let ?s = "\<lparr>heap = ?m, g_heap_base = 0x1000, g_heap_end = 0x2000, g_head = 0x1000, g_initialized = True\<rparr>"
  have init: "kmem_init fresh_kmem 0x1000 0x1000 = (kmem_validate ?s, ?s)"
    by (simp add: kmem_init_def kmem_align_up_ptr_def KMEM_ALIGN_def sizeof_kmem_block_def KMEM_MIN_SPLIT_def
        Let_def)
  have space: "block_space 4096" by (simp add: block_space_def)
  note fs = field_same [OF space, simplified]
  have wf: "kmem_wf ?s [(4048, True)]"
    by (simp add: kmem_wf_def header_def fs)
  then have "kmem_validate ?s = 0" using kmem_wf_validate by fastforce
  then show "kmem_init fresh_kmem 0x1000 0x1000 = (0, sample_kmem)" "kmem_wf sample_kmem [(4048, True)]"
    using init wf by (simp_all add: sample_kmem_def)
qed

lemma sample_kmem_base: "g_heap_base sample_kmem = 0x1000"
  by (simp add: sample_kmem_def kmem_init_def kmem_align_up_ptr_def KMEM_ALIGN_def sizeof_kmem_block_def
      KMEM_MIN_SPLIT_def Let_def)

theorem kmem_alloc_first_fit_witness:
  "\<exists>s'. kmem_alloc sample_kmem 100 = Some (0x1030, s') \<and> kmem_wf s' [(112, False), (3888, True)]"
proof -
  have one: "[(4048, True)] = xs @ (z, True) # ys \<longleftrightarrow> xs = [] \<and> z = 4048 \<and> ys = []" for xs ys :: "block list" and z
    by (cases xs) auto
  show ?thesis
    using kmem_alloc_first_fit [OF sample_kmem_wf, of 100]
    by (auto simp: fits_def alloc_split_def sample_kmem_base one)
qed

theorem kmem_free_exact_witness: "kmem_free_checked sample_kmem 0x1030 = Some (-4, sample_kmem)"
  using kmem_free_exact [of sample_kmem "[]" 4048 True "[]"] sample_kmem_wf by (simp add: sample_kmem_base)

lemma sample_kmem_alloc: "\<exists>p s'. kmem_alloc sample_kmem 100 = Some (p, s') \<and> p \<noteq> 0"
proof (rule kmem_alloc_effect [OF sample_kmem_wf, of 100])
  assume "kmem_alloc sample_kmem 100 = Some (0, sample_kmem)"
  then show ?thesis
    using kmem_alloc_some [of sample_kmem "[]" 4048 "[]" 100] sample_kmem_wf by (auto simp: sample_kmem_base)
qed blast

theorem kmem_alloc_free_back_witness:
  "\<exists>p s' s''. p \<noteq> 0 \<and> kmem_alloc sample_kmem 100 = Some (p, s') \<and>
     kmem_free_checked s' p = Some (0, s'') \<and> kmem_wf s'' [(4048, True)]"
proof -
  obtain p s' where a: "kmem_alloc sample_kmem 100 = Some (p, s')" "p \<noteq> 0" using sample_kmem_alloc by blast
  from kmem_alloc_free_back [OF sample_kmem_wf a] a show ?thesis by auto
qed



subsection \<open>What callers hold\<close>

lemma live_block: "live_ok L a bs \<Longrightarrow> L p = Some n \<Longrightarrow> \<exists>z. (unat p, z) \<in> used_payloads a bs \<and> n \<le> z"
  unfolding live_ok_def by blast

text \<open>The bytes in use that the statistics report are the sizes of the payloads in use.\<close>

lemma used_sizes_sum: "sum_list (used_sizes bs) = (\<Sum>(q, z) \<in> used_payloads a bs. z) \<and> finite (used_payloads a bs)"
proof (induction bs arbitrary: a)
  case (Cons b bs)
  obtain z f where b: "b = (z, f)" by fastforce
  have "(a + 48, z) \<notin> used_payloads (a + 48 + z) bs" using used_payloads_range by fastforce
  then show ?case using Cons.IH [of "a + 48 + z"] by (simp add: b)
qed simp

lemma stats_exact:
  assumes "kmem_wf s bs"
  shows "\<exists>out. kmem_get_stats s (Some old) = Some (Some out) \<and>
    unat (total_bytes out) = unat (used_bytes out) + unat (free_bytes out) + 48 * unat (block_count out) \<and>
    unat (block_count out) = length bs \<and> unat (used_bytes out) = sum_list (used_sizes bs)"
proof -
  note wf' = kmem_wfD [OF assms]
  have tot: "unat (g_heap_end s - g_heap_base s) = extent bs"
    using wf'(5) by (simp add: unat_sub_if')
  have lt: "sum_list (used_sizes bs) + sum_list (free_sizes bs) + 48 * length bs < 18446744073709551616"
    using wf'(6) by (simp add: extent_sizes)
  from stats_loop_seg [OF wf'(10,7,2,6)] show ?thesis
    using wf'(1,4) tot lt by (simp add: kmem_get_stats_def unat_nat extent_sizes)
qed

lemma live_usable:
  assumes wf: "kmem_wf s bs" and L: "live_ok L (unat (g_heap_base s)) bs" "L p = Some n"
  shows "unat p mod 16 = 0 \<and> g_heap_base s \<le> p \<and> unat p + n \<le> unat (g_heap_end s)"
proof -
  note wf' = kmem_wfD [OF wf]
  obtain z where z: "(unat p, z) \<in> used_payloads (unat (g_heap_base s)) bs" "n \<le> z" using live_block [OF L] by blast
  then show ?thesis
    using used_payloads_range [OF z(1)] used_payloads_aligned [OF wf'(8,3) z(1)] wf'(5)
    by (simp add: word_le_nat_alt)
qed

lemma live_freed:
  assumes wf: "kmem_wf s bs" and L: "live_ok L (unat (g_heap_base s)) bs" "L p = Some n"
    and out: "unat (used_bytes out) = sum_list (used_sizes bs)"
  shows "\<exists>rc s' out' z. kmem_free_checked s p = Some (rc, s') \<and> kmem_get_stats s' (Some old) = Some (Some out') \<and>
    rc = (if unat (block_count out') \<le> 1048576 then 0 else -3) \<and>
    unat (used_bytes out) = unat (used_bytes out') + z \<and> n \<le> z \<and> 16 \<le> z"
proof -
  let ?a = "unat (g_heap_base s)"
  obtain z where z: "(unat p, z) \<in> used_payloads ?a bs" "n \<le> z" using live_block [OF L] by blast
  have z16: "16 \<le> z" using used_payloads_split [OF z(1)] kmem_wfD(8) [OF wf] by auto
  show ?thesis
  proof (rule kmem_free_effect [OF wf z(1)])
    fix m' bs'
    assume f: "kmem_free_checked s p = Some (if length bs' \<le> 1048576 then 0 else -3, s\<lparr>heap := m'\<rparr>)"
      "kmem_wf (s\<lparr>heap := m'\<rparr>) bs'" "used_payloads ?a bs = insert (unat p, z) (used_payloads ?a bs')"
      "\<forall>y. (unat p, y) \<notin> used_payloads ?a bs'"
    obtain out' where st: "kmem_get_stats (s\<lparr>heap := m'\<rparr>) (Some old) = Some (Some out')"
        "unat (block_count out') = length bs'" "unat (used_bytes out') = sum_list (used_sizes bs')"
      using stats_exact [OF f(2), of old] by blast
    have "sum_list (used_sizes bs) = sum_list (used_sizes bs') + z"
      using used_sizes_sum [of bs ?a] used_sizes_sum [of bs' ?a] f(3,4) by simp
    then show ?thesis using f(1) st z(2) z16 out
      by (intro exI [of _ "if length bs' \<le> 1048576 then 0 else - 3"] exI [of _ "s\<lparr>heap := m'\<rparr>"] exI [of _ out']
          exI [of _ z]) simp
  qed
qed

lemma live_disjoint:
  assumes L: "live_ok L a bs" and l: "L p = Some n" "L q = Some k" "p \<noteq> q"
  shows "unat p + n \<le> unat q \<or> unat q + k \<le> unat p"
proof -
  obtain y z where y: "(unat p, y) \<in> used_payloads a bs" "n \<le> y"
    and z: "(unat q, z) \<in> used_payloads a bs" "k \<le> z" using live_block [OF L] l by blast
  have "unat p \<noteq> unat q" using l by (simp add: word_unat_eq_iff)
  then show ?thesis using used_payloads_disjoint [OF y(1) z(1)] y(2) z(2) by auto
qed

lemma live_alloc_fresh:
  assumes wf: "kmem_wf s bs" and L: "live_ok L (unat (g_heap_base s)) bs"
  shows "\<exists>p s'. kmem_alloc s n = Some (p, s') \<and> L p = None"
proof (rule kmem_alloc_effect [OF wf, of n])
  assume "kmem_alloc s n = Some (0, s)"
  moreover have "L 0 = None"
    using live_block [OF L, of 0] used_payloads_range [of 0 _ "unat (g_heap_base s)" bs] by fastforce
  ultimately show ?thesis by blast
next
  fix p m'
  assume "kmem_alloc s n = Some (p, s\<lparr>heap := m'\<rparr>)" "\<forall>y. (unat p, y) \<notin> used_payloads (unat (g_heap_base s)) bs"
  then show ?thesis using live_block [OF L, of p] by fastforce
qed

text \<open>C8: From any successful initialisation (the heap from address 16 to 2^64 - 16
  excepted, in which the sums of the split wrap around), after any sequence of allocations,
  zeroed allocations, writes of the callers inside what they asked for and frees of what they
  hold: every block a caller holds is 16-byte aligned and inside the heap, and no two overlap;
  freeing it takes it out of the bytes in use, at least as many as the caller asked for, and
  answers 0, or -3 only when more than 1048576 blocks are left; a new allocation always returns
  and never returns a held pointer; the heap's own check answers 0, or -3 only when there are
  more than 1048576 blocks; and the statistics add up to the heap.\<close>

theorem kmem_reachable_safe:
  assumes "kmem_reachable s L"
  shows "\<exists>out. kmem_get_stats s (Some old) = Some (Some out) \<and>
    unat (total_bytes out) = unat (used_bytes out) + unat (free_bytes out) + 48 * unat (block_count out) \<and>
    kmem_validate s = (if unat (block_count out) \<le> 1048576 then 0 else -3) \<and>
    (\<forall>p n. L p = Some n \<longrightarrow> unat p mod 16 = 0 \<and> g_heap_base s \<le> p \<and> unat p + n \<le> unat (g_heap_end s) \<and>
      (\<exists>rc s' out' z. kmem_free_checked s p = Some (rc, s') \<and> kmem_get_stats s' (Some old) = Some (Some out') \<and>
         rc = (if unat (block_count out') \<le> 1048576 then 0 else -3) \<and>
         unat (used_bytes out) = unat (used_bytes out') + z \<and> n \<le> z \<and> 16 \<le> z)) \<and>
    (\<forall>p n q k. L p = Some n \<and> L q = Some k \<and> p \<noteq> q \<longrightarrow> unat p + n \<le> unat q \<or> unat q + k \<le> unat p) \<and>
    (\<forall>n. \<exists>p s'. kmem_alloc s n = Some (p, s') \<and> L p = None)"
proof -
  obtain bs where wf: "kmem_wf s bs" and L: "live_ok L (unat (g_heap_base s)) bs"
    using reachable_wf [OF assms] by blast
  obtain out where out: "kmem_get_stats s (Some old) = Some (Some out)"
      "unat (total_bytes out) = unat (used_bytes out) + unat (free_bytes out) + 48 * unat (block_count out)"
      "unat (block_count out) = length bs" "unat (used_bytes out) = sum_list (used_sizes bs)"
    using stats_exact [OF wf, of old] by blast
  have "kmem_validate s = (if unat (block_count out) \<le> 1048576 then 0 else -3)"
    using kmem_wf_validate [OF wf] by (simp add: out(3))
  then show ?thesis
    using out(1,2) live_usable [OF wf L] live_freed [OF wf L _ out(4), of _ _ old] live_disjoint [OF L]
      live_alloc_fresh [OF wf L] by (intro exI [of _ out] conjI) blast+
qed

theorem kmem_reachable_safe_witness:
  "\<exists>s L p. kmem_reachable s L \<and> L p = Some 100 \<and> unat p mod 16 = 0 \<and> unat p + 100 \<le> unat (g_heap_end s) \<and>
     (\<exists>rc s'. kmem_free_checked s p = Some (rc, s'))"
proof -
  obtain p s where a: "kmem_alloc sample_kmem 100 = Some (p, s)" "p \<noteq> 0" using sample_kmem_alloc by blast
  have "kmem_reachable sample_kmem Map.empty"
    by (rule kmem_reachable.init [OF sample_kmem_init]) (simp add: sample_kmem_base)
  from kmem_reachable.alloc [OF this a(1)] have r: "kmem_reachable s (Map.empty(p \<mapsto> 100))"
    by (simp add: holding_simps(2) [OF a(2)])
  then show ?thesis using kmem_reachable_safe [OF r] by (metis fun_upd_same)
qed

subsection \<open>Aligned heaps\<close>

lemma kmem_init_aligned:
  assumes base: "unat base mod 16 = 0" "48 \<le> unat base" and bytes: "unat bytes mod 16 = 0" "80 < unat bytes"
    and top: "unat base + unat bytes < 2 ^ 64"
  shows "\<exists>s'. kmem_init s base bytes = (0, s') \<and> kmem_wf s' [(unat bytes - 48, True)] \<and> g_heap_base s' = base"
proof -
  define m where "m = set_next (set_prev (set_pad (set_free (set_size (set_magic (heap s) base KMEM_MAGIC)
      base (bytes - sizeof_kmem_block)) base 1) base 0) base 0) base 0"
  let ?s = "\<lparr>heap = m, g_heap_base = base, g_heap_end = base + bytes, g_head = base, g_initialized = True\<rparr>"
  have up: "kmem_align_up_ptr base KMEM_ALIGN = base"
  proof -
    have "unat (base + 15) = unat base + 15" using top bytes(2) by (subst unat_add_no_wrap) simp_all
    moreover have "(unat base + 15) mod 16 = 15" using base(1) by (simp add: mod_add_left_eq [symmetric])
    ultimately have "unat (kmem_align_up_ptr base KMEM_ALIGN) = unat base"
      by (simp add: kmem_align_up_ptr_def KMEM_ALIGN_def mask_simps)
    then show ?thesis by (simp add: word_unat_eq_iff)
  qed
  have down: "bytes AND NOT (KMEM_ALIGN - 1) = bytes"
    using bytes(1) by (simp add: word_unat_eq_iff KMEM_ALIGN_def mask_simps)
  have big: "\<not> bytes \<le> 80" "\<not> bytes < 80" "base \<noteq> 0"
    using bytes(2) base(2) by (auto simp: word_le_nat_alt word_less_nat_alt)
  have init: "kmem_init s base bytes = (kmem_validate ?s, ?s)"
    unfolding kmem_init_def up
    using big by (simp add: down sizeof_kmem_block_def KMEM_MIN_SPLIT_def Let_def m_def)
  have space: "block_space (unat base)" using top bytes(2) by (simp add: block_space_def)
  have z: "bytes - sizeof_kmem_block = of_nat (unat bytes - 48)"
    by (rule of_nat_unat_u64) (use bytes(2) in \<open>simp add: sizeof_kmem_block_def unat_sub_if'\<close>)
  have b: "of_nat (unat base) = base" by simp
  note fs = field_same [OF space, unfolded b]
  have "seg m 0 (unat base) [(unat bytes - 48, True)] 0"
    unfolding m_def z seg.simps header_def by (simp add: fs)
  moreover have "(unat bytes - 48) mod 16 = 0" "16 \<le> unat bytes - 48"
  proof -
    obtain k where "unat bytes = 16 * k" using bytes(1) by (metis dvdE mod_eq_0_iff_dvd)
    then have "unat bytes - 48 = 16 * (k - 3)" "80 < 16 * k" using bytes(2) by simp_all
    then show "(unat bytes - 48) mod 16 = 0" "16 \<le> unat bytes - 48" by simp_all
  qed
  ultimately have wf: "kmem_wf ?s [(unat bytes - 48, True)]"
    using base bytes(2) top unat_add_no_wrap [of base bytes] by (simp add: kmem_wf_def)
  then have "kmem_validate ?s = 0" using kmem_wf_validate by fastforce
  with init wf show ?thesis by simp
qed

lemma kmem_probe:
  assumes wf: "kmem_wf s [(z, True)]" and n: "n \<noteq> 0" "unat n \<le> z" "z \<le> 18446744073709551600"
    and z: "z mod 16 = 0"
  shows "\<exists>p s1 s2. kmem_alloc s n = Some (p, s1) \<and> p \<noteq> 0 \<and> kmem_free_checked s1 p = Some (0, s2) \<and>
    kmem_wf s2 [(z, True)]"
proof -
  obtain k where "z = 16 * k" using z by (metis dvdE mod_eq_0_iff_dvd)
  then have "(unat n + 15) div 16 * 16 \<le> z" using n(2) by simp
  then have "\<exists>x \<in> set [(z, True)]. fits ((unat n + 15) div 16 * 16) x" by (simp add: fits_def)
  moreover have "unat n \<le> 18446744073709551600" using n(2,3) by simp
  ultimately obtain xs y ys m' where m': "[(z, True)] = xs @ (y, True) # ys"
    "kmem_alloc s n = Some (of_nat (unat (g_heap_base s) + extent xs + 48), s\<lparr>heap := m'\<rparr>)"
    using kmem_alloc_fits [OF wf n(1)] by blast
  have nz: "(of_nat (unat (g_heap_base s) + extent xs + 48) :: u64) \<noteq> 0"
    using payload_pointer(1) [of s xs y True ys] wf m'(1) by simp
  from kmem_alloc_free_back [OF wf m'(2) nz] m'(2) nz show ?thesis by auto
qed

end
