(* ===== verification/Boot.thy ===== *)
theory Boot
  imports Pmm Kmem Traps
begin

text \<open>
  The boot of the first kernel, where its components meet: \<open>src/kernel/kernel.c\<close> (the memory map of
  the boot loader, the physical memory manager, the kernel heap) and \<open>src/kmain.c\<close> (the boot path
  with the early writers and the breakpoint test), and the one-line kernel of
  \<open>src/mcsos/kmain.c\<close>.

  The static variables the code starts from are the fields of \<open>boot_env\<close>; addresses the linker
  chooses (table, stubs, heap array) are fields too. The memory map is the response of the boot
  loader (\<open>limine.h\<close>), with \<open>None\<close> for the null pointer. A call that does not return makes the
  boot not return either (\<open>None\<close>).
\<close>

subsection \<open>The memory map of the boot loader\<close>

record limine_memmap_entry =
  e_base :: u64
  e_length :: u64
  e_type :: u64

definition LIMINE_MEMMAP_USABLE :: u64 where "LIMINE_MEMMAP_USABLE = 0"
definition LIMINE_MEMMAP_RESERVED :: u64 where "LIMINE_MEMMAP_RESERVED = 1"
definition LIMINE_MEMMAP_ACPI_RECLAIMABLE :: u64 where "LIMINE_MEMMAP_ACPI_RECLAIMABLE = 2"
definition LIMINE_MEMMAP_ACPI_NVS :: u64 where "LIMINE_MEMMAP_ACPI_NVS = 3"
definition LIMINE_MEMMAP_BAD_MEMORY :: u64 where "LIMINE_MEMMAP_BAD_MEMORY = 4"
definition LIMINE_MEMMAP_BOOTLOADER_RECLAIMABLE :: u64 where "LIMINE_MEMMAP_BOOTLOADER_RECLAIMABLE = 5"
definition LIMINE_MEMMAP_KERNEL_AND_MODULES :: u64 where "LIMINE_MEMMAP_KERNEL_AND_MODULES = 6"
definition LIMINE_MEMMAP_FRAMEBUFFER :: u64 where "LIMINE_MEMMAP_FRAMEBUFFER = 7"

definition BOOT_MEM_RESERVED :: u32 where "BOOT_MEM_RESERVED = 2"
definition BOOT_MEM_BOOTLOADER_RECLAIMABLE :: u32 where "BOOT_MEM_BOOTLOADER_RECLAIMABLE = 3"
definition BOOT_MEM_KERNEL_AND_MODULES :: u32 where "BOOT_MEM_KERNEL_AND_MODULES = 4"
definition BOOT_MEM_FRAMEBUFFER :: u32 where "BOOT_MEM_FRAMEBUFFER = 5"
definition BOOT_MEM_ACPI_RECLAIMABLE :: u32 where "BOOT_MEM_ACPI_RECLAIMABLE = 6"
definition BOOT_MEM_ACPI_NVS :: u32 where "BOOT_MEM_ACPI_NVS = 7"
definition BOOT_MEM_BAD_MEMORY :: u32 where "BOOT_MEM_BAD_MEMORY = 8"

lemmas memory_types =
  LIMINE_MEMMAP_USABLE_def LIMINE_MEMMAP_RESERVED_def LIMINE_MEMMAP_ACPI_RECLAIMABLE_def
  LIMINE_MEMMAP_ACPI_NVS_def LIMINE_MEMMAP_BAD_MEMORY_def LIMINE_MEMMAP_BOOTLOADER_RECLAIMABLE_def
  LIMINE_MEMMAP_KERNEL_AND_MODULES_def LIMINE_MEMMAP_FRAMEBUFFER_def BOOT_MEM_USABLE_def
  BOOT_MEM_RESERVED_def BOOT_MEM_BOOTLOADER_RECLAIMABLE_def BOOT_MEM_KERNEL_AND_MODULES_def
  BOOT_MEM_FRAMEBUFFER_def BOOT_MEM_ACPI_RECLAIMABLE_def BOOT_MEM_ACPI_NVS_def BOOT_MEM_BAD_MEMORY_def

definition PMM_MAX_PHYS_BYTES :: u64 where "PMM_MAX_PHYS_BYTES = 64 * 1024 * 1024 * 1024"
definition PMM_MAX_FRAMES :: u64 where "PMM_MAX_FRAMES = PMM_MAX_PHYS_BYTES div PMM_PAGE_SIZE"
definition PMM_BITMAP_BYTES :: u64 where "PMM_BITMAP_BYTES = PMM_MAX_FRAMES div 8"

definition region_type_of :: "u64 \<Rightarrow> u32" where
  "region_type_of t =
     (if t = LIMINE_MEMMAP_USABLE then BOOT_MEM_USABLE
      else if t = LIMINE_MEMMAP_RESERVED then BOOT_MEM_RESERVED
      else if t = LIMINE_MEMMAP_BOOTLOADER_RECLAIMABLE then BOOT_MEM_BOOTLOADER_RECLAIMABLE
      else if t = LIMINE_MEMMAP_KERNEL_AND_MODULES then BOOT_MEM_KERNEL_AND_MODULES
      else if t = LIMINE_MEMMAP_FRAMEBUFFER then BOOT_MEM_FRAMEBUFFER
      else if t = LIMINE_MEMMAP_ACPI_RECLAIMABLE then BOOT_MEM_ACPI_RECLAIMABLE
      else if t = LIMINE_MEMMAP_ACPI_NVS then BOOT_MEM_ACPI_NVS
      else if t = LIMINE_MEMMAP_BAD_MEMORY then BOOT_MEM_BAD_MEMORY
      else BOOT_MEM_RESERVED)"

fun boot_regions :: "limine_memmap_entry list \<Rightarrow> nat \<Rightarrow> boot_mem_region list" where
  "boot_regions [] count = []"
| "boot_regions (e # es) count =
     (if count < 128
      then \<lparr>region_base = e_base e, region_length = e_length e, region_type = region_type_of (e_type e)\<rparr> #
             boot_regions es (count + 1)
      else [])"

subsection \<open>The boot functions\<close>

record boot_env =
  b_memmap :: "limine_memmap_entry list option"
  b_pmm :: pmm_state
  b_bitmap :: "u8 list"
  b_idt :: idt_state
  b_idt_addr :: u64
  b_stubs :: "u64 list"
  b_kmem :: kmem_state
  b_heap_addr :: u64

definition nl :: "string \<Rightarrow> string" where "nl s = cstr (s @ [CHR 0x0A])"

definition kernel_memory_init ::
  "device \<Rightarrow> limine_memmap_entry list option \<Rightarrow> pmm_state \<Rightarrow> u8 list \<Rightarrow> pmm_state option io" where
  "kernel_memory_init d memmap kernel_pmm kernel_pmm_bitmap =
     (case memmap of
        None \<Rightarrow> io_seq (serial_write_string d (nl ''[m6] ERROR: no memmap response'')) halt_loop
      | Some entries \<Rightarrow>
          let regions = boot_regions entries 0;
              (ok, pmm) = pmm_init_from_map (Some kernel_pmm) (Some regions) (of_nat (length regions))
                            (Some kernel_pmm_bitmap) PMM_BITMAP_BYTES PMM_MAX_PHYS_BYTES
          in if \<not> ok
             then io_seq (serial_write_string d (nl ''[m6] ERROR: pmm_init_from_map failed'')) halt_loop
             else
               io_seq (serial_write_string d (nl ''[m6] pmm initialized''))
                 (let (f, pmm) = pmm_alloc_frame pmm
                  in if f \<noteq> PMM_INVALID_FRAME
                     then io_seq (serial_write_string d (nl ''[m6] sample frame alloc OK''))
                            (let (_, pmm) = pmm_free_frame pmm f
                             in io_seq (serial_write_string d (nl ''[m6] sample frame free OK''))
                                  (io_return pmm))
                     else io_return pmm))"

definition M8_BOOT_HEAP_SIZE :: u32 where "M8_BOOT_HEAP_SIZE = 64 * 1024"

definition kernel_main :: "device \<Rightarrow> boot_env \<Rightarrow> unit io" where
  "kernel_main d b =
     io_seq serial_init
     (io_bind (idt_init (b_idt_addr b) (b_stubs b) (b_idt b)) (\<lambda>idt.
      io_bind (kernel_memory_init d (b_memmap b) (b_pmm b) (b_bitmap b)) (\<lambda>pmm.
        let (rc, k) = kmem_init (b_kmem b) (b_heap_addr b) (ucast M8_BOOT_HEAP_SIZE)
        in if rc \<noteq> 0
           then io_seq (serial_write_string d (nl ''[M8 FAIL] kmem_init failed'')) halt_loop
           else
             io_seq (serial_write_string d (nl ''[M8] heap initialized''))
             (case kmem_alloc k 128 of
                None \<Rightarrow> (\<lambda>h. None)
              | Some (probe, k) \<Rightarrow>
                  if probe = 0
                  then io_seq (serial_write_string d (nl ''[M8 FAIL] kmem_alloc probe failed'')) halt_loop
                  else (case kmem_free_checked k probe of
                          None \<Rightarrow> (\<lambda>h. None)
                        | Some (rc, k) \<Rightarrow>
                            if rc \<noteq> 0
                            then io_seq (serial_write_string d (nl ''[M8 FAIL] kmem_free_checked failed'')) halt_loop
                            else io_all
                              [serial_write_string d (nl ''[M8 SUCCESS] kernel heap alloc/free probe OK''),
                               cpu_sti, halt_loop])))))"

text \<open>The other boot path. The breakpoint interrupts the code with the registers \<open>c\<close> on the stack
  \<open>stk\<close> and is delivered through the table just loaded; \<open>desc\<close> is the descriptor table the boot loader
  has set up.\<close>

definition kmain :: "device \<Rightarrow> (u16 \<Rightarrow> u64 option) \<Rightarrow> boot_env \<Rightarrow> u64 \<Rightarrow> u64 list \<Rightarrow> cpu_regs \<Rightarrow> unit io" where
  "kmain d desc b rsi stk c =
     io_seq (io_all
       [early_serial_init,
        early_serial_puts (nl ''MCSOS 260502 M2 boot path entered''),
        early_serial_puts (nl ''[M2] early serial online'')])
     (io_bind (x86_64_idt_init (b_idt_addr b) (b_stubs b) (b_idt b)) (\<lambda>idt.
      io_seq (early_serial_puts (nl ''[M4] Triggering manual int3 breakpoint test execution...''))
      (io_bind (x86_64_interrupt d rsi desc idt (b_stubs b) 3 None stk c) (\<lambda>c.
       io_seq (early_serial_puts
           (nl ''[M4 SUCCESS] System successfully recovered from breakpoint and continued execution!''))
       (let (rc, k) = kmem_init (b_kmem b) (b_heap_addr b) (ucast M8_BOOT_HEAP_SIZE)
        in if rc \<noteq> 0
           then io_seq (early_serial_puts (nl ''[M8 FAIL] kmem_init failed'')) halt_loop
           else
             io_seq (early_serial_puts (nl ''[M8] heap initialized''))
             (case kmem_alloc k 128 of
                None \<Rightarrow> (\<lambda>h. None)
              | Some (probe, k) \<Rightarrow>
                  if probe = 0
                  then io_seq (early_serial_puts (nl ''[M8 FAIL] kmem_alloc probe failed'')) halt_loop
                  else (case kmem_free_checked k probe of
                          None \<Rightarrow> (\<lambda>h. None)
                        | Some (rc, k) \<Rightarrow>
                            if rc \<noteq> 0
                            then io_seq (early_serial_puts (nl ''[M8 FAIL] kmem_free_checked probe failed'')) halt_loop
                            else io_all
                              [early_serial_puts (nl ''[M8 SUCCESS] kernel heap alloc/free probe OK''),
                               early_serial_puts (nl ''[M2] kernel reached controlled halt loop''),
                               halt_loop])))))))"

text \<open>An empty endless loop: the run stays where it is.\<close>

definition m6_kmain :: "unit io" where
  "m6_kmain = io_seq (m6_serial_write_string (nl ''Halo Safira, Kernel M6 berhasil jalan!'')) (\<lambda>h. Some (Halts h))"

subsection \<open>The regions handed to the memory manager\<close>

definition region_of :: "limine_memmap_entry \<Rightarrow> boot_mem_region" where
  "region_of e = \<lparr>region_base = e_base e, region_length = e_length e, region_type = region_type_of (e_type e)\<rparr>"

lemma boot_regions_eq: "boot_regions es n = map region_of (take (128 - n) es)"
proof (induction es arbitrary: n)
  case (Cons e es)
  show ?case
  proof (cases "n < 128")
    case True
    then have "128 - n = Suc (128 - (n + 1))" by simp
    with True Cons show ?thesis by (simp add: region_of_def del: diff_Suc_eq_diff_pred)
  qed simp
qed simp

text \<open>Only the usable entries of the boot loader's map are usable for the memory manager.\<close>

lemma region_type_of_usable: "region_type_of t = BOOT_MEM_USABLE \<longleftrightarrow> t = LIMINE_MEMMAP_USABLE"
  by (simp add: region_type_of_def memory_types)

lemma pmm_sizes:
  "PMM_MAX_PHYS_BYTES = 0x1000000000" "PMM_BITMAP_BYTES = 0x200000"
  by (simp_all add: PMM_MAX_PHYS_BYTES_def PMM_BITMAP_BYTES_def PMM_MAX_FRAMES_def PMM_PAGE_SIZE_def)

definition memmap_ok :: "limine_memmap_entry list \<Rightarrow> bool" where
  "memmap_ok es \<longleftrightarrow> es \<noteq> [] \<and> (\<forall>e \<in> set (take 128 es). unat (e_base e) + unat (e_length e) \<le> 2 ^ 64 - 4096)"

text \<open>The frames of the first 64 GiB that may be handed out, read off the boot loader's map: all of the frame
  lies in a usable entry, and no part of it in an entry that is not usable. Overlaps of usable entries do
  not matter.\<close>

definition boot_free :: "limine_memmap_entry list \<Rightarrow> nat set" where
  "boot_free es = {f \<in> {..<16777216}. f \<noteq> 0 \<and>
     (\<exists>e \<in> set (take 128 es). e_type e = LIMINE_MEMMAP_USABLE \<and>
        f \<in> frames_inside (unat (e_base e)) (unat (e_length e))) \<and>
     \<not> (\<exists>e \<in> set (take 128 es). e_type e \<noteq> LIMINE_MEMMAP_USABLE \<and>
        f \<in> frames_touched (unat (e_base e)) (unat (e_length e)))}"

lemma boot_free_regions: "init_free_set (map region_of (take 128 es)) 16777216 = boot_free es"
  by (simp add: init_free_set_def boot_free_def region_of_def region_type_of_usable)

lemma boot_pmm_init:
  assumes ok: "memmap_ok es" and len: "length bitmap = 0x200000"
  shows "\<exists>p. pmm_init_from_map (Some p0) (Some (boot_regions es 0)) (of_nat (length (boot_regions es 0))) (Some bitmap)
      PMM_BITMAP_BYTES PMM_MAX_PHYS_BYTES = (True, Some p) \<and>
    pmm_wf p \<and> initialized p \<and> free_set p = boot_free es"
proof -
  let ?rs = "map region_of (take 128 es)"
  have n: "length ?rs \<le> 128" "length ?rs \<noteq> 0" using ok by (auto simp: memmap_ok_def)
  have u: "unat (of_nat (length ?rs) :: u64) = length ?rs"
    using n(1) by (simp only: unat_of_nat) (simp add: take_bit_eq_mod)
  have "(of_nat (length ?rs) :: u64) \<noteq> 0" using u n(2) by (metis unat_0)
  moreover have "region_ok r" if "r \<in> set (take (unat (of_nat (length ?rs) :: u64)) ?rs)" for r
    using that ok unfolding u by (auto simp: memmap_ok_def region_ok_def region_of_def)
  ultimately obtain p where p: "pmm_init_from_map (Some p0) (Some ?rs) (of_nat (length ?rs)) (Some bitmap)
      0x200000 0x1000000000 = (True, Some p)" "pmm_wf p" "initialized p"
      "free_set p = init_free_set (take (unat (of_nat (length ?rs) :: u64)) ?rs) (unat (0x1000000000 :: u64) div 4096)"
    using pmm_init_free_set [of "of_nat (length ?rs)" ?rs "0x1000000000" "0x200000" bitmap p0] len u
    by auto
  have "boot_regions es 0 = ?rs" by (simp add: boot_regions_eq)
  moreover have "free_set p = boot_free es" using p(4) boot_free_regions [of es] unfolding u by simp
  ultimately show ?thesis using p(1-3) by (simp only: pmm_sizes) blast
qed

lemma boot_pmm_empty:
  "pmm_init_from_map (Some p0) (Some (boot_regions [] 0)) (of_nat (length (boot_regions [] 0))) (Some bitmap)
      PMM_BITMAP_BYTES PMM_MAX_PHYS_BYTES = (False, Some p0)"
  by (simp add: pmm_init_from_map_def)

text \<open>The sample allocation and its release leave the free frames as they were.\<close>

lemma boot_sample_frame:
  assumes "pmm_wf p" and "initialized p" and "0 \<notin> free_set p"
  shows "if free_set p = {} then pmm_alloc_frame (Some p) = (PMM_INVALID_FRAME, Some p)
    else \<exists>f q q'. pmm_alloc_frame (Some p) = (f, Some q) \<and> f \<noteq> PMM_INVALID_FRAME \<and>
      pmm_free_frame (Some q) f = (True, Some q') \<and> pmm_wf q' \<and> initialized q' \<and> free_set q' = free_set p"
proof (cases "free_set p = {}")
  case True
  then show ?thesis using pmm_alloc_exhausted [OF assms(1)] by simp
next
  case False
  define m where "m = Min (free_set p)"
  have m: "m \<in> free_set p" using False unfolding m_def by (intro Min_in) auto
  then have lt: "m < unat (frame_count p)" "m \<noteq> 0" using assms(3) by (simp add: free_set_def, metis)
  obtain q where q: "pmm_alloc_frame (Some p) = (of_nat m * PMM_PAGE_SIZE, Some q)"
      "pmm_update p q (insert m (used_set p))" "initialized q"
    using pmm_alloc_update [OF assms(1,2) False] assms(2) unfolding m_def [symmetric] by (auto simp: pmm_update_def)
  have a: "unat (of_nat m * PMM_PAGE_SIZE) = m * 4096" using frame_addr_unat(1) [OF assms(1) lt(1)] by simp
  have nz: "of_nat m * PMM_PAGE_SIZE \<noteq> 0" using a lt(2) by (metis mult_eq_0_iff unat_0 zero_neq_numeral)
  have wfq: "pmm_wf q" "frame_count q = frame_count p" "used_set q = insert m (used_set p)"
    using q(2) by (simp_all add: pmm_update_def)
  obtain q' where q': "pmm_free_frame (Some q) (of_nat m * PMM_PAGE_SIZE) = (True, Some q')"
    using pmm_free_frame_cases [OF wfq(1) q(3), of "of_nat m * PMM_PAGE_SIZE"] a nz wfq
    by auto
  obtain r where r: "Some q' = Some r" "pmm_update q r (used_set q - {m})" "initialized r"
    using pmm_free_update [OF wfq(1) q(3) q'] a q(3) by (auto simp: pmm_update_def)
  have "free_set q' = free_set p"
    using r wfq m by (auto simp: free_set_eq pmm_update_def)
  moreover have "of_nat m * PMM_PAGE_SIZE \<noteq> PMM_INVALID_FRAME"
  proof
    assume "of_nat m * PMM_PAGE_SIZE = PMM_INVALID_FRAME"
    then have "m * 4096 = 18446744073709551615" using a by (simp add: PMM_INVALID_FRAME_def)
    then have "even (18446744073709551615 :: nat)" by (metis even_mult_iff even_numeral)
    then show False by simp
  qed
  ultimately show ?thesis using False q(1) q' r by (auto simp: pmm_update_def)
qed

subsection \<open>Memory initialisation\<close>

lemma prints_line:
  assumes "uart_responsive d" and "nul_free s"
  shows "prints (serial_write_string d (nl s)) (s @ [CHR 0x0A])"
  unfolding serial_write_string_def nl_def using assms by (intro serial.puts_prints) simp_all

lemma line_halts:
  assumes "uart_responsive d" and "nul_free s"
  shows "\<exists>es. io_seq (serial_write_string d (nl s)) halt_loop h = Some (Halts (h @ es @ [Hlt])) \<and>
    list_all serial_event es \<and> written es = s @ [CHR 0x0A]"
  using prints_halts [OF prints_line [OF assms]] .

definition memory_log :: "limine_memmap_entry list \<Rightarrow> string" where
  "memory_log es = concat (map (\<lambda>s. s @ [CHR 0x0A])
     (''[m6] pmm initialized'' #
      (if boot_free es = {} then [] else [''[m6] sample frame alloc OK'', ''[m6] sample frame free OK''])))"

lemma kernel_memory_init_returns:
  assumes uart: "uart_responsive d" and map: "memmap_ok es" and len: "length bitmap = 0x200000"
  shows "\<exists>p ev. kernel_memory_init d (Some es) p0 bitmap h = Some (Returns (Some p) (h @ ev)) \<and>
    list_all serial_event ev \<and> written ev = memory_log es \<and>
    pmm_wf p \<and> initialized p \<and> free_set p = boot_free es"
proof -
  obtain p where p: "pmm_init_from_map (Some p0) (Some (boot_regions es 0)) (of_nat (length (boot_regions es 0)))
      (Some bitmap) PMM_BITMAP_BYTES PMM_MAX_PHYS_BYTES = (True, Some p)"
      "pmm_wf p" "initialized p" "free_set p = boot_free es"
    using boot_pmm_init [OF map len] by blast
  have "0 \<notin> free_set p" using p(4) by (simp add: boot_free_def)
  note sample = boot_sample_frame [OF p(2,3) this]
  note line = prints_line [OF uart]
  show ?thesis
  proof (cases "free_set p = {}")
    case True
    then have "kernel_memory_init d (Some es) p0 bitmap = io_seq (serial_write_string d (nl ''[m6] pmm initialized''))
        (io_return (Some p))"
      using sample p(1) by (simp add: kernel_memory_init_def Let_def)
    moreover have "prints (serial_write_string d (nl ''[m6] pmm initialized'')) (memory_log es)"
      using line [of "''[m6] pmm initialized''"] True p(4) by (simp add: memory_log_def)
    ultimately show ?thesis
      using prints_then [of _ _ "io_return (Some p)" h] p(2-4) by (fastforce simp: io_return_def)
  next
    case False
    then obtain f q q' where q: "pmm_alloc_frame (Some p) = (f, Some q)" "f \<noteq> PMM_INVALID_FRAME"
        "pmm_free_frame (Some q) f = (True, Some q')" "pmm_wf q'" "initialized q'" "free_set q' = free_set p"
      using sample by auto
    let ?ms = "[serial_write_string d (nl ''[m6] pmm initialized''),
        serial_write_string d (nl ''[m6] sample frame alloc OK''), serial_write_string d (nl ''[m6] sample frame free OK'')]"
    have "kernel_memory_init d (Some es) p0 bitmap = io_seq (io_all ?ms) (io_return (Some q'))"
      using q(1-3) p(1) by (simp add: kernel_memory_init_def Let_def io_seq_assoc)
    moreover have "list_all2 prints ?ms [''[m6] pmm initialized'' @ [CHR 0x0A],
        ''[m6] sample frame alloc OK'' @ [CHR 0x0A], ''[m6] sample frame free OK'' @ [CHR 0x0A]]"
      by (intro list_all2_Cons [THEN iffD2] conjI line) simp_all
    from prints_all [OF this] have "prints (io_all ?ms) (memory_log es)"
      using False p(4) by (simp add: memory_log_def)
    ultimately show ?thesis
      using prints_then [of "io_all ?ms" "memory_log es" "io_return (Some q')" h] q(4-6) p(4)
      by (auto simp: io_return_def simp del: io_all_simps)
  qed
qed

text \<open>C14: On a serial port that becomes ready, with a non-empty map whose first 128
  entries end at or below 2^64 - 4096, kernel_memory_init makes free exactly the frames of the
  first 64 GiB that lie in usable entries among the first 128 of the boot loader's map, other
  than frame 0 and those touched by one of these entries that is not usable, and its trial
  allocation leaves them so; without a map, and with an empty one, it prints its error and
  halts.\<close>

theorem kernel_memory_init_exact:
  assumes "uart_responsive d" and "memmap_ok es" and "length bitmap = 0x200000"
  shows "(\<exists>p ev. kernel_memory_init d (Some es) p0 bitmap h = Some (Returns (Some p) (h @ ev)) \<and>
      list_all serial_event ev \<and> written ev = memory_log es \<and>
      pmm_wf p \<and> initialized p \<and> free_set p = boot_free es) \<and>
    (\<exists>ev. kernel_memory_init d None p0 bitmap h = Some (Halts (h @ ev @ [Hlt])) \<and> list_all serial_event ev \<and>
      written ev = ''[m6] ERROR: no memmap response'' @ [CHR 0x0A]) \<and>
    (\<exists>ev. kernel_memory_init d (Some []) p0 bitmap h = Some (Halts (h @ ev @ [Hlt])) \<and> list_all serial_event ev \<and>
      written ev = ''[m6] ERROR: pmm_init_from_map failed'' @ [CHR 0x0A])"
  using kernel_memory_init_returns [OF assms, of p0 h]
    line_halts [OF assms(1), of "''[m6] ERROR: no memmap response''" h]
    line_halts [OF assms(1), of "''[m6] ERROR: pmm_init_from_map failed''" h]
  by (simp add: kernel_memory_init_def Let_def pmm_init_from_map_def)

subsection \<open>The heap probe\<close>

definition heap_array_ok :: "u64 \<Rightarrow> bool" where
  "heap_array_ok a \<longleftrightarrow> a \<noteq> 0 \<and> unat a mod 4096 = 0 \<and> unat a + 65536 < 2 ^ 64"

lemma boot_heap_probe:
  assumes "heap_array_ok a"
  shows "\<exists>k p k1 k2. kmem_init s a (ucast M8_BOOT_HEAP_SIZE) = (0, k) \<and> kmem_alloc k 128 = Some (p, k1) \<and> p \<noteq> 0 \<and>
    kmem_free_checked k1 p = Some (0, k2) \<and> kmem_wf k2 [(65488, True)]"
proof -
  have size: "ucast M8_BOOT_HEAP_SIZE = (65536 :: u64)" by (simp add: M8_BOOT_HEAP_SIZE_def)
  obtain q where q: "unat a = 4096 * q" using assms by (metis heap_array_ok_def dvdE mod_eq_0_iff_dvd)
  have "unat a \<noteq> 0" using assms by (simp add: heap_array_ok_def unat_eq_zero)
  then have "unat a mod 16 = 0" "48 \<le> unat a" unfolding q by (simp_all add: mod_mult_left_eq [symmetric])
  then obtain k where k: "kmem_init s a 65536 = (0, k)" "kmem_wf k [(65488, True)]"
    using kmem_init_aligned [of a 65536 s] assms by (auto simp: heap_array_ok_def)
  from kmem_probe [OF k(2), of 128] k(1) show ?thesis by (simp add: size)
qed

subsection \<open>Boot\<close>

definition boot_log :: "limine_memmap_entry list \<Rightarrow> string" where
  "boot_log es = memory_log es @ ''[M8] heap initialized'' @ [CHR 0x0A] @
     ''[M8 SUCCESS] kernel heap alloc/free probe OK'' @ [CHR 0x0A]"

text \<open>C12: On a serial port that becomes ready, with a well-formed memory map and the
  kernel's static arrays, kernel_main always reaches its idle loop: it programs the serial
  port, loads an IDT of 256 entries, sets up frames and heap, takes none of its error exits,
  enables interrupts and halts, and the bytes the UART has sent are exactly the boot
  log.\<close>

theorem kernel_main_boots:
  assumes uart: "uart_responsive d" and map: "b_memmap b = Some es" "memmap_ok es"
    and len: "length (b_bitmap b) = 0x200000" "length (idt_table (b_idt b)) = 256"
    and heap: "heap_array_ok (b_heap_addr b)"
  shows "\<exists>ini ev. kernel_main d b h = Some (Halts (h @ ini @ [Lidt 4095 (b_idt_addr b)] @ ev @ [Sti, Hlt])) \<and>
    list_all serial_event ev \<and> written ev = boot_log es \<and>
    u_sent (uart_run (ini @ [Lidt 4095 (b_idt_addr b)] @ ev) u) = u_sent u @ boot_log es"
proof -
  note line = prints_line [OF uart]
  obtain ini where ini: "serial_init h = Some (Returns () (h @ ini))"
      "uart_run ini u = u\<lparr>u_ier := (if dlab u then u_ier u else 0), u_lcr := 3, u_fcr := 0xC7, u_mcr := 0x0B,
        u_dll := 3, u_dlm := 0\<rparr>"
    using serial_init_Returns [of h u] by blast
  let ?h1 = "(h @ ini) @ [Lidt 4095 (b_idt_addr b)]"
  obtain idt where idt: "idt_init (b_idt_addr b) (b_stubs b) (b_idt b) (h @ ini) = Some (Returns idt ?h1)"
    using x86_64_idt_init_eq [OF len(2), of "b_idt_addr b" "b_stubs b" "h @ ini"] by (auto simp: idt_init_def)
  obtain p ev where mem: "kernel_memory_init d (b_memmap b) (b_pmm b) (b_bitmap b) ?h1 = Some (Returns (Some p) (?h1 @ ev))"
      "list_all serial_event ev" "written ev = memory_log es"
    using kernel_memory_init_returns [OF uart map(2) len(1), of "b_pmm b" ?h1] map(1) by auto
  obtain k q k1 k2 where k: "kmem_init (b_kmem b) (b_heap_addr b) (ucast M8_BOOT_HEAP_SIZE) = (0, k)"
      "kmem_alloc k 128 = Some (q, k1)" "q \<noteq> 0" "kmem_free_checked k1 q = Some (0, k2)"
    using boot_heap_probe [OF heap] by blast
  let ?l1 = "serial_write_string d (nl ''[M8] heap initialized'')"
  let ?l2 = "serial_write_string d (nl ''[M8 SUCCESS] kernel heap alloc/free probe OK'')"
  have main: "kernel_main d b h = io_seq (io_seq ?l1 ?l2) (io_seq cpu_sti halt_loop) (?h1 @ ev)"
    unfolding kernel_main_def io_seq_Returns [where m = serial_init and h = h, OF ini(1)]
      io_bind_Returns [where m = "idt_init (b_idt_addr b) (b_stubs b) (b_idt b)" and h = "h @ ini", OF idt]
      io_bind_Returns [where m = "kernel_memory_init d (b_memmap b) (b_pmm b) (b_bitmap b)" and h = ?h1, OF mem(1)]
    by (simp add: k io_seq_assoc)
  have "prints (io_seq ?l1 ?l2) ((''[M8] heap initialized'' @ [CHR 0x0A]) @
      (''[M8 SUCCESS] kernel heap alloc/free probe OK'' @ [CHR 0x0A]))"
    by (intro prints_seq line) simp_all
  from prints_then [OF this, of "io_seq cpu_sti halt_loop" "?h1 @ ev"]
  obtain fs where fs: "kernel_main d b h = Some (Halts ((?h1 @ ev) @ fs @ [Sti, Hlt]))" "list_all serial_event fs"
      "written fs = (''[M8] heap initialized'' @ [CHR 0x0A]) @
        (''[M8 SUCCESS] kernel heap alloc/free probe OK'' @ [CHR 0x0A])"
    unfolding main by (auto simp: cpu_sti_def io_seq_event halt_loop_def)
  have out: "written (ev @ fs) = boot_log es" by (simp add: mem(3) fs(3) boot_log_def)
  have "\<not> dlab (uart_run (ini @ [Lidt 4095 (b_idt_addr b)]) u)"
    by (simp add: ini(2) dlab_def bit_simps)
  moreover have "u_sent (uart_run (ini @ [Lidt 4095 (b_idt_addr b)]) u) = u_sent u"
    by (simp add: ini(2))
  ultimately have "u_sent (uart_run (ini @ [Lidt 4095 (b_idt_addr b)] @ ev @ fs) u) = u_sent u @ boot_log es"
    using uart_run_serial [of "ev @ fs" "uart_run (ini @ [Lidt 4095 (b_idt_addr b)]) u"] mem(2) fs(2) out
    by simp
  with fs(1,2) mem(2) out show ?thesis
    by (intro exI [of _ ini] exI [of _ "ev @ fs"]) simp
qed

definition sample_env :: boot_env where
  "sample_env = \<lparr>b_memmap = Some [\<lparr>e_base = 0x100000, e_length = 0x100000, e_type = 0\<rparr>],
     b_pmm = sample_pmm, b_bitmap = replicate 0x200000 0, b_idt = blank_idt, b_idt_addr = 0xffffffff80200000,
     b_stubs = sample_stubs, b_kmem = fresh_kmem, b_heap_addr = 0xffffffff80210000\<rparr>"

theorem kernel_main_boots_witness:
  "\<exists>ev. kernel_main slow_uart sample_env [] = Some (Halts (ev @ [Sti, Hlt]))"
proof -
  have "memmap_ok [\<lparr>e_base = 0x100000, e_length = 0x100000, e_type = 0\<rparr>]" by (simp add: memmap_ok_def)
  moreover have "b_memmap sample_env = Some [\<lparr>e_base = 0x100000, e_length = 0x100000, e_type = 0\<rparr>]"
    "length (b_bitmap sample_env) = 0x200000" "length (idt_table (b_idt sample_env)) = 256"
    "heap_array_ok (b_heap_addr sample_env)"
    by (simp_all add: sample_env_def blank_idt_def heap_array_ok_def)
  ultimately show ?thesis
    using kernel_main_boots [OF slow_uart_responsive, of sample_env _ "[]"] by (metis append.assoc append_Nil)
qed

theorem kernel_memory_init_exact_witness:
  "(\<exists>p ev. kernel_memory_init slow_uart (Some [\<lparr>e_base = 0x100000, e_length = 0x2000, e_type = 0\<rparr>]) sample_pmm
      (replicate 0x200000 0) [] = Some (Returns (Some p) ev) \<and> free_set p = {256, 257}) \<and>
   (\<exists>ev. kernel_memory_init slow_uart None sample_pmm (replicate 0x200000 0) [] = Some (Halts (ev @ [Hlt])) \<and>
     written ev = ''[m6] ERROR: no memmap response'' @ [CHR 0x0A])"
proof -
  let ?es = "[\<lparr>e_base = 0x100000, e_length = 0x2000, e_type = 0\<rparr>]"
  have "boot_free ?es = {256, 257}"
    by (auto simp: boot_free_def LIMINE_MEMMAP_USABLE_def frames_inside_def)
  moreover have "memmap_ok ?es" by (simp add: memmap_ok_def)
  ultimately show ?thesis
    using kernel_memory_init_exact [OF slow_uart_responsive, of ?es "replicate 0x200000 0" sample_pmm "[]"]
    by auto
qed

subsection \<open>The other boot path\<close>

lemma early_serial_init_Returns:
  "\<exists>es. early_serial_init h = Some (Returns () (h @ es)) \<and>
    uart_run es u = u\<lparr>u_ier := (if dlab u then u_ier u else 0), u_lcr := 3, u_dll := 3, u_dlm := 0\<rparr>"
proof -
  let ?w = "[(COM1 + 1, 0x00), (COM1 + 3, 0x80), (COM1 + 0, 0x03), (COM1 + 1, 0x00), (COM1 + 3, 0x03)]"
  have "early_serial_init = io_all (map (\<lambda>(p, v). outb p v) ?w)" by (simp add: early_serial_init_def COM1_def)
  then have "early_serial_init h = Some (Returns () (h @ map (\<lambda>(p, v). Out p v) ?w))"
    by (rule ssubst) (rule io_all_outb)
  moreover have "uart_run (map (\<lambda>(p, v). Out p v) ?w) u =
    u\<lparr>u_ier := (if dlab u then u_ier u else 0), u_lcr := 3, u_dll := 3, u_dlm := 0\<rparr>"
    by (simp add: uart_write_def dlab_def bit_simps)
  ultimately show ?thesis by blast
qed

lemma prints_early_lines:
  assumes "list_all nul_free ss"
  shows "prints (io_all (map (\<lambda>s. early_serial_puts (nl s)) ss)) (concat (map (\<lambda>s. s @ [CHR 0x0A]) ss))"
  using early.puts_all [of "map (\<lambda>s. s @ [CHR 0x0A]) ss"] assms by (simp add: nl_def comp_def list.pred_map)

definition m2_log :: string where
  "m2_log = concat (map (\<lambda>s. s @ [CHR 0x0A])
     [''MCSOS 260502 M2 boot path entered'', ''[M2] early serial online''])"

definition m8_log :: string where
  "m8_log = concat (map (\<lambda>s. s @ [CHR 0x0A])
     [''[M4] Triggering manual int3 breakpoint test execution...'',
      ''[M4 SUCCESS] System successfully recovered from breakpoint and continued execution!'',
      ''[M8] heap initialized'', ''[M8 SUCCESS] kernel heap alloc/free probe OK'',
      ''[M2] kernel reached controlled halt loop''])"

text \<open>The other boot path prints all its success lines and reaches its halt loop: the descriptor table is
  loaded, the breakpoint test is delivered through it and returns with the registers it interrupted, and the
  heap probe succeeds.\<close>

theorem kmain_boots:
  assumes len: "length (idt_table (b_idt b)) = 256" and heap: "heap_array_ok (b_heap_addr b)"
    and stubs: "stubs_ok (b_stubs b)" and desc: "kernel_code_segment desc"
  shows "\<exists>ini ev1 ev2. kmain d desc b rsi stk c h =
      Some (Halts (h @ ini @ ev1 @ [Lidt 4095 (b_idt_addr b)] @ ev2 @ [Hlt])) \<and>
    list_all serial_event (ev1 @ ev2) \<and> written ev1 = m2_log \<and> written ev2 = m8_log \<and>
    u_sent (uart_run (ini @ ev1 @ [Lidt 4095 (b_idt_addr b)] @ ev2) u) = u_sent u @ m2_log @ m8_log"
proof -
  obtain ini where ini: "early_serial_init h = Some (Returns () (h @ ini))"
      "uart_run ini u = u\<lparr>u_ier := (if dlab u then u_ier u else 0), u_lcr := 3, u_dll := 3, u_dlm := 0\<rparr>"
    using early_serial_init_Returns [of h u] by blast
  let ?m2 = "io_all (map (\<lambda>s. early_serial_puts (nl s))
      [''MCSOS 260502 M2 boot path entered'', ''[M2] early serial online''])"
  have "prints ?m2 m2_log"
    unfolding m2_log_def by (rule prints_early_lines) simp
  then obtain ev1 where ev1: "?m2 (h @ ini) = Some (Returns () ((h @ ini) @ ev1))" "written ev1 = m2_log"
      "list_all serial_event ev1"
    by (rule printsE)
  let ?h1 = "((h @ ini) @ ev1) @ [Lidt 4095 (b_idt_addr b)]"
  obtain idt where idt: "x86_64_idt_init (b_idt_addr b) (b_stubs b) (b_idt b) ((h @ ini) @ ev1) = Some (Returns idt ?h1)"
      "\<forall>v. x86_deliver desc idt v = (if v < 32 \<and> kernel_code_segment desc then Some (b_stubs b ! v) else None)"
    using x86_64_idt_delivers [OF len, of "b_idt_addr b" "b_stubs b" "(h @ ini) @ ev1" desc] by blast
  obtain k q k1 k2 where k: "kmem_init (b_kmem b) (b_heap_addr b) (ucast M8_BOOT_HEAP_SIZE) = (0, k)"
      "kmem_alloc k 128 = Some (q, k1)" "q \<noteq> 0" "kmem_free_checked k1 q = Some (0, k2)"
    using boot_heap_probe [OF heap] by blast
  have "x86_64_exception d rsi 3 None stk c = io_return c"
    by (rule ext) (simp add: breakpoint_returns, simp add: io_return_def)
  then have int3: "x86_64_interrupt d rsi desc idt (b_stubs b) 3 None stk c = io_return c"
    by (simp add: x86_64_interrupt_def entered_stub_delivered [OF idt(2) stubs desc])
  let ?m8 = "io_all (map (\<lambda>s. early_serial_puts (nl s))
     [''[M4] Triggering manual int3 breakpoint test execution...'',
      ''[M4 SUCCESS] System successfully recovered from breakpoint and continued execution!'',
      ''[M8] heap initialized'', ''[M8 SUCCESS] kernel heap alloc/free probe OK'',
      ''[M2] kernel reached controlled halt loop''])"
  have m8: "prints ?m8 m8_log"
    unfolding m8_log_def by (rule prints_early_lines) simp
  have bind: "io_bind (x86_64_idt_init (b_idt_addr b) (b_stubs b) (b_idt b)) f ((h @ ini) @ ev1) = f idt ?h1" for f :: "idt_state \<Rightarrow> unit io"
    by (rule io_bind_Returns [where m = "x86_64_idt_init (b_idt_addr b) (b_stubs b) (b_idt b)" and h = "(h @ ini) @ ev1", OF idt(1)])
  have m2: "io_seq ?m2 f (h @ ini) = f ((h @ ini) @ ev1)" for f :: "unit io"
    by (rule io_seq_Returns [where m = ?m2 and h = "h @ ini", OF ev1(1)])
  have "kmain d desc b rsi stk c h = io_seq ?m8 halt_loop ?h1"
    using m2 unfolding kmain_def
    by (simp add: k bind [unfolded append_assoc] int3 io_seq_assoc io_seq_Returns [where m = early_serial_init and h = h, OF ini(1)])
  then obtain ev2 where ev2: "kmain d desc b rsi stk c h = Some (Halts (?h1 @ ev2 @ [Hlt]))"
      "list_all serial_event ev2" "written ev2 = m8_log"
    using prints_halts [OF m8, of ?h1] by auto
  let ?u1 = "uart_run ini u"
  have nd: "\<not> dlab ?u1" by (simp add: ini(2) dlab_def bit_simps)
  have r1: "uart_run ev1 ?u1 = ?u1\<lparr>u_sent := u_sent u @ m2_log\<rparr>"
    using uart_run_serial [OF ev1(3) nd] by (simp add: ev1(2) ini(2))
  have "\<not> dlab (uart_run ev1 ?u1)" using nd by (simp add: r1 dlab_def)
  from uart_run_serial [OF ev2(2) this] have
    "u_sent (uart_run (ini @ ev1 @ [Lidt 4095 (b_idt_addr b)] @ ev2) u) = u_sent u @ m2_log @ m8_log"
    by (simp add: r1 ev2(3))
  with ev1 ev2 show ?thesis by (intro exI [of _ ini] exI [of _ ev1] exI [of _ ev2]) simp
qed

theorem kmain_boots_witness:
  "\<exists>ev. kmain slow_uart sample_desc sample_env 0 [] sample_regs [] = Some (Halts (ev @ [Hlt]))"
proof -
  have "length (idt_table (b_idt sample_env)) = 256" "heap_array_ok (b_heap_addr sample_env)"
      "stubs_ok (b_stubs sample_env)"
    by (simp_all add: sample_env_def blank_idt_def heap_array_ok_def sample_stubs_ok)
  from kmain_boots [OF this sample_code_segment, of slow_uart 0 "[]" sample_regs "[]"] show ?thesis by (metis append.assoc)
qed

end
