(* ===== verification/Fifo_Queue.thy ===== *)
theory Fifo_Queue
  imports Main
begin

text \<open>
  The contract of a first-in first-out queue, as a scheduler relies on it: an element is put at
  the end of the contents when it may be queued, the first one is taken out, and the invariant is
  kept. The laws give the order of service once for every implementation.
\<close>

primrec deq_many :: "('s \<Rightarrow> 'a option \<times> 's) \<Rightarrow> nat \<Rightarrow> 's \<Rightarrow> 'a option list \<times> 's" where
  "deq_many deq 0 s = ([], s)"
| "deq_many deq (Suc n) s =
     (let (x, s) = deq s; (xs, s) = deq_many deq n s in (x # xs, s))"

locale fifo_queue =
  fixes inv :: "'s \<Rightarrow> bool"
    and contents :: "'s \<Rightarrow> 'a list"
    and may_enq :: "'a \<Rightarrow> 's \<Rightarrow> bool"
    and enq :: "'a \<Rightarrow> 's \<Rightarrow> 's"
    and deq :: "'s \<Rightarrow> 'a option \<times> 's"
  assumes enq_inv: "inv s \<Longrightarrow> may_enq x s \<Longrightarrow> inv (enq x s)"
    and enq_contents: "inv s \<Longrightarrow> may_enq x s \<Longrightarrow> contents (enq x s) = contents s @ [x]"
    and deq_head: "inv s \<Longrightarrow> contents s = y # ys \<Longrightarrow> fst (deq s) = Some y"
    and deq_contents: "inv s \<Longrightarrow> contents s = y # ys \<Longrightarrow> contents (snd (deq s)) = ys"
    and deq_inv: "inv s \<Longrightarrow> contents s = y # ys \<Longrightarrow> inv (snd (deq s))"
begin

lemma deq_many_order:
  assumes "inv s" and "n \<le> length (contents s)"
  shows "fst (deq_many deq n s) = map Some (take n (contents s)) \<and>
    contents (snd (deq_many deq n s)) = drop n (contents s) \<and> inv (snd (deq_many deq n s))"
  using assms
proof (induction n arbitrary: s)
  case (Suc n)
  then obtain y ys where y: "contents s = y # ys" by (cases "contents s") auto
  obtain x s' where d: "deq s = (x, s')" by (cases "deq s")
  then have s': "x = Some y" "contents s' = ys" "inv s'"
    using Suc.prems y deq_head deq_contents deq_inv by fastforce+
  then show ?case
    using Suc.IH [of s'] Suc.prems y d by (auto split: prod.splits)
qed simp

lemma enq_served_last:
  assumes "inv s" and "may_enq x s"
  shows "fst (deq_many deq (Suc (length (contents s))) (enq x s)) = map Some (contents s @ [x])"
  using deq_many_order [OF enq_inv [OF assms], of "Suc (length (contents s))"]
    enq_contents [OF assms] by simp

end

end
