(* ===== verification/Sched.thy ===== *)
theory Sched
  imports Kernel_Prelude Fifo_Queue
begin

text \<open>
  The cooperative scheduler, \<open>mcsos/kernel/mcsos_thread.c\<close> with \<open>mcsos/include/mcsos_thread.h\<close>
  and the context switch of \<open>mcsos/arch/x86_64/context_switch.S\<close>. Threads live on a heap from
  addresses to \<open>mcsos_thread\<close> records and the ready queue is a singly linked list through their
  \<open>next\<close> fields; NULL is \<open>None\<close>. The callee-saved registers of the CPU are a \<open>mcsos_context\<close>,
  and a context switch stores them into the thread it leaves and loads those of the thread it
  enters. The loop that counts the ready queue may not end on a damaged list, so it is a
  \<open>partial_function\<close> whose value \<open>None\<close> means that it does not return.
\<close>

subsection \<open>Data\<close>

definition MCSOS_THREAD_MAGIC :: u64 where "MCSOS_THREAD_MAGIC = 0x4d43534f53544852"
definition MCSOS_STACK_ALIGN :: u64 where "MCSOS_STACK_ALIGN = 16"
definition MCSOS_MIN_KERNEL_STACK :: u64 where "MCSOS_MIN_KERNEL_STACK = 4096"

datatype mcsos_thread_state =
  MCSOS_THREAD_NEW | MCSOS_THREAD_READY | MCSOS_THREAD_RUNNING | MCSOS_THREAD_BLOCKED
| MCSOS_THREAD_ZOMBIE

datatype mcsos_sched_result =
  MCSOS_SCHED_OK | MCSOS_SCHED_EINVAL | MCSOS_SCHED_ESTATE | MCSOS_SCHED_ESTACK
| MCSOS_SCHED_ECORRUPT

record mcsos_context =
  rsp :: u64
  rbp :: u64
  rbx :: u64
  r12 :: u64
  r13 :: u64
  r14 :: u64
  r15 :: u64
  rip :: u64

record mcsos_thread =
  t_magic :: u64
  t_id :: u64
  t_name :: string
  t_state :: mcsos_thread_state
  t_context :: mcsos_context
  t_entry :: "u64 option"
  t_arg :: u64
  t_stack_base :: u64
  t_stack_size :: u64
  t_next :: "nat option"
  t_switches :: u64
  t_ticks :: u64
  t_exit_code :: int

record mcsos_scheduler =
  current :: "nat option"
  idle :: "nat option"
  ready_head :: "nat option"
  ready_tail :: "nat option"
  next_id :: u64
  runnable_count :: u64
  context_switches :: u64
  s_ticks :: u64
  initialized :: bool

type_synonym thread_heap = "nat \<Rightarrow> mcsos_thread"

subsection \<open>Threads\<close>

definition align_down_uintptr :: "u64 \<Rightarrow> u64 \<Rightarrow> u64" where
  "align_down_uintptr val alignment = val AND NOT (alignment - 1)"

definition valid_thread_object :: "thread_heap \<Rightarrow> nat option \<Rightarrow> bool" where
  "valid_thread_object h t =
     (case t of None \<Rightarrow> False | Some p \<Rightarrow> t_magic (h p) = MCSOS_THREAD_MAGIC)"

definition zero_context :: mcsos_context where
  "zero_context =
     \<lparr>rsp = 0, rbp = 0, rbx = 0, r12 = 0, r13 = 0, r14 = 0, r15 = 0, rip = 0\<rparr>"

definition mcsos_scheduler_init ::
  "mcsos_scheduler option \<Rightarrow> nat option \<Rightarrow> thread_heap
     \<Rightarrow> mcsos_sched_result \<times> mcsos_scheduler option \<times> thread_heap" where
  "mcsos_scheduler_init sched boot_thread h =
     (case (sched, boot_thread) of
        (Some s, Some b) \<Rightarrow>
          (MCSOS_SCHED_OK,
           Some (s\<lparr>current := Some b, idle := Some b, ready_head := None, ready_tail := None,
                  next_id := 1, runnable_count := 0, context_switches := 0, s_ticks := 0,
                  initialized := True\<rparr>),
           h(b := (h b)\<lparr>t_magic := MCSOS_THREAD_MAGIC, t_id := 0, t_name := ''boot'',
                  t_state := MCSOS_THREAD_RUNNING, t_entry := None, t_arg := 0,
                  t_stack_base := 0, t_stack_size := 0, t_next := None, t_switches := 0,
                  t_ticks := 0, t_exit_code := 0, t_context := zero_context\<rparr>))
      | _ \<Rightarrow> (MCSOS_SCHED_EINVAL, sched, h))"

text \<open>
  \<open>mcsos_thread_prepare\<close> writes one 64-bit zero at the top of the new stack: \<open>mem\<close> is memory by
  address. The address of the trampoline is a parameter; a null \<open>stack_base\<close> is address 0.
\<close>

definition mcsos_thread_prepare ::
  "u64 \<Rightarrow> thread_heap \<Rightarrow> (u64 \<Rightarrow> u64) \<Rightarrow> nat option \<Rightarrow> string \<Rightarrow> u64 option \<Rightarrow> u64 \<Rightarrow> u64 \<Rightarrow> u64 \<Rightarrow> u64
     \<Rightarrow> mcsos_sched_result \<times> thread_heap \<times> (u64 \<Rightarrow> u64)" where
  "mcsos_thread_prepare trampoline h mem thread name entry arg stack_base stack_size tid =
     (case thread of
        None \<Rightarrow> (MCSOS_SCHED_EINVAL, h, mem)
      | Some p \<Rightarrow>
          if entry = None \<or> stack_base = 0 then (MCSOS_SCHED_EINVAL, h, mem)
          else if stack_size < MCSOS_MIN_KERNEL_STACK then (MCSOS_SCHED_ESTACK, h, mem)
          else
            let low = stack_base; high = low + stack_size in
            if high \<le> low then (MCSOS_SCHED_ESTACK, h, mem)
            else
              let top = align_down_uintptr high MCSOS_STACK_ALIGN in
              if top \<le> low + 128 then (MCSOS_SCHED_ESTACK, h, mem)
              else
                let top = top - 8 in
                (MCSOS_SCHED_OK,
                 h(p := (h p)\<lparr>t_magic := MCSOS_THREAD_MAGIC, t_id := tid, t_name := name,
                      t_state := MCSOS_THREAD_NEW,
                      t_context := zero_context\<lparr>rsp := top, rip := trampoline\<rparr>,
                      t_entry := entry, t_arg := arg, t_stack_base := stack_base,
                      t_stack_size := stack_size, t_next := None, t_switches := 0,
                      t_ticks := 0, t_exit_code := 0\<rparr>),
                 mem(top := 0)))"

text \<open>
  The context switch stores the callee-saved registers and the address of its own label \<open>1\<close>
  into the old context, loads the new one and jumps to its \<open>rip\<close>.
\<close>

definition mcsos_context_switch ::
  "u64 \<Rightarrow> nat \<Rightarrow> nat \<Rightarrow> thread_heap \<Rightarrow> mcsos_context \<Rightarrow> thread_heap \<times> mcsos_context" where
  "mcsos_context_switch resume old new h cpu =
     (let h = h(old := (h old)\<lparr>t_context := \<lparr>rsp = rsp cpu, rbp = rbp cpu, rbx = rbx cpu,
                  r12 = r12 cpu, r13 = r13 cpu, r14 = r14 cpu, r15 = r15 cpu, rip = resume\<rparr>\<rparr>)
      in (h, cpu\<lparr>rsp := rsp (t_context (h new)), rbp := rbp (t_context (h new)),
                 rbx := rbx (t_context (h new)), r12 := r12 (t_context (h new)),
                 r13 := r13 (t_context (h new)), r14 := r14 (t_context (h new)),
                 r15 := r15 (t_context (h new)), rip := rip (t_context (h new))\<rparr>))"

subsection \<open>The ready queue\<close>

definition mcsos_sched_enqueue ::
  "mcsos_scheduler option \<Rightarrow> nat option \<Rightarrow> thread_heap
     \<Rightarrow> mcsos_sched_result \<times> mcsos_scheduler option \<times> thread_heap" where
  "mcsos_sched_enqueue sched thread h =
     (case (sched, thread) of
        (Some s, Some p) \<Rightarrow>
          if \<not> initialized s \<or> \<not> valid_thread_object h thread then (MCSOS_SCHED_EINVAL, sched, h)
          else if t_state (h p) \<noteq> MCSOS_THREAD_NEW \<and> t_state (h p) \<noteq> MCSOS_THREAD_READY \<and>
                  t_state (h p) \<noteq> MCSOS_THREAD_BLOCKED
          then (MCSOS_SCHED_ESTATE, sched, h)
          else
            let h = h(p := (h p)\<lparr>t_state := MCSOS_THREAD_READY, t_next := None\<rparr>);
                (s, h) =
                  (case ready_tail s of
                     None \<Rightarrow> (s\<lparr>ready_head := thread, ready_tail := thread\<rparr>, h)
                   | Some q \<Rightarrow> (s\<lparr>ready_tail := thread\<rparr>, h(q := (h q)\<lparr>t_next := thread\<rparr>)))
            in (MCSOS_SCHED_OK, Some (s\<lparr>runnable_count := runnable_count s + 1\<rparr>), h)
      | _ \<Rightarrow> (MCSOS_SCHED_EINVAL, sched, h))"

definition mcsos_sched_pick_next ::
  "mcsos_scheduler option \<Rightarrow> thread_heap \<Rightarrow> nat option \<times> mcsos_scheduler option \<times> thread_heap" where
  "mcsos_sched_pick_next sched h =
     (case sched of
        None \<Rightarrow> (None, sched, h)
      | Some s \<Rightarrow>
          if \<not> initialized s then (None, sched, h)
          else (case ready_head s of
            None \<Rightarrow> (idle s, sched, h)
          | Some p \<Rightarrow>
              let s = s\<lparr>ready_head := t_next (h p)\<rparr>;
                  s = (if ready_head s = None then s\<lparr>ready_tail := None\<rparr> else s);
                  h = h(p := (h p)\<lparr>t_next := None\<rparr>);
                  s = (if runnable_count s > 0
                       then s\<lparr>runnable_count := runnable_count s - 1\<rparr> else s)
              in (Some p, Some s, h)))"

text \<open>
  The state of the machine the scheduler runs on. The label the context switch saves is the
  parameter \<open>resume\<close>.
\<close>

record sched_machine =
  m_sched :: "mcsos_scheduler option"
  m_heap :: thread_heap
  m_cpu :: mcsos_context

text \<open>The part of \<open>mcsos_sched_yield\<close> after the old thread is back in the queue.\<close>

definition switch_to :: "u64 \<Rightarrow> nat \<Rightarrow> nat \<Rightarrow> mcsos_scheduler \<Rightarrow> thread_heap \<Rightarrow> mcsos_context \<Rightarrow> sched_machine" where
  "switch_to resume old new s h cpu =
     (let h = h(new := (h new)\<lparr>t_state := MCSOS_THREAD_RUNNING\<rparr>);
          s = s\<lparr>current := Some new\<rparr>;
          h = h(old := (h old)\<lparr>t_switches := t_switches (h old) + 1\<rparr>);
          h = h(new := (h new)\<lparr>t_switches := t_switches (h new) + 1\<rparr>);
          s = s\<lparr>context_switches := context_switches s + 1\<rparr>;
          (h, cpu) = mcsos_context_switch resume old new h cpu
      in \<lparr>m_sched = Some s, m_heap = h, m_cpu = cpu\<rparr>)"

definition mcsos_sched_yield :: "u64 \<Rightarrow> sched_machine \<Rightarrow> mcsos_sched_result \<times> sched_machine" where
  "mcsos_sched_yield resume m =
     (case m_sched m of
        None \<Rightarrow> (MCSOS_SCHED_EINVAL, m)
      | Some s \<Rightarrow>
          if \<not> initialized s \<or> \<not> valid_thread_object (m_heap m) (current s)
          then (MCSOS_SCHED_EINVAL, m)
          else
            let old = the (current s);
                (next, s', h) = mcsos_sched_pick_next (m_sched m) (m_heap m)
            in if \<not> valid_thread_object h next
               then (MCSOS_SCHED_ECORRUPT, m\<lparr>m_sched := s', m_heap := h\<rparr>)
               else if next = Some old
               then (MCSOS_SCHED_OK, m\<lparr>m_sched := s',
                       m_heap := h(old := (h old)\<lparr>t_state := MCSOS_THREAD_RUNNING\<rparr>)\<rparr>)
               else
                 let (rc, s', h) =
                   (if t_state (h old) = MCSOS_THREAD_RUNNING \<and> Some old \<noteq> idle (the s')
                    then mcsos_sched_enqueue s' (Some old)
                           (h(old := (h old)\<lparr>t_state := MCSOS_THREAD_READY\<rparr>))
                    else (MCSOS_SCHED_OK, s', h))
                 in if rc \<noteq> MCSOS_SCHED_OK then (rc, m\<lparr>m_sched := s', m_heap := h\<rparr>)
                    else (MCSOS_SCHED_OK, switch_to resume old (the next) (the s') h (m_cpu m)))"

definition mcsos_sched_tick :: "sched_machine \<Rightarrow> mcsos_sched_result \<times> sched_machine" where
  "mcsos_sched_tick m =
     (case m_sched m of
        None \<Rightarrow> (MCSOS_SCHED_EINVAL, m)
      | Some s \<Rightarrow>
          if \<not> initialized s \<or> \<not> valid_thread_object (m_heap m) (current s)
          then (MCSOS_SCHED_EINVAL, m)
          else
            let c = the (current s); h = m_heap m in
            (MCSOS_SCHED_OK,
             m\<lparr>m_sched := Some (s\<lparr>s_ticks := s_ticks s + 1\<rparr>),
               m_heap := h(c := (h c)\<lparr>t_ticks := t_ticks (h c) + 1\<rparr>)\<rparr>))"

definition mcsos_thread_block_current :: "u64 \<Rightarrow> sched_machine \<Rightarrow> mcsos_sched_result \<times> sched_machine" where
  "mcsos_thread_block_current resume m =
     (case m_sched m of
        None \<Rightarrow> (MCSOS_SCHED_EINVAL, m)
      | Some s \<Rightarrow>
          if \<not> initialized s \<or> \<not> valid_thread_object (m_heap m) (current s)
          then (MCSOS_SCHED_EINVAL, m)
          else if current s = idle s then (MCSOS_SCHED_ESTATE, m)
          else
            let c = the (current s); h = m_heap m in
            mcsos_sched_yield resume
              (m\<lparr>m_heap := h(c := (h c)\<lparr>t_state := MCSOS_THREAD_BLOCKED\<rparr>)\<rparr>))"

definition mcsos_thread_mark_ready ::
  "mcsos_scheduler option \<Rightarrow> nat option \<Rightarrow> thread_heap
     \<Rightarrow> mcsos_sched_result \<times> mcsos_scheduler option \<times> thread_heap" where
  "mcsos_thread_mark_ready sched thread h =
     (if \<not> valid_thread_object h thread then (MCSOS_SCHED_EINVAL, sched, h)
      else if t_state (h (the thread)) \<noteq> MCSOS_THREAD_BLOCKED then (MCSOS_SCHED_ESTATE, sched, h)
      else mcsos_sched_enqueue sched thread h)"

partial_function (option) ready_count_loop :: "thread_heap \<Rightarrow> nat option \<Rightarrow> nat \<Rightarrow> nat option" where
  "ready_count_loop h cur n =
     (case cur of None \<Rightarrow> Some n | Some p \<Rightarrow> ready_count_loop h (t_next (h p)) (n + 1))"

definition mcsos_sched_ready_count :: "mcsos_scheduler option \<Rightarrow> thread_heap \<Rightarrow> nat option" where
  "mcsos_sched_ready_count sched h =
     (case sched of
        None \<Rightarrow> Some 0
      | Some s \<Rightarrow> if \<not> initialized s then Some 0 else ready_count_loop h (ready_head s) 0)"

function validate_loop ::
  "thread_heap \<Rightarrow> mcsos_scheduler \<Rightarrow> nat option \<Rightarrow> nat option \<Rightarrow> nat \<Rightarrow> mcsos_sched_result" where
  "validate_loop h s cursor last_seen n =
     (case cursor of
        None \<Rightarrow>
          if last_seen \<noteq> ready_tail s then MCSOS_SCHED_ECORRUPT
          else if n \<noteq> unat (runnable_count s) then MCSOS_SCHED_ECORRUPT
          else MCSOS_SCHED_OK
      | Some p \<Rightarrow>
          if \<not> valid_thread_object h cursor \<or> t_state (h p) \<noteq> MCSOS_THREAD_READY
          then MCSOS_SCHED_ECORRUPT
          else if cursor = current s then MCSOS_SCHED_ECORRUPT
          else if n + 1 > unat (runnable_count s + 1) then MCSOS_SCHED_ECORRUPT
          else validate_loop h s (t_next (h p)) cursor (n + 1))"
  by pat_completeness auto
termination
  by (relation "measure (\<lambda>(h, s, cursor, last_seen, n). unat (runnable_count s + 1) + 1 - n)") auto

declare validate_loop.simps [simp del]

definition mcsos_sched_validate :: "mcsos_scheduler option \<Rightarrow> thread_heap \<Rightarrow> mcsos_sched_result" where
  "mcsos_sched_validate sched h =
     (case sched of
        None \<Rightarrow> MCSOS_SCHED_EINVAL
      | Some s \<Rightarrow>
          if \<not> initialized s \<or> \<not> valid_thread_object h (current s) then MCSOS_SCHED_EINVAL
          else validate_loop h s (ready_head s) None 0)"

subsection \<open>Linked lists on the heap\<close>

fun seg :: "thread_heap \<Rightarrow> nat option \<Rightarrow> nat list \<Rightarrow> nat option \<Rightarrow> bool" where
  "seg h c [] d \<longleftrightarrow> c = d"
| "seg h c (p # ps) d \<longleftrightarrow> c = Some p \<and> seg h (t_next (h p)) ps d"

fun walk :: "thread_heap \<Rightarrow> nat option \<Rightarrow> nat \<Rightarrow> nat list" where
  "walk h (Some p) (Suc n) = p # walk h (t_next (h p)) n"
| "walk h _ _ = []"

lemma seg_append: "seg h c (xs @ ys) d \<longleftrightarrow> (\<exists>e. seg h c xs e \<and> seg h e ys d)"
  by (induction xs arbitrary: c) auto

lemma seg_cong: "(\<And>p. p \<in> set q \<Longrightarrow> t_next (h' p) = t_next (h p)) \<Longrightarrow> seg h' c q d = seg h c q d"
  by (induction q arbitrary: c) auto

lemma walk_seg: "seg h c q None \<Longrightarrow> walk h c (length q) = q"
  by (induction q arbitrary: c) auto

lemma seg_unique: "seg h c q None \<Longrightarrow> seg h c q' None \<Longrightarrow> q = q'"
proof (induction q arbitrary: c q')
  case Nil
  then show ?case by (cases q') auto
next
  case (Cons p q)
  then show ?case by (cases q') auto
qed

text \<open>A list that ends in NULL has no thread twice.\<close>

lemma seg_None_distinct: "seg h c q None \<Longrightarrow> distinct q"
proof (induction q arbitrary: c)
  case (Cons p q)
  have "p \<notin> set q"
  proof
    assume "p \<in> set q"
    then obtain xs ys where q: "q = xs @ p # ys" by (auto simp: in_set_conv_decomp)
    then have "seg h (t_next (h p)) ys None" "seg h (t_next (h p)) q None"
      using Cons.prems by (auto simp: seg_append)
    then have "ys = q" by (rule seg_unique)
    then show False using q by (metis append_eq_Cons_conv length_append length_Cons less_irrefl
          not_add_less2 plus_nat.simps(2) less_Suc_eq)
  qed
  with Cons show ?case by auto
qed simp

subsection \<open>The invariant of the scheduler\<close>

definition queue_wf :: "thread_heap \<Rightarrow> mcsos_scheduler \<Rightarrow> nat list \<Rightarrow> bool" where
  "queue_wf h s q \<longleftrightarrow>
     seg h (ready_head s) q None \<and>
     ready_tail s = (if q = [] then None else Some (last q)) \<and>
     unat (runnable_count s) = length q \<and>
     (\<forall>p \<in> set q. t_magic (h p) = MCSOS_THREAD_MAGIC \<and> t_state (h p) = MCSOS_THREAD_READY \<and>
        Some p \<noteq> current s)"

definition sched_inv :: "thread_heap \<Rightarrow> mcsos_scheduler \<Rightarrow> nat list \<Rightarrow> bool" where
  "sched_inv h s q \<longleftrightarrow>
     initialized s \<and> queue_wf h s q \<and> valid_thread_object h (current s) \<and>
     valid_thread_object h (idle s) \<and> the (idle s) \<notin> set q \<and>
     (current s \<noteq> idle s \<longrightarrow> t_state (h (the (current s))) \<noteq> MCSOS_THREAD_READY)"

definition ready_list :: "thread_heap \<Rightarrow> mcsos_scheduler \<Rightarrow> nat list" where
  "ready_list h s = walk h (ready_head s) (unat (runnable_count s))"

lemma ready_list_eq: "queue_wf h s q \<Longrightarrow> ready_list h s = q"
  by (simp add: queue_wf_def ready_list_def walk_seg)

lemma valid_Some: "valid_thread_object h (Some p) \<longleftrightarrow> t_magic (h p) = MCSOS_THREAD_MAGIC"
  by (simp add: valid_thread_object_def)

definition can_enqueue :: "thread_heap \<Rightarrow> mcsos_scheduler \<Rightarrow> nat list \<Rightarrow> nat \<Rightarrow> bool" where
  "can_enqueue h s q p \<longleftrightarrow>
     t_magic (h p) = MCSOS_THREAD_MAGIC \<and> p \<notin> set q \<and> Some p \<noteq> current s \<and>
     t_state (h p) \<in> {MCSOS_THREAD_NEW, MCSOS_THREAD_READY, MCSOS_THREAD_BLOCKED} \<and>
     length q + 1 < 2 ^ 64"

text \<open>The heap and the scheduler after an enqueue.\<close>

lemma enqueue_queue:
  assumes wf: "queue_wf h s q" and init: "initialized s" and p: "t_magic (h p) = MCSOS_THREAD_MAGIC" "p \<notin> set q"
    "t_state (h p) \<in> {MCSOS_THREAD_NEW, MCSOS_THREAD_READY, MCSOS_THREAD_BLOCKED}"
    and room: "length q + 1 < 2 ^ 64"
  obtains s' h' where "mcsos_sched_enqueue (Some s) (Some p) h = (MCSOS_SCHED_OK, Some s', h')"
    "seg h' (ready_head s') (q @ [p]) None" "ready_tail s' = Some p"
    "unat (runnable_count s') = length (q @ [p])"
    "current s' = current s" "idle s' = idle s" "initialized s'"
    "\<And>r. t_magic (h' r) = t_magic (h r)" "\<And>r. r \<noteq> p \<Longrightarrow> t_state (h' r) = t_state (h r)"
    "t_state (h' p) = MCSOS_THREAD_READY" "\<And>r. t_context (h' r) = t_context (h r)"
    "context_switches s' = context_switches s" "\<And>r. t_switches (h' r) = t_switches (h r)"
proof -
  have cnt: "unat (runnable_count s + 1) = length q + 1"
    using wf room by (simp add: queue_wf_def unat_add_no_wrap)
  define h1 where "h1 = h(p := (h p)\<lparr>t_state := MCSOS_THREAD_READY, t_next := None\<rparr>)"
  have seg: "seg h (ready_head s) q None" and tail: "ready_tail s = (if q = [] then None else Some (last q))"
    using wf by (auto simp: queue_wf_def)
  show thesis
  proof (cases q rule: rev_cases)
    case Nil
    then have "mcsos_sched_enqueue (Some s) (Some p) h =
        (MCSOS_SCHED_OK, Some (s\<lparr>ready_head := Some p, ready_tail := Some p,
           runnable_count := runnable_count s + 1\<rparr>), h1)"
      using init p tail by (auto simp: mcsos_sched_enqueue_def valid_Some h1_def)
    then show thesis
      using that cnt Nil by (simp add: h1_def init)
  next
    case (snoc ys l)
    then have lp: "l \<noteq> p" "l \<notin> set ys" using p(2) seg_None_distinct [OF seg] by auto
    let ?h = "h1(l := (h1 l)\<lparr>t_next := Some p\<rparr>)"
    have enq: "mcsos_sched_enqueue (Some s) (Some p) h =
        (MCSOS_SCHED_OK, Some (s\<lparr>ready_tail := Some p, runnable_count := runnable_count s + 1\<rparr>), ?h)"
      using init p tail snoc by (auto simp: mcsos_sched_enqueue_def valid_Some h1_def)
    have nx: "t_next (?h r) = t_next (h r)" if "r \<in> set ys" for r
      using that lp p(2) snoc by (auto simp: h1_def)
    have "seg ?h (ready_head s) ys (Some l)"
      using seg snoc seg_cong [of ys ?h h "ready_head s" "Some l", OF nx] by (auto simp: seg_append)
    then have "seg ?h (ready_head s) (q @ [p]) None"
      using lp snoc by (auto simp: seg_append h1_def)
    then show thesis
      using that [OF enq] cnt lp snoc by (simp add: h1_def init)
  qed
qed

lemma pick_next_Cons:
  assumes wf: "queue_wf h s (p # q)" and init: "initialized s"
  obtains s' h' where "mcsos_sched_pick_next (Some s) h = (Some p, Some s', h')"
    "queue_wf h' s' q" "current s' = current s" "idle s' = idle s" "initialized s'"
    "\<And>r. t_magic (h' r) = t_magic (h r)" "\<And>r. t_state (h' r) = t_state (h r)"
    "\<And>r. t_context (h' r) = t_context (h r)"
    "context_switches s' = context_switches s" "\<And>r. t_switches (h' r) = t_switches (h r)"
proof -
  have seg: "ready_head s = Some p" "seg h (t_next (h p)) q None" "p \<notin> set q"
    and tail: "ready_tail s = Some (last (p # q))" and cnt: "unat (runnable_count s) = Suc (length q)"
    using wf seg_None_distinct [of h "ready_head s" "p # q"] by (auto simp: queue_wf_def)
  have pos: "runnable_count s > 0" using cnt by (metis unat_0 word_gt_0 nat.distinct(1))
  have dec: "unat (runnable_count s - 1) = length q"
    using cnt pos by (metis diff_Suc_1 unat_minus_one word_gt_0)
  define h' where "h' = h(p := (h p)\<lparr>t_next := None\<rparr>)"
  define s' where "s' = s\<lparr>ready_head := t_next (h p),
    ready_tail := (if t_next (h p) = None then None else ready_tail s),
    runnable_count := runnable_count s - 1\<rparr>"
  have "mcsos_sched_pick_next (Some s) h = (Some p, Some s', h')"
    using init seg(1) pos by (simp add: mcsos_sched_pick_next_def Let_def h'_def s'_def)
  moreover have nx: "t_next (h' r) = t_next (h r)" if "r \<in> set q" for r
    using that seg(3) by (auto simp: h'_def)
  then have "seg h' (t_next (h p)) q None"
    using seg(2) seg_cong [of q h' h "t_next (h p)" None, OF nx] by simp
  then have "queue_wf h' s' q"
    using wf tail dec seg(2) by (cases q) (auto simp: queue_wf_def s'_def h'_def)
  ultimately show thesis
    using that by (simp add: s'_def h'_def init)
qed

lemma pick_next_Nil:
  "queue_wf h s [] \<Longrightarrow> initialized s \<Longrightarrow> mcsos_sched_pick_next (Some s) h = (idle s, Some s, h)"
  by (simp add: mcsos_sched_pick_next_def queue_wf_def)

subsection \<open>Yielding\<close>

lemma switch_to_effect:
  assumes "old \<noteq> new"
  obtains s' h' where "switch_to resume old new s h cpu = \<lparr>m_sched = Some s', m_heap = h', m_cpu = t_context (h new)\<rparr>"
    "s' = s\<lparr>current := Some new, context_switches := context_switches s + 1\<rparr>"
    "\<And>r. t_next (h' r) = t_next (h r)" "\<And>r. t_magic (h' r) = t_magic (h r)"
    "t_state (h' new) = MCSOS_THREAD_RUNNING" "\<And>r. r \<noteq> new \<Longrightarrow> t_state (h' r) = t_state (h r)"
    "t_context (h' old) = cpu\<lparr>rip := resume\<rparr>" "\<And>r. r \<noteq> old \<Longrightarrow> t_context (h' r) = t_context (h r)"
proof -
  define h' where "h' = h
      (new := (h new)\<lparr>t_state := MCSOS_THREAD_RUNNING, t_switches := t_switches (h new) + 1\<rparr>,
       old := (h old)\<lparr>t_switches := t_switches (h old) + 1, t_context := cpu\<lparr>rip := resume\<rparr>\<rparr>)"
  have cpu: "\<lparr>rsp = rsp c, rbp = rbp c, rbx = rbx c, r12 = r12 c, r13 = r13 c, r14 = r14 c,
      r15 = r15 c, rip = x\<rparr> = c\<lparr>rip := x\<rparr>" for c :: mcsos_context and x by (cases c) simp
  have load: "c\<lparr>rsp := rsp d, rbp := rbp d, rbx := rbx d, r12 := r12 d, r13 := r13 d, r14 := r14 d,
      r15 := r15 d, rip := rip d\<rparr> = d" for c d :: mcsos_context by (cases c; cases d) simp
  have "switch_to resume old new s h cpu =
      \<lparr>m_sched = Some (s\<lparr>current := Some new, context_switches := context_switches s + 1\<rparr>),
       m_heap = h', m_cpu = t_context (h new)\<rparr>"
    using assms by (simp add: switch_to_def mcsos_context_switch_def h'_def cpu load Let_def
        fun_upd_twist)
  then show thesis by (rule that) (use assms in \<open>auto simp: h'_def\<close>)
qed

lemma queue_wf_transfer:
  assumes "queue_wf h s q"
    and "\<And>r. t_next (h' r) = t_next (h r)" and "\<And>r. t_magic (h' r) = t_magic (h r)"
    and "\<And>r. r \<in> set q \<Longrightarrow> t_state (h' r) = t_state (h r)"
    and "ready_head s' = ready_head s" "ready_tail s' = ready_tail s"
      "runnable_count s' = runnable_count s" "the (current s') \<notin> set q" "current s' \<noteq> None"
  shows "queue_wf h' s' q"
  using assms seg_cong [of q h' h "ready_head s" None, OF assms(2)] by (auto simp: queue_wf_def)

definition next_thread :: "mcsos_scheduler \<Rightarrow> nat list \<Rightarrow> nat" where
  "next_thread s q = (case q of [] \<Rightarrow> the (idle s) | p # _ \<Rightarrow> p)"

definition requeued :: "thread_heap \<Rightarrow> mcsos_scheduler \<Rightarrow> nat list" where
  "requeued h s =
     (if t_state (h (the (current s))) = MCSOS_THREAD_RUNNING \<and> current s \<noteq> idle s
      then [the (current s)] else [])"

lemma sched_invD:
  assumes "sched_inv h s q"
  obtains c i where "current s = Some c" "idle s = Some i" "initialized s" "queue_wf h s q"
    "t_magic (h c) = MCSOS_THREAD_MAGIC" "t_magic (h i) = MCSOS_THREAD_MAGIC" "i \<notin> set q" "c \<notin> set q"
  using assms by (auto simp: sched_inv_def valid_thread_object_def queue_wf_def split: option.splits)

text \<open>Taking the next thread from the queue, or the idle thread from an empty one.\<close>

lemma pick_next_effect:
  assumes inv: "sched_inv h s q"
  obtains s' h' where "mcsos_sched_pick_next (Some s) h = (Some (next_thread s q), Some s', h')"
    "queue_wf h' s' (tl q)" "current s' = current s" "idle s' = idle s" "initialized s'"
    "\<And>r. t_magic (h' r) = t_magic (h r)" "\<And>r. t_state (h' r) = t_state (h r)"
    "\<And>r. t_context (h' r) = t_context (h r)"
    "t_magic (h' (next_thread s q)) = MCSOS_THREAD_MAGIC"
proof -
  obtain c i where D: "current s = Some c" "idle s = Some i" "initialized s" "queue_wf h s q"
      "t_magic (h i) = MCSOS_THREAD_MAGIC" using sched_invD [OF inv] by metis
  show thesis
  proof (cases q)
    case Nil
    then show thesis
      using that [of s h] pick_next_Nil [of h s] D by (simp add: next_thread_def)
  next
    case (Cons p ps)
    then have "t_magic (h p) = MCSOS_THREAD_MAGIC" using D(4) by (simp add: queue_wf_def)
    moreover obtain s' h' where "mcsos_sched_pick_next (Some s) h = (Some p, Some s', h')"
        "queue_wf h' s' ps" "current s' = current s" "idle s' = idle s" "initialized s'"
        "\<And>r. t_magic (h' r) = t_magic (h r)" "\<And>r. t_state (h' r) = t_state (h r)"
        "\<And>r. t_context (h' r) = t_context (h r)"
      using pick_next_Cons [of h s p ps] D(3,4) Cons by metis
    ultimately show thesis
      using that [of s' h'] Cons by (simp add: next_thread_def)
  qed
qed

text \<open>Putting the old thread back, when it is running and is not the idle thread.\<close>

lemma requeue_effect:
  assumes wf: "queue_wf h s q" and init: "initialized s" and c: "current s = Some c" "c \<notin> set q"
      "t_magic (h c) = MCSOS_THREAD_MAGIC"
    and room: "length q + 1 < 2 ^ 64"
  obtains s' h' where
    "(if t_state (h c) = MCSOS_THREAD_RUNNING \<and> Some c \<noteq> idle s
      then mcsos_sched_enqueue (Some s) (Some c) (h(c := (h c)\<lparr>t_state := MCSOS_THREAD_READY\<rparr>))
      else (MCSOS_SCHED_OK, Some s, h)) = (MCSOS_SCHED_OK, Some s', h')"
    "seg h' (ready_head s') (q @ requeued h s) None"
    "ready_tail s' = (if q @ requeued h s = [] then None else Some (last (q @ requeued h s)))"
    "unat (runnable_count s') = length (q @ requeued h s)"
    "current s' = current s" "idle s' = idle s" "initialized s'"
    "\<And>r. t_magic (h' r) = t_magic (h r)" "\<And>r. r \<noteq> c \<Longrightarrow> t_state (h' r) = t_state (h r)"
    "t_state (h' c) = (if requeued h s = [] then t_state (h c) else MCSOS_THREAD_READY)"
    "\<And>r. t_context (h' r) = t_context (h r)"
proof (cases "t_state (h c) = MCSOS_THREAD_RUNNING \<and> Some c \<noteq> idle s")
  case False
  then show thesis
    using that [of s h] wf init c by (auto simp: requeued_def queue_wf_def)
next
  case True
  let ?h = "h(c := (h c)\<lparr>t_state := MCSOS_THREAD_READY\<rparr>)"
  have nx: "t_next (?h r) = t_next (h r)" for r by simp
  have "queue_wf ?h s q"
    using wf c by (intro queue_wf_transfer [OF wf nx]) (auto)
  then obtain s' h' where "mcsos_sched_enqueue (Some s) (Some c) ?h = (MCSOS_SCHED_OK, Some s', h')"
    "seg h' (ready_head s') (q @ [c]) None" "ready_tail s' = Some c"
    "unat (runnable_count s') = length (q @ [c])"
    "current s' = current s" "idle s' = idle s" "initialized s'"
    "\<And>r. t_magic (h' r) = t_magic (?h r)" "\<And>r. r \<noteq> c \<Longrightarrow> t_state (h' r) = t_state (?h r)"
    "t_state (h' c) = MCSOS_THREAD_READY" "\<And>r. t_context (h' r) = t_context (?h r)"
    using enqueue_queue [of ?h s q c] init c room by (simp split del: if_split) metis
  then show thesis
    using that [of s' h'] True c(1) by (simp add: requeued_def)
qed

lemma yield_effect:
  assumes inv: "sched_inv h s q" and c: "current s = Some c" and nc: "next_thread s q \<noteq> c"
  obtains s' h' where
    "mcsos_sched_yield resume \<lparr>m_sched = Some s, m_heap = h, m_cpu = cpu\<rparr> =
       (MCSOS_SCHED_OK, \<lparr>m_sched = Some s', m_heap = h', m_cpu = t_context (h (next_thread s q))\<rparr>)"
    "sched_inv h' s' (tl q @ requeued h s)" "current s' = Some (next_thread s q)" "idle s' = idle s"
    "t_state (h' (next_thread s q)) = MCSOS_THREAD_RUNNING"
    "\<And>r. r \<noteq> c \<Longrightarrow> r \<noteq> next_thread s q \<Longrightarrow> t_state (h' r) = t_state (h r)"
    "t_state (h' c) = (if requeued h s = [] then t_state (h c) else MCSOS_THREAD_READY)"
    "t_context (h' c) = cpu\<lparr>rip := resume\<rparr>" "\<And>r. r \<noteq> c \<Longrightarrow> t_context (h' r) = t_context (h r)"
proof -
  let ?n = "next_thread s q" and ?q = "tl q @ requeued h s"
  obtain i where D: "idle s = Some i" "initialized s" "queue_wf h s q"
      "t_magic (h c) = MCSOS_THREAD_MAGIC" "t_magic (h i) = MCSOS_THREAD_MAGIC" "i \<notin> set q" "c \<notin> set q"
    using sched_invD [OF inv] c by (metis option.inject)
  obtain s1 h1 where p: "mcsos_sched_pick_next (Some s) h = (Some ?n, Some s1, h1)"
    "queue_wf h1 s1 (tl q)" "current s1 = current s" "idle s1 = idle s" "initialized s1"
    "\<And>r. t_magic (h1 r) = t_magic (h r)" "\<And>r. t_state (h1 r) = t_state (h r)"
    "\<And>r. t_context (h1 r) = t_context (h r)" "t_magic (h1 ?n) = MCSOS_THREAD_MAGIC"
    using pick_next_effect [OF inv] by metis
  have cq: "c \<notin> set (tl q)" "i \<notin> set (tl q)" using D(6,7) by (cases q; simp)+
  have room: "length (tl q) + 1 < 2 ^ 64"
    using D(3) unat_u64_bound [of "runnable_count s"] by (cases q) (auto simp: queue_wf_def)
  have req: "requeued h1 s1 = requeued h s" using p(3,4,7) by (simp add: requeued_def)
  obtain s2 h2 where e:
    "(if t_state (h1 c) = MCSOS_THREAD_RUNNING \<and> Some c \<noteq> idle s1
      then mcsos_sched_enqueue (Some s1) (Some c) (h1(c := (h1 c)\<lparr>t_state := MCSOS_THREAD_READY\<rparr>))
      else (MCSOS_SCHED_OK, Some s1, h1)) = (MCSOS_SCHED_OK, Some s2, h2)"
    "seg h2 (ready_head s2) ?q None"
    "ready_tail s2 = (if ?q = [] then None else Some (last ?q))"
    "unat (runnable_count s2) = length ?q"
    "current s2 = current s1" "idle s2 = idle s1" "initialized s2"
    "\<And>r. t_magic (h2 r) = t_magic (h1 r)" "\<And>r. r \<noteq> c \<Longrightarrow> t_state (h2 r) = t_state (h1 r)"
    "t_state (h2 c) = (if requeued h s = [] then t_state (h1 c) else MCSOS_THREAD_READY)"
    "\<And>r. t_context (h2 r) = t_context (h1 r)"
    by (rule requeue_effect [OF p(2,5), of c, unfolded req]) (use p D c cq room in auto)
  obtain s' h' where w: "switch_to resume c ?n s2 h2 cpu = \<lparr>m_sched = Some s', m_heap = h', m_cpu = t_context (h2 ?n)\<rparr>"
    "s' = s2\<lparr>current := Some ?n, context_switches := context_switches s2 + 1\<rparr>"
    "\<And>r. t_next (h' r) = t_next (h2 r)" "\<And>r. t_magic (h' r) = t_magic (h2 r)"
    "t_state (h' ?n) = MCSOS_THREAD_RUNNING" "\<And>r. r \<noteq> ?n \<Longrightarrow> t_state (h' r) = t_state (h2 r)"
    "t_context (h' c) = cpu\<lparr>rip := resume\<rparr>" "\<And>r. r \<noteq> c \<Longrightarrow> t_context (h' r) = t_context (h2 r)"
    using switch_to_effect [of c ?n resume s2 h2 cpu] nc by metis
  have "mcsos_sched_yield resume \<lparr>m_sched = Some s, m_heap = h, m_cpu = cpu\<rparr> =
       (MCSOS_SCHED_OK, \<lparr>m_sched = Some s', m_heap = h', m_cpu = t_context (h ?n)\<rparr>)"
    using p e(1,11) w(1) c D nc by (simp add: mcsos_sched_yield_def valid_Some)
  moreover have "sched_inv h' s' ?q"
  proof -
    have nq: "?n \<notin> set ?q"
      using D(1,3,6) nc c seg_None_distinct [of h "ready_head s" q]
      by (cases q) (auto simp: next_thread_def requeued_def queue_wf_def)
    have st: "t_state (h' r) = MCSOS_THREAD_READY" if "r \<in> set ?q" for r
      using that nq w(6) [of r] e(9,10) p(2,7) c
      by (cases "r = c") (auto simp: queue_wf_def requeued_def split: if_splits)
    have mg: "t_magic (h' r) = MCSOS_THREAD_MAGIC" if "r \<in> set ?q" for r
      using that w(4) e(8) p(2,6) D(4) c by (auto simp: queue_wf_def requeued_def split: if_splits)
    have "seg h' (ready_head s') ?q None"
      using e(2) w(2,3) seg_cong [of ?q h' h2 "ready_head s2" None] by simp
    then have "queue_wf h' s' ?q"
      using e(3,4) w(2) st mg nq by (auto simp: queue_wf_def)
    then show ?thesis
      using w(2,4,5) e(5-8) p(4,6,9) D cq c
      by (auto simp: sched_inv_def valid_thread_object_def requeued_def)
  qed
  ultimately show thesis
    using that [of s' h'] w e p nc by simp
qed

lemma yield_idle:
  assumes inv: "sched_inv h s q" and c: "next_thread s q = c" "current s = Some c"
  shows "mcsos_sched_yield resume \<lparr>m_sched = Some s, m_heap = h, m_cpu = cpu\<rparr> =
    (MCSOS_SCHED_OK, \<lparr>m_sched = Some s, m_heap = h(c := (h c)\<lparr>t_state := MCSOS_THREAD_RUNNING\<rparr>), m_cpu = cpu\<rparr>)
    \<and> q = []"
proof -
  obtain i where D: "idle s = Some i" "initialized s" "queue_wf h s q"
      "t_magic (h c) = MCSOS_THREAD_MAGIC" "c \<notin> set q"
    using sched_invD [OF inv] c(2) by (metis option.inject)
  have "q = []" using c(1) D(5) by (cases q) (auto simp: next_thread_def)
  then show ?thesis
    using D c pick_next_Nil [of h s] by (simp add: mcsos_sched_yield_def valid_Some next_thread_def)
qed

subsection \<open>The ready queue as a queue\<close>

definition queue_inv :: "thread_heap \<times> mcsos_scheduler \<Rightarrow> bool" where
  "queue_inv st \<longleftrightarrow> sched_inv (fst st) (snd st) (ready_list (fst st) (snd st))"

definition queue_contents :: "thread_heap \<times> mcsos_scheduler \<Rightarrow> nat list" where
  "queue_contents st = ready_list (fst st) (snd st)"

definition queue_may_enq :: "nat \<Rightarrow> thread_heap \<times> mcsos_scheduler \<Rightarrow> bool" where
  "queue_may_enq p st \<longleftrightarrow> can_enqueue (fst st) (snd st) (ready_list (fst st) (snd st)) p \<and>
     Some p \<noteq> idle (snd st)"

definition queue_enq :: "nat \<Rightarrow> thread_heap \<times> mcsos_scheduler \<Rightarrow> thread_heap \<times> mcsos_scheduler" where
  "queue_enq p st =
     (let (r, s, h) = mcsos_sched_enqueue (Some (snd st)) (Some p) (fst st) in (h, the s))"

definition queue_deq ::
  "thread_heap \<times> mcsos_scheduler \<Rightarrow> nat option \<times> thread_heap \<times> mcsos_scheduler" where
  "queue_deq st = (let (p, s, h) = mcsos_sched_pick_next (Some (snd st)) (fst st) in (p, h, the s))"

lemma enqueue_inv:
  assumes inv: "sched_inv h s q" and can: "can_enqueue h s q p" and i: "Some p \<noteq> idle s"
  obtains s' h' where "mcsos_sched_enqueue (Some s) (Some p) h = (MCSOS_SCHED_OK, Some s', h')"
    "sched_inv h' s' (q @ [p])" "current s' = current s" "idle s' = idle s"
    "\<And>r. r \<noteq> p \<Longrightarrow> t_state (h' r) = t_state (h r)"
proof -
  obtain c j where D: "current s = Some c" "idle s = Some j" "initialized s" "queue_wf h s q"
      "t_magic (h c) = MCSOS_THREAD_MAGIC" "t_magic (h j) = MCSOS_THREAD_MAGIC" "j \<notin> set q" "c \<notin> set q"
    using sched_invD [OF inv] by metis
  obtain s' h' where e: "mcsos_sched_enqueue (Some s) (Some p) h = (MCSOS_SCHED_OK, Some s', h')"
    "seg h' (ready_head s') (q @ [p]) None" "ready_tail s' = Some p"
    "unat (runnable_count s') = length (q @ [p])"
    "current s' = current s" "idle s' = idle s" "initialized s'"
    "\<And>r. t_magic (h' r) = t_magic (h r)" "\<And>r. r \<noteq> p \<Longrightarrow> t_state (h' r) = t_state (h r)"
    "t_state (h' p) = MCSOS_THREAD_READY"
    by (rule enqueue_queue [OF D(4,3), of p]) (use can in \<open>auto simp: can_enqueue_def\<close>)
  have "t_state (h' r) = MCSOS_THREAD_READY" if "r \<in> set (q @ [p])" for r
    using that e(9,10) D(4) by (cases "r = p") (auto simp: queue_wf_def)
  moreover have "t_magic (h' r) = MCSOS_THREAD_MAGIC" if "r \<in> set (q @ [p])" for r
    using that e(8) D(4) can by (auto simp: queue_wf_def can_enqueue_def)
  ultimately have "queue_wf h' s' (q @ [p])"
    using e(2-5) D(1,8) can by (auto simp: queue_wf_def can_enqueue_def)
  moreover have "c \<noteq> p" "j \<noteq> p" using D(1,2) can i by (auto simp: can_enqueue_def)
  ultimately have "sched_inv h' s' (q @ [p])"
    using inv e(5-9) D can by (auto simp: sched_inv_def valid_Some)
  then show thesis using that e by blast
qed

lemma pick_inv:
  assumes inv: "sched_inv h s (p # q)"
  obtains s' h' where "mcsos_sched_pick_next (Some s) h = (Some p, Some s', h')" "sched_inv h' s' q"
proof -
  obtain s' h' where e: "mcsos_sched_pick_next (Some s) h = (Some p, Some s', h')"
    "queue_wf h' s' q" "current s' = current s" "idle s' = idle s" "initialized s'"
    "\<And>r. t_magic (h' r) = t_magic (h r)" "\<And>r. t_state (h' r) = t_state (h r)"
    by (rule pick_next_effect [OF inv, unfolded next_thread_def list.case list.sel]) blast
  then have "sched_inv h' s' q"
    using inv by (auto simp: sched_inv_def valid_thread_object_def split: option.splits)
  then show thesis using that e by blast
qed

lemma ready_list_inv: "sched_inv h s q \<Longrightarrow> ready_list h s = q"
  by (auto simp: sched_inv_def intro: ready_list_eq)

lemma queue_enq_effect:
  assumes "queue_inv st" and "queue_may_enq x st"
  shows "queue_inv (queue_enq x st)" "queue_contents (queue_enq x st) = queue_contents st @ [x]"
proof -
  obtain s' h' where e: "mcsos_sched_enqueue (Some (snd st)) (Some x) (fst st) = (MCSOS_SCHED_OK, Some s', h')"
      "sched_inv h' s' (ready_list (fst st) (snd st) @ [x])"
    by (rule enqueue_inv [of "fst st" "snd st" "ready_list (fst st) (snd st)" x])
      (use assms in \<open>auto simp: queue_inv_def queue_may_enq_def\<close>)
  then show "queue_inv (queue_enq x st)" "queue_contents (queue_enq x st) = queue_contents st @ [x]"
    using ready_list_inv [OF e(2)] by (simp_all add: queue_inv_def queue_contents_def queue_enq_def)
qed

lemma queue_deq_effect:
  assumes "queue_inv st" and "queue_contents st = y # ys"
  shows "fst (queue_deq st) = Some y" "queue_contents (snd (queue_deq st)) = ys"
    "queue_inv (snd (queue_deq st))"
proof -
  obtain s' h' where e: "mcsos_sched_pick_next (Some (snd st)) (fst st) = (Some y, Some s', h')"
      "sched_inv h' s' ys"
    by (rule pick_inv [of "fst st" "snd st" y ys])
      (use assms in \<open>auto simp: queue_inv_def queue_contents_def\<close>)
  then show "fst (queue_deq st) = Some y" "queue_contents (snd (queue_deq st)) = ys"
    "queue_inv (snd (queue_deq st))"
    using ready_list_inv [OF e(2)] by (simp_all add: queue_inv_def queue_contents_def queue_deq_def)
qed

interpretation ready: fifo_queue queue_inv queue_contents queue_may_enq queue_enq queue_deq
  by unfold_locales (fact queue_enq_effect queue_deq_effect)+

subsection \<open>Checking the queue\<close>

lemma validate_loop_OK:
  assumes "runnable_count s \<noteq> -1" and "n \<le> unat (runnable_count s) + 1"
  shows "validate_loop h s c l n = MCSOS_SCHED_OK \<longleftrightarrow>
    (\<exists>q. seg h c q None \<and> ready_tail s = (if q = [] then l else Some (last q)) \<and>
         n + length q = unat (runnable_count s) \<and>
         (\<forall>p \<in> set q. t_magic (h p) = MCSOS_THREAD_MAGIC \<and> t_state (h p) = MCSOS_THREAD_READY \<and>
            Some p \<noteq> current s))"
  using assms
proof (induction h s c l n rule: validate_loop.induct)
  case (1 h s c l n)
  have bound: "unat (runnable_count s + 1) = unat (runnable_count s) + 1"
    using 1(2) by (metis Suc_eq_plus1 unatSuc add.commute add_eq_0_iff neg_eq_iff_add_eq_0)
  show ?case
  proof (cases c)
    case None
    have seg: "seg h None q None \<longleftrightarrow> q = []" for q by (cases q) auto
    show ?thesis unfolding None seg by (subst validate_loop.simps) auto
  next
    case (Some p)
    have seg: "(\<exists>q. seg h (Some p) q None \<and> P q) \<longleftrightarrow> (\<exists>q. seg h (t_next (h p)) q None \<and> P (p # q))" for P
      by (metis list.exhaust option.distinct(1) option.inject seg.simps)
    show ?thesis
    proof (cases "t_magic (h p) = MCSOS_THREAD_MAGIC \<and> t_state (h p) = MCSOS_THREAD_READY \<and>
        Some p \<noteq> current s \<and> n + 1 \<le> unat (runnable_count s) + 1")
      case True
      then have "validate_loop h s c l n = validate_loop h s (t_next (h p)) (Some p) (n + 1)"
        using Some bound by (subst validate_loop.simps) (simp add: valid_Some)
      then show ?thesis
        using 1(1) [OF Some] True bound 1(2) unfolding Some seg
        by (auto simp: valid_Some)
    next
      case False
      then have "validate_loop h s c l n = MCSOS_SCHED_ECORRUPT"
        using Some bound by (subst validate_loop.simps) (auto simp: valid_Some)
      then show ?thesis
        using False unfolding Some seg by auto
    qed
  qed
qed

subsection \<open>Rotation\<close>

definition yields :: "u64 \<Rightarrow> nat \<Rightarrow> sched_machine \<Rightarrow> sched_machine" where
  "yields resume n = (\<lambda>m. snd (mcsos_sched_yield resume m)) ^^ n"

definition rotating :: "sched_machine \<Rightarrow> nat list \<Rightarrow> bool" where
  "rotating m L \<longleftrightarrow>
     (\<exists>s. m_sched m = Some s \<and> sched_inv (m_heap m) s (tl L) \<and> current s = Some (hd L) \<and>
          t_state (m_heap m (hd L)) = MCSOS_THREAD_RUNNING \<and> idle s \<noteq> Some (hd L))"

lemma rotating_step:
  assumes "rotating m L" and "length L \<ge> 2"
  shows "rotating (snd (mcsos_sched_yield resume m)) (rotate1 L)"
proof -
  obtain c p ps where L: "L = c # p # ps"
    using assms(2) by (cases L; cases "tl L") auto
  obtain s where m: "m = \<lparr>m_sched = Some s, m_heap = m_heap m, m_cpu = m_cpu m\<rparr>"
      and s: "sched_inv (m_heap m) s (p # ps)" "current s = Some c"
        "t_state (m_heap m c) = MCSOS_THREAD_RUNNING" "idle s \<noteq> Some c"
    using assms(1) L by (cases m) (auto simp: rotating_def)
  have nx: "next_thread s (p # ps) = p" by (simp add: next_thread_def)
  have p: "p \<noteq> c" "Some p \<noteq> idle s" using sched_invD [OF s(1)] s(2) by (metis list.set_intros(1) option.inject)+
  have req: "requeued (m_heap m) s = [c]" using s by (simp add: requeued_def)
  obtain s' h' where
    "mcsos_sched_yield resume \<lparr>m_sched = Some s, m_heap = m_heap m, m_cpu = m_cpu m\<rparr> =
       (MCSOS_SCHED_OK, \<lparr>m_sched = Some s', m_heap = h', m_cpu = t_context (m_heap m p)\<rparr>)"
    "sched_inv h' s' (ps @ [c])" "current s' = Some p" "idle s' = idle s"
    "t_state (h' p) = MCSOS_THREAD_RUNNING"
    by (rule yield_effect [OF s(1,2), unfolded nx req list.sel, OF p(1), of resume "m_cpu m"]) blast
  then show ?thesis using m L p by (auto simp: rotating_def)
qed

lemma rotating_yields:
  assumes "rotating m L" and "length L \<ge> 2"
  shows "rotating (yields resume n m) (rotate n L)"
proof (induction n)
  case (Suc n)
  then show ?case
    using rotating_step [of "yields resume n m" "rotate n L" resume] assms(2)
    by (simp add: yields_def)
qed (use assms in \<open>simp add: yields_def\<close>)

text \<open>A thread alone with the idle thread: a yield hands the processor from one to the other.\<close>

definition alternating :: "nat \<Rightarrow> nat \<Rightarrow> bool \<Rightarrow> sched_machine \<Rightarrow> bool" where
  "alternating c i busy m \<longleftrightarrow>
     (\<exists>s. m_sched m = Some s \<and> idle s = Some i \<and> current s = Some (if busy then c else i) \<and>
          sched_inv (m_heap m) s (if busy then [] else [c]) \<and>
          (busy \<longrightarrow> t_state (m_heap m c) = MCSOS_THREAD_RUNNING))"

lemma alternating_step:
  assumes "alternating c i busy m" and "c \<noteq> i"
  shows "alternating c i (\<not> busy) (snd (mcsos_sched_yield resume m))"
proof -
  let ?q = "if busy then [] else [c]"
  obtain s where m: "m = \<lparr>m_sched = Some s, m_heap = m_heap m, m_cpu = m_cpu m\<rparr>"
      and s: "sched_inv (m_heap m) s ?q" "current s = Some (if busy then c else i)"
      and i: "idle s = Some i" "busy \<longrightarrow> t_state (m_heap m c) = MCSOS_THREAD_RUNNING"
    using assms(1) by (cases m) (auto simp: alternating_def)
  have nx: "next_thread s ?q = (if busy then i else c)" using i(1) by (simp add: next_thread_def)
  have req: "requeued (m_heap m) s = (if busy then [c] else [])"
    using s(2) i assms(2) by (simp add: requeued_def)
  obtain s' h' where
    "mcsos_sched_yield resume \<lparr>m_sched = Some s, m_heap = m_heap m, m_cpu = m_cpu m\<rparr> =
       (MCSOS_SCHED_OK, \<lparr>m_sched = Some s', m_heap = h', m_cpu = t_context (m_heap m (if busy then i else c))\<rparr>)"
    "sched_inv h' s' (tl ?q @ (if busy then [c] else []))" "current s' = Some (if busy then i else c)" "idle s' = idle s"
    "t_state (h' (if busy then i else c)) = MCSOS_THREAD_RUNNING"
    by (rule yield_effect [OF s, unfolded nx req, of resume "m_cpu m"]) (use assms(2) in auto)
  then show ?thesis using m i(1) by (cases busy) (auto simp: alternating_def)
qed

lemma alternating_yields:
  assumes "alternating c i True m" and "c \<noteq> i"
  shows "alternating c i (even n) (yields resume n m)"
proof (induction n)
  case (Suc n)
  then show ?case using alternating_step [OF _ assms(2), of "even n" "yields resume n m" resume] by (simp add: yields_def)
qed (use assms in \<open>simp add: yields_def\<close>)

subsection \<open>Reachable states\<close>

inductive sched_reachable :: "u64 \<Rightarrow> sched_machine \<Rightarrow> bool" for resume where
  init: "mcsos_scheduler_init (Some s0) (Some b) h0 = (r, s, h) \<Longrightarrow>
     sched_reachable resume \<lparr>m_sched = s, m_heap = h, m_cpu = cpu\<rparr>"
| prepare: "sched_reachable resume m \<Longrightarrow> m_sched m = Some s \<Longrightarrow>
     p \<notin> set (ready_list (m_heap m) s) \<Longrightarrow> Some p \<noteq> current s \<Longrightarrow> Some p \<noteq> idle s \<Longrightarrow>
     mcsos_thread_prepare tramp (m_heap m) mem (Some p) name entry arg base sz tid = (r, h', mem') \<Longrightarrow>
     sched_reachable resume (m\<lparr>m_heap := h'\<rparr>)"
| enqueue: "sched_reachable resume m \<Longrightarrow> m_sched m = Some s \<Longrightarrow> runnable_count s < -1 \<Longrightarrow>
     t_state (m_heap m p) \<noteq> MCSOS_THREAD_READY \<Longrightarrow>
     mcsos_sched_enqueue (Some s) (Some p) (m_heap m) = (r, s', h') \<Longrightarrow>
     sched_reachable resume (m\<lparr>m_sched := s', m_heap := h'\<rparr>)"
| mark_ready: "sched_reachable resume m \<Longrightarrow> m_sched m = Some s \<Longrightarrow> runnable_count s < -1 \<Longrightarrow>
     mcsos_thread_mark_ready (Some s) t (m_heap m) = (r, s', h') \<Longrightarrow>
     sched_reachable resume (m\<lparr>m_sched := s', m_heap := h'\<rparr>)"
| yield: "sched_reachable resume m \<Longrightarrow> mcsos_sched_yield resume m = (r, m') \<Longrightarrow>
     sched_reachable resume m'"
| block: "sched_reachable resume m \<Longrightarrow> mcsos_thread_block_current resume m = (r, m') \<Longrightarrow>
     sched_reachable resume m'"
| tick: "sched_reachable resume m \<Longrightarrow> mcsos_sched_tick m = (r, m') \<Longrightarrow> sched_reachable resume m'"
| run: "sched_reachable resume m \<Longrightarrow> sched_reachable resume (m\<lparr>m_cpu := cpu\<rparr>)"

text \<open>Between two calls the current thread and the idle thread are running.\<close>

definition sched_ok :: "sched_machine \<Rightarrow> bool" where
  "sched_ok m \<longleftrightarrow>
     (case m_sched m of
        None \<Rightarrow> False
      | Some s \<Rightarrow> sched_inv (m_heap m) s (ready_list (m_heap m) s) \<and>
          t_state (m_heap m (the (current s))) = MCSOS_THREAD_RUNNING \<and>
          t_state (m_heap m (the (idle s))) = MCSOS_THREAD_RUNNING)"

lemma sched_okI:
  "sched_inv h s q \<Longrightarrow> t_state (h (the (current s))) = MCSOS_THREAD_RUNNING \<Longrightarrow>
     t_state (h (the (idle s))) = MCSOS_THREAD_RUNNING \<Longrightarrow>
     sched_ok \<lparr>m_sched = Some s, m_heap = h, m_cpu = cpu\<rparr>"
  by (simp add: sched_ok_def ready_list_inv)

lemma sched_okD:
  assumes "sched_ok m"
  obtains s q where "m = \<lparr>m_sched = Some s, m_heap = m_heap m, m_cpu = m_cpu m\<rparr>"
    "sched_inv (m_heap m) s q" "ready_list (m_heap m) s = q"
    "t_state (m_heap m (the (current s))) = MCSOS_THREAD_RUNNING"
    "t_state (m_heap m (the (idle s))) = MCSOS_THREAD_RUNNING"
  using assms by (cases m) (auto simp: sched_ok_def split: option.splits)

lemma ok_init:
  assumes "mcsos_scheduler_init (Some s0) (Some b) h0 = (r, s, h)"
  shows "sched_ok \<lparr>m_sched = s, m_heap = h, m_cpu = cpu\<rparr>"
  using assms by (auto simp: mcsos_scheduler_init_def sched_ok_def ready_list_def sched_inv_def
      queue_wf_def valid_Some)

text \<open>A change of the heap that the queue and the scheduler do not see.\<close>

lemma sched_inv_heap:
  assumes inv: "sched_inv h s q"
    and "\<And>r. r \<in> set q \<Longrightarrow> t_next (h' r) = t_next (h r)" "\<And>r. r \<in> set q \<Longrightarrow> t_state (h' r) = t_state (h r)"
      "\<And>r. r \<in> set q \<Longrightarrow> t_magic (h' r) = t_magic (h r)"
    and "t_magic (h' (the (current s))) = t_magic (h (the (current s)))"
      "t_magic (h' (the (idle s))) = t_magic (h (the (idle s)))"
      "t_state (h' (the (current s))) \<noteq> MCSOS_THREAD_READY"
  shows "sched_inv h' s q"
proof -
  obtain c i where D: "current s = Some c" "idle s = Some i" "initialized s" "queue_wf h s q"
      "t_magic (h c) = MCSOS_THREAD_MAGIC" "t_magic (h i) = MCSOS_THREAD_MAGIC" "i \<notin> set q" "c \<notin> set q"
    using sched_invD [OF inv] by metis
  have "queue_wf h' s q"
    using D(4) assms(2-4) seg_cong [of q h' h "ready_head s" None] by (auto simp: queue_wf_def)
  then show ?thesis using D assms(5-7) by (simp add: sched_inv_def valid_Some)
qed

lemma ok_yield:
  assumes inv: "sched_inv h s q" and c: "current s = Some c"
    and st: "t_state (h c) \<noteq> MCSOS_THREAD_READY"
    and i: "t_state (h (the (idle s))) = MCSOS_THREAD_RUNNING"
  shows "sched_ok (snd (mcsos_sched_yield resume \<lparr>m_sched = Some s, m_heap = h, m_cpu = cpu\<rparr>))"
proof (cases "next_thread s q = c")
  case True
  let ?h = "h(c := (h c)\<lparr>t_state := MCSOS_THREAD_RUNNING\<rparr>)"
  have "q = []" using yield_idle [OF inv True c] by simp
  then have "sched_inv ?h s q"
    using c by (intro sched_inv_heap [OF inv]) auto
  then show ?thesis
    using yield_idle [OF inv True c, of resume cpu] c i sched_okI [of ?h s q cpu] by simp
next
  case False
  obtain j where j: "idle s = Some j" using sched_invD [OF inv] by metis
  obtain s' h' where y:
    "mcsos_sched_yield resume \<lparr>m_sched = Some s, m_heap = h, m_cpu = cpu\<rparr> =
       (MCSOS_SCHED_OK, \<lparr>m_sched = Some s', m_heap = h', m_cpu = t_context (h (next_thread s q))\<rparr>)"
    "sched_inv h' s' (tl q @ requeued h s)" "current s' = Some (next_thread s q)" "idle s' = idle s"
    "t_state (h' (next_thread s q)) = MCSOS_THREAD_RUNNING"
    "\<And>r. r \<noteq> c \<Longrightarrow> r \<noteq> next_thread s q \<Longrightarrow> t_state (h' r) = t_state (h r)"
    "t_state (h' c) = (if requeued h s = [] then t_state (h c) else MCSOS_THREAD_READY)"
    by (rule yield_effect [OF inv c False, of resume cpu]) blast
  have "t_state (h' j) = MCSOS_THREAD_RUNNING"
    using y(5-7) i j c by (cases "j = next_thread s q"; cases "j = c") (auto simp: requeued_def)
  then show ?thesis
    using y sched_okI [OF y(2)] j by simp
qed

lemma ok_enqueue:
  assumes ok: "sched_ok m" and s: "m_sched m = Some s" and room: "runnable_count s < -1"
    and p: "t_state (m_heap m p) \<noteq> MCSOS_THREAD_READY"
    and e: "mcsos_sched_enqueue (Some s) (Some p) (m_heap m) = (r, s', h')"
  shows "sched_ok (m\<lparr>m_sched := s', m_heap := h'\<rparr>)"
proof -
  obtain q where inv: "sched_inv (m_heap m) s q"
      "t_state (m_heap m (the (current s))) = MCSOS_THREAD_RUNNING"
      "t_state (m_heap m (the (idle s))) = MCSOS_THREAD_RUNNING"
    using ok s by (auto simp: sched_ok_def)
  show ?thesis
  proof (cases "r = MCSOS_SCHED_OK")
    case True
    obtain c i where D: "current s = Some c" "idle s = Some i" "queue_wf (m_heap m) s q"
      using sched_invD [OF inv(1)] by metis
    have "unat (runnable_count s) < 2 ^ 64 - 1"
      using room by (simp add: word_less_nat_alt unsigned_minus_1_eq_mask mask_eq_exp_minus_1)
    then have "can_enqueue (m_heap m) s q p" "Some p \<noteq> idle s"
      using e True D p inv(2,3)
      by (auto simp: can_enqueue_def queue_wf_def mcsos_sched_enqueue_def valid_Some split: if_splits)
    then obtain s1 h1 where "mcsos_sched_enqueue (Some s) (Some p) (m_heap m) = (MCSOS_SCHED_OK, Some s1, h1)"
        "sched_inv h1 s1 (q @ [p])" "current s1 = current s" "idle s1 = idle s"
        "\<And>r. r \<noteq> p \<Longrightarrow> t_state (h1 r) = t_state (m_heap m r)" "Some p \<noteq> current s" "Some p \<noteq> idle s"
      using enqueue_inv [OF inv(1), of p] by (metis can_enqueue_def)
    then show ?thesis
      using e D inv(2,3) by (auto simp: sched_ok_def ready_list_inv)
  next
    case False
    then have "s' = Some s" "h' = m_heap m"
      using e by (auto simp: mcsos_sched_enqueue_def Let_def split: if_splits prod.splits)
    then show ?thesis using ok s by (cases m) (simp add: sched_ok_def)
  qed
qed

lemma ok_prepare:
  assumes ok: "sched_ok m" and s: "m_sched m = Some s"
    and p: "p \<notin> set (ready_list (m_heap m) s)" "Some p \<noteq> current s" "Some p \<noteq> idle s"
    and e: "mcsos_thread_prepare tramp (m_heap m) mem (Some p) name entry arg base sz tid = (r, h', mem')"
  shows "sched_ok (m\<lparr>m_heap := h'\<rparr>)"
proof -
  let ?q = "ready_list (m_heap m) s"
  have inv: "sched_inv (m_heap m) s ?q"
      "t_state (m_heap m (the (current s))) = MCSOS_THREAD_RUNNING"
      "t_state (m_heap m (the (idle s))) = MCSOS_THREAD_RUNNING"
    using ok s by (auto simp: sched_ok_def)
  obtain c i where D: "current s = Some c" "idle s = Some i" using sched_invD [OF inv(1)] by metis
  have h': "h' r = m_heap m r" if "r \<noteq> p" for r
    using e that by (auto simp: mcsos_thread_prepare_def Let_def split: if_splits)
  have cp: "c \<noteq> p" "i \<noteq> p" using p D by auto
  have hq: "h' r = m_heap m r" if "r \<in> set ?q" for r using h' [of r] that p(1) by metis
  have "sched_inv h' s ?q"
    by (rule sched_inv_heap [OF inv(1)]) (use h' hq cp D inv(2) in auto)
  then show ?thesis
    using inv(2,3) h' cp D s by (simp add: sched_ok_def ready_list_inv)
qed

lemma ok_tick:
  assumes ok: "sched_ok m" and t: "mcsos_sched_tick m = (r, m')"
  shows "sched_ok m'"
proof -
  obtain s q where m: "m = \<lparr>m_sched = Some s, m_heap = m_heap m, m_cpu = m_cpu m\<rparr>"
    and inv: "sched_inv (m_heap m) s q" "t_state (m_heap m (the (current s))) = MCSOS_THREAD_RUNNING"
      "t_state (m_heap m (the (idle s))) = MCSOS_THREAD_RUNNING"
    using sched_okD [OF ok] by metis
  obtain c i where D: "current s = Some c" "idle s = Some i" "initialized s" "t_magic (m_heap m c) = MCSOS_THREAD_MAGIC"
    using sched_invD [OF inv(1)] by metis
  let ?h = "(m_heap m)(c := (m_heap m c)\<lparr>t_ticks := t_ticks (m_heap m c) + 1\<rparr>)"
  let ?s = "s\<lparr>s_ticks := s_ticks s + 1\<rparr>"
  have m': "m' = \<lparr>m_sched = Some ?s, m_heap = ?h, m_cpu = m_cpu m\<rparr>"
    using t D by (subst (asm) m) (auto simp: mcsos_sched_tick_def valid_Some Let_def)
  have "sched_inv ?h s q"
    by (rule sched_inv_heap [OF inv(1)]) (use inv(2) D in auto)
  then have "sched_inv ?h ?s q" by (simp add: sched_inv_def queue_wf_def)
  then show ?thesis
    unfolding m' by (rule sched_okI) (use inv(2,3) D in auto)
qed

lemma ok_block:
  assumes ok: "sched_ok m" and b: "mcsos_thread_block_current resume m = (r, m')"
  shows "sched_ok m'"
proof -
  obtain s q where m: "m = \<lparr>m_sched = Some s, m_heap = m_heap m, m_cpu = m_cpu m\<rparr>"
    and inv: "sched_inv (m_heap m) s q" "t_state (m_heap m (the (current s))) = MCSOS_THREAD_RUNNING"
      "t_state (m_heap m (the (idle s))) = MCSOS_THREAD_RUNNING"
    using sched_okD [OF ok] by metis
  obtain c i where D: "current s = Some c" "idle s = Some i" "initialized s" "t_magic (m_heap m c) = MCSOS_THREAD_MAGIC"
      "c \<notin> set q"
    using sched_invD [OF inv(1)] by metis
  show ?thesis
  proof (cases "c = i")
    case True
    then have "m' = m" using b D by (subst (asm) m) (simp add: mcsos_thread_block_current_def valid_Some, metis m)
    then show ?thesis using ok by simp
  next
    case False
    let ?h = "(m_heap m)(c := (m_heap m c)\<lparr>t_state := MCSOS_THREAD_BLOCKED\<rparr>)"
    have "sched_inv ?h s q"
      by (rule sched_inv_heap [OF inv(1)]) (use D in auto)
    then have "sched_ok (snd (mcsos_sched_yield resume \<lparr>m_sched = Some s, m_heap = ?h, m_cpu = m_cpu m\<rparr>))"
      by (rule ok_yield) (use D False inv(3) in auto)
    moreover have "mcsos_thread_block_current resume m =
        mcsos_sched_yield resume \<lparr>m_sched = Some s, m_heap = ?h, m_cpu = m_cpu m\<rparr>"
      using D False by (subst m) (simp add: mcsos_thread_block_current_def valid_Some Let_def)
    ultimately show ?thesis using b by (metis snd_conv)
  qed
qed

lemma ok_mark_ready:
  assumes ok: "sched_ok m" and s: "m_sched m = Some s" and room: "runnable_count s < -1"
    and e: "mcsos_thread_mark_ready (Some s) t (m_heap m) = (r, s', h')"
  shows "sched_ok (m\<lparr>m_sched := s', m_heap := h'\<rparr>)"
proof (cases "valid_thread_object (m_heap m) t \<and> t_state (m_heap m (the t)) = MCSOS_THREAD_BLOCKED")
  case True
  then obtain p where "t = Some p" by (auto simp: valid_thread_object_def split: option.splits)
  then show ?thesis
    using ok_enqueue [OF ok s room, of p r s' h'] e True by (simp add: mcsos_thread_mark_ready_def)
next
  case False
  then have "s' = Some s" "h' = m_heap m"
    using e by (auto simp: mcsos_thread_mark_ready_def split: if_splits)
  then show ?thesis using ok s by (cases m) (simp add: sched_ok_def)
qed

lemma reachable_ok: "sched_reachable resume m \<Longrightarrow> sched_ok m"
proof (induction rule: sched_reachable.induct)
  case (yield m r m')
  obtain s q where m: "m = \<lparr>m_sched = Some s, m_heap = m_heap m, m_cpu = m_cpu m\<rparr>"
    and inv: "sched_inv (m_heap m) s q" "t_state (m_heap m (the (current s))) = MCSOS_THREAD_RUNNING"
      "t_state (m_heap m (the (idle s))) = MCSOS_THREAD_RUNNING"
    using sched_okD [OF yield.IH] by metis
  obtain c where "current s = Some c" using sched_invD [OF inv(1)] by metis
  then have "sched_ok (snd (mcsos_sched_yield resume \<lparr>m_sched = Some s, m_heap = m_heap m, m_cpu = m_cpu m\<rparr>))"
    by (intro ok_yield [OF inv(1)]) (use inv in auto)
  then show ?case using yield.hyps(2) m by (metis snd_conv)
next
  case (run m cpu)
  then show ?case by (auto simp: sched_ok_def split: option.splits)
qed (rule ok_init ok_prepare ok_enqueue ok_mark_ready ok_block ok_tick; assumption)+

lemma ok_validate:
  assumes "sched_ok m" and "m_sched m = Some s" and "runnable_count s \<noteq> -1"
  shows "mcsos_sched_validate (m_sched m) (m_heap m) = MCSOS_SCHED_OK"
proof -
  let ?h = "m_heap m"
  have inv: "sched_inv ?h s (ready_list ?h s)" using assms(1,2) by (simp add: sched_ok_def)
  then obtain c i where D: "current s = Some c" "initialized s" "queue_wf ?h s (ready_list ?h s)"
      "t_magic (?h c) = MCSOS_THREAD_MAGIC" using sched_invD by metis
  then have "validate_loop ?h s (ready_head s) None 0 = MCSOS_SCHED_OK"
    unfolding validate_loop_OK [OF assms(3) le0]
    by (intro exI [of _ "ready_list ?h s"]) (auto simp: queue_wf_def)
  then show ?thesis using D assms(2) by (simp add: mcsos_sched_validate_def valid_Some)
qed

subsection \<open>Properties\<close>

text \<open>C21: From a state that satisfies the scheduler's invariant with a running thread c
  that is not the idle thread and a ready queue q: if q is not empty, after n yields the
  current thread is number n modulo (length of q plus 1) of c followed by q, and the ready
  queue is the rest of that rotation, so every ready thread runs within as many yields as there
  are ready threads; if q is empty, the yields hand the processor to the idle thread and back,
  c waiting in the queue meanwhile.\<close>

theorem mcsos_sched_yield_round_robin:
  assumes inv: "sched_inv h s q" and c: "current s = Some c" "idle s \<noteq> Some c"
      "t_state (h c) = MCSOS_THREAD_RUNNING"
    and m: "m = \<lparr>m_sched = Some s, m_heap = h, m_cpu = cpu\<rparr>"
  shows "\<exists>s'. m_sched (yields resume n m) = Some s' \<and>
     (q \<noteq> [] \<longrightarrow> current s' = Some ((c # q) ! (n mod Suc (length q))) \<and>
        ready_list (m_heap (yields resume n m)) s' = tl (rotate n (c # q))) \<and>
     (q = [] \<longrightarrow> current s' = (if even n then Some c else idle s) \<and>
        ready_list (m_heap (yields resume n m)) s' = (if even n then [] else [c]))"
proof (cases "q = []")
  case True
  obtain i where i: "idle s = Some i" "c \<noteq> i" using sched_invD [OF inv] c(2) by metis
  have "alternating c i True m" using inv c m i(1) True by (simp add: alternating_def)
  from alternating_yields [OF this i(2), of n resume] show ?thesis
    using True i(1) by (auto simp: alternating_def ready_list_inv)
next
  case False
  have "rotating m (c # q)" using inv c m by (simp add: rotating_def)
  then have "rotating (yields resume n m) (rotate n (c # q))"
    using rotating_yields [of m "c # q" resume n] False by (cases q) auto
  moreover have "hd (rotate n (c # q)) = (c # q) ! (n mod Suc (length q))"
    by (simp add: hd_rotate_conv_nth)
  ultimately show ?thesis using False by (auto simp: rotating_def ready_list_inv)
qed

definition demo_thread :: "mcsos_thread_state \<Rightarrow> nat option \<Rightarrow> mcsos_thread" where
  "demo_thread st nx = \<lparr>t_magic = MCSOS_THREAD_MAGIC, t_id = 0, t_name = ''t'', t_state = st,
     t_context = zero_context, t_entry = Some 1, t_arg = 0, t_stack_base = 0, t_stack_size = 0,
     t_next = nx, t_switches = 0, t_ticks = 0, t_exit_code = 0\<rparr>"

definition demo_threads :: thread_heap where
  "demo_threads = (\<lambda>_. demo_thread MCSOS_THREAD_RUNNING None)
     (2 := demo_thread MCSOS_THREAD_READY (Some 3), 3 := demo_thread MCSOS_THREAD_READY None,
      4 := demo_thread MCSOS_THREAD_BLOCKED None)"

definition demo_sched :: mcsos_scheduler where
  "demo_sched = \<lparr>current = Some 1, idle = Some 0, ready_head = Some 2, ready_tail = Some 3,
     next_id = 1, runnable_count = 2, context_switches = 0, s_ticks = 0, initialized = True\<rparr>"

lemma demo_sched_inv: "sched_inv demo_threads demo_sched [2, 3]"
  by (simp add: sched_inv_def queue_wf_def demo_sched_def demo_threads_def demo_thread_def valid_Some)

theorem mcsos_sched_yield_round_robin_witness:
  "\<exists>s'. m_sched (yields 0 2 \<lparr>m_sched = Some demo_sched, m_heap = demo_threads, m_cpu = zero_context\<rparr>)
     = Some s' \<and> current s' = Some 3"
  using mcsos_sched_yield_round_robin [OF demo_sched_inv, of 1 _ zero_context 0 2]
  by (auto simp: demo_sched_def demo_threads_def demo_thread_def)

text \<open>C24: The linked ready list implements a first-in first-out queue: after a thread
  that may be queued is enqueued, picking threads gives those that were ready before, in order,
  and then that thread.\<close>

theorem mcsos_sched_enqueue_fifo:
  assumes "queue_inv st" and "queue_may_enq p st"
  shows "fst (deq_many queue_deq (Suc (length (queue_contents st))) (queue_enq p st)) =
    map Some (queue_contents st @ [p])"
  using assms by (rule ready.enq_served_last)

theorem mcsos_sched_enqueue_fifo_witness:
  "fst (deq_many queue_deq 3 (queue_enq 4 (demo_threads, demo_sched))) = [Some 2, Some 3, Some 4]"
proof -
  have q: "ready_list demo_threads demo_sched = [2, 3]" by (rule ready_list_inv [OF demo_sched_inv])
  have "queue_may_enq 4 (demo_threads, demo_sched)"
    unfolding queue_may_enq_def can_enqueue_def fst_conv snd_conv q
    by (simp add: demo_sched_def demo_threads_def demo_thread_def)
  then show ?thesis
    using mcsos_sched_enqueue_fifo [of "(demo_threads, demo_sched)" 4] q demo_sched_inv
    by (simp add: queue_inv_def queue_contents_def eval_nat_numeral del: deq_many.simps)
qed

lemma ready_count_seg: "seg h c q None \<Longrightarrow> ready_count_loop h c n = Some (n + length q)"
proof (induction q arbitrary: c n)
  case Nil
  then show ?case by (subst ready_count_loop.simps) simp
next
  case (Cons p q)
  then show ?case by (subst ready_count_loop.simps) simp
qed

text \<open>C22: In every state reached from the initialisation by preparing fresh threads,
  queueing threads that are not ready, marking blocked threads ready, yielding, blocking and
  ticking, the ready list is a finite list of distinct ready threads without the current and
  the idle thread, the scheduler's own check answers OK, and counting the ready list ends with
  the stored count.\<close>

theorem sched_reachable_valid:
  assumes "sched_reachable resume m" and "m_sched m = Some s" and "runnable_count s \<noteq> -1"
  shows "sched_ok m \<and> mcsos_sched_validate (m_sched m) (m_heap m) = MCSOS_SCHED_OK \<and>
    mcsos_sched_ready_count (m_sched m) (m_heap m) = Some (unat (runnable_count s))"
proof -
  have ok: "sched_ok m" using assms(1) by (rule reachable_ok)
  then have "sched_inv (m_heap m) s (ready_list (m_heap m) s)" using assms(2) by (simp add: sched_ok_def)
  then obtain c i where "initialized s" "queue_wf (m_heap m) s (ready_list (m_heap m) s)"
    using sched_invD by metis
  then have "mcsos_sched_ready_count (m_sched m) (m_heap m) = Some (unat (runnable_count s))"
    using ready_count_seg [of "m_heap m" "ready_head s" "ready_list (m_heap m) s" 0] assms(2)
    by (simp add: mcsos_sched_ready_count_def queue_wf_def)
  then show ?thesis using ok ok_validate [OF ok assms(2,3)] by blast
qed

theorem sched_reachable_valid_witness:
  "\<exists>s h. mcsos_scheduler_init (Some demo_sched) (Some 0) demo_threads = (MCSOS_SCHED_OK, Some s, h) \<and>
     mcsos_sched_validate (Some s) h = MCSOS_SCHED_OK"
proof -
  obtain s h where i: "mcsos_scheduler_init (Some demo_sched) (Some 0) demo_threads = (MCSOS_SCHED_OK, Some s, h)"
      "runnable_count s = 0" by (auto simp: mcsos_scheduler_init_def)
  then have "mcsos_sched_validate (Some s) h = MCSOS_SCHED_OK"
    using sched_reachable_valid
      [OF sched_reachable.init [OF i(1), where resume = 0 and cpu = zero_context], of s] by simp
  with i show ?thesis by blast
qed

text \<open>C23: The check of the scheduler answers OK exactly when the scheduler is
  initialised, the current thread is valid, and the ready list is a duplicate-free list of
  valid ready threads other than the current one that ends at the stored tail and has the
  stored length; the loop always ends.\<close>

theorem mcsos_sched_validate_exact:
  assumes "runnable_count s \<noteq> -1"
  shows "mcsos_sched_validate (Some s) h = MCSOS_SCHED_OK \<longleftrightarrow>
    initialized s \<and> valid_thread_object h (current s) \<and> (\<exists>q. distinct q \<and> queue_wf h s q)"
proof -
  have "validate_loop h s (ready_head s) None 0 = MCSOS_SCHED_OK \<longleftrightarrow> (\<exists>q. queue_wf h s q)"
    unfolding validate_loop_OK [OF assms le0] queue_wf_def by (rule iff_exI) auto
  moreover have "distinct q" if "queue_wf h s q" for q
    using that seg_None_distinct by (auto simp: queue_wf_def)
  ultimately show ?thesis by (auto simp: mcsos_sched_validate_def)
qed

theorem mcsos_sched_validate_exact_witness:
  "mcsos_sched_validate (Some demo_sched) demo_threads = MCSOS_SCHED_OK"
proof -
  have "runnable_count demo_sched \<noteq> -1" by (simp add: demo_sched_def)
  moreover have "queue_wf demo_threads demo_sched [2, 3]" "initialized demo_sched"
      "valid_thread_object demo_threads (current demo_sched)"
    using demo_sched_inv by (auto simp: sched_inv_def)
  moreover have "distinct [2, 3 :: nat]" by simp
  ultimately show ?thesis
    using mcsos_sched_validate_exact [of demo_sched demo_threads] by blast
qed

text \<open>Preparing a thread with an entry, a stack base and at least 4096 bytes of stack
  fails exactly when the stack wraps around the address space; otherwise the stack pointer is 8
  modulo 16, lies with its zero return address inside the stack within 24 bytes of its end, and
  no other thread changes.\<close>

lemma thread_prepare_exact:
  assumes base: "base \<noteq> 0" and entry: "entry = Some e" and sz: "4096 \<le> unat sz"
  shows "if 2 ^ 64 \<le> unat base + unat sz
    then mcsos_thread_prepare tramp h mem (Some p) name entry arg base sz tid = (MCSOS_SCHED_ESTACK, h, mem)
    else \<exists>h' top. mcsos_thread_prepare tramp h mem (Some p) name entry arg base sz tid =
        (MCSOS_SCHED_OK, h', mem(top := 0)) \<and>
      t_context (h' p) = zero_context\<lparr>rsp := top, rip := tramp\<rparr> \<and>
      t_state (h' p) = MCSOS_THREAD_NEW \<and> t_next (h' p) = None \<and> (\<forall>r. r \<noteq> p \<longrightarrow> h' r = h r) \<and>
      unat top mod 16 = 8 \<and> unat base + 128 < unat top + 8 \<and>
      unat top + 8 \<le> unat base + unat sz \<and> unat base + unat sz < unat top + 24"
proof (cases "2 ^ 64 \<le> unat base + unat sz")
  case True
  have "unat (base + sz) = unat base + unat sz - 2 ^ 64"
    using True unat_u64_bound [of base] unat_u64_bound [of sz]
    by (simp add: unat_word_ariths mod_if)
  then have "base + sz \<le> base"
    using unat_u64_bound [of sz] by (simp add: word_le_nat_alt)
  moreover have "\<not> sz < 4096" using sz by (simp add: word_less_nat_alt)
  ultimately show ?thesis
    using True assms by (simp add: mcsos_thread_prepare_def MCSOS_MIN_KERNEL_STACK_def)
next
  case False
  let ?hi = "base + sz"
  have hi: "unat ?hi = unat base + unat sz" using False by (simp add: unat_add_no_wrap)
  define top where "top = align_down_uintptr ?hi MCSOS_STACK_ALIGN"
  have top: "unat top = unat ?hi - unat ?hi mod 16"
    unfolding top_def align_down_uintptr_def MCSOS_STACK_ALIGN_def
    by (simp add: unat_and_not_literal)
  have b128: "unat (base + 128) = unat base + 128"
    using hi sz unat_u64_bound [of ?hi] by (subst unat_add_no_wrap) auto
  have big: "unat base + 4096 \<le> unat ?hi" using hi sz by simp
  have low: "unat base + 128 < unat top" using top big mod_less_divisor [of 16 "unat ?hi"] by linarith
  have m8: "unat (top - 8) = unat top - 8"
    using low by (subst unat_sub) (auto simp: word_le_nat_alt)
  have m16: "unat top mod 16 = 0" unfolding top by (simp add: minus_mod_eq_mult_div)
  have "\<not> ?hi \<le> base" "\<not> sz < 4096" "\<not> top \<le> base + 128"
    using hi sz low b128 by (auto simp: word_le_nat_alt word_less_nat_alt)
  then have "mcsos_thread_prepare tramp h mem (Some p) name entry arg base sz tid =
      (MCSOS_SCHED_OK, h(p := (h p)\<lparr>t_magic := MCSOS_THREAD_MAGIC, t_id := tid, t_name := name,
                      t_state := MCSOS_THREAD_NEW,
                      t_context := zero_context\<lparr>rsp := top - 8, rip := tramp\<rparr>,
                      t_entry := entry, t_arg := arg, t_stack_base := base,
                      t_stack_size := sz, t_next := None, t_switches := 0,
                      t_ticks := 0, t_exit_code := 0\<rparr>), mem(top - 8 := 0))"
    using assms by (simp add: mcsos_thread_prepare_def MCSOS_MIN_KERNEL_STACK_def Let_def top_def)
  moreover have "unat (top - 8) mod 16 = 8"
  proof -
    obtain k where k: "unat top = 16 * k" using m16 by (metis mod_0_imp_dvd dvd_def)
    then obtain j where "k = Suc j" using low by (cases k) auto
    then have "unat (top - 8) = 8 + 16 * j" using m8 k by simp
    then show ?thesis by simp
  qed
  moreover have "unat base + 128 < unat (top - 8) + 8" "unat (top - 8) + 8 \<le> unat base + unat sz"
      "unat base + unat sz < unat (top - 8) + 24"
    using m8 low top hi mod_less_divisor [of 16 "unat ?hi"] by linarith+
  ultimately show ?thesis using False by auto
qed

theorem thread_prepare_exact_witness:
  "\<exists>h' top. mcsos_thread_prepare 0x1000 demo_threads (\<lambda>_. 1) (Some 5) ''worker'' (Some 0x2000) 0 0x10008 0x1000 7
     = (MCSOS_SCHED_OK, h', (\<lambda>_. 1)(top := 0)) \<and> unat top mod 16 = 8"
  using thread_prepare_exact [of "0x10008" "Some 0x2000" "0x2000" "0x1000" "0x1000" demo_threads "\<lambda>_. 1" 5
      "''worker''" 0 7] by auto

text \<open>C25: A thread that yields to the only ready thread and is switched back to by that
  thread's yield gets back all its callee-saved registers, whatever the other thread left in
  them, and continues at the saved label.\<close>

theorem mcsos_context_switch_returns:
  assumes inv: "sched_inv h s [p]" and c: "current s = Some c" "idle s \<noteq> Some c"
      "t_state (h c) = MCSOS_THREAD_RUNNING"
    and y1: "mcsos_sched_yield resume \<lparr>m_sched = Some s, m_heap = h, m_cpu = cpu\<rparr> = (r1, m1)"
    and y2: "mcsos_sched_yield resume (m1\<lparr>m_cpu := cpu'\<rparr>) = (r2, m2)"
  shows "m_cpu m1 = t_context (h p) \<and> m_cpu m2 = cpu\<lparr>rip := resume\<rparr> \<and>
    t_context (m_heap m2 p) = cpu'\<lparr>rip := resume\<rparr>"
proof -
  have nx: "next_thread s [p] = p" by (simp add: next_thread_def)
  have pc: "p \<noteq> c" "idle s \<noteq> Some p" using sched_invD [OF inv] c(1) by (metis list.set_intros(1) option.inject)+
  have req: "requeued h s = [c]" using c by (simp add: requeued_def)
  obtain s' h' where a:
    "mcsos_sched_yield resume \<lparr>m_sched = Some s, m_heap = h, m_cpu = cpu\<rparr> =
       (MCSOS_SCHED_OK, \<lparr>m_sched = Some s', m_heap = h', m_cpu = t_context (h p)\<rparr>)"
    "sched_inv h' s' [c]" "current s' = Some p" "t_context (h' c) = cpu\<lparr>rip := resume\<rparr>"
    by (rule yield_effect [OF inv c(1), unfolded nx req list.sel append_Nil, OF pc(1), of resume cpu]) blast
  have m1: "m1\<lparr>m_cpu := cpu'\<rparr> = \<lparr>m_sched = Some s', m_heap = h', m_cpu = cpu'\<rparr>"
    "m_cpu m1 = t_context (h p)" using y1 a(1) by auto
  have nx': "next_thread s' [c] = c" by (simp add: next_thread_def)
  obtain s2 h2 where "mcsos_sched_yield resume \<lparr>m_sched = Some s', m_heap = h', m_cpu = cpu'\<rparr> =
       (MCSOS_SCHED_OK, \<lparr>m_sched = Some s2, m_heap = h2, m_cpu = t_context (h' c)\<rparr>)"
    "t_context (h2 p) = cpu'\<lparr>rip := resume\<rparr>"
    by (rule yield_effect [OF a(2,3), unfolded nx', OF pc(1) [symmetric], of resume cpu']) blast
  then show ?thesis using y2 m1 a(4) by auto
qed

definition demo_pair :: thread_heap where
  "demo_pair = demo_threads(2 := demo_thread MCSOS_THREAD_READY None)"

definition demo_pair_sched :: mcsos_scheduler where
  "demo_pair_sched = demo_sched\<lparr>ready_tail := Some 2, runnable_count := 1\<rparr>"

lemma demo_pair_inv: "sched_inv demo_pair demo_pair_sched [2]"
  by (simp add: sched_inv_def queue_wf_def demo_pair_def demo_pair_sched_def demo_sched_def
      demo_threads_def demo_thread_def valid_Some)

theorem mcsos_context_switch_returns_witness:
  "\<exists>r1 m1 r2 m2.
     mcsos_sched_yield 9 \<lparr>m_sched = Some demo_pair_sched, m_heap = demo_pair,
       m_cpu = zero_context\<lparr>rsp := 0x8000, rbx := 3\<rparr>\<rparr> = (r1, m1) \<and>
     mcsos_sched_yield 9 (m1\<lparr>m_cpu := zero_context\<lparr>rbx := 5\<rparr>\<rparr>) = (r2, m2) \<and>
     rsp (m_cpu m2) = 0x8000 \<and> rbx (m_cpu m2) = 3 \<and> rip (m_cpu m2) = 9"
proof -
  obtain r1 m1 where y1: "mcsos_sched_yield 9 \<lparr>m_sched = Some demo_pair_sched, m_heap = demo_pair,
       m_cpu = zero_context\<lparr>rsp := 0x8000, rbx := 3\<rparr>\<rparr> = (r1, m1)" by (meson surj_pair)
  obtain r2 m2 where y2: "mcsos_sched_yield 9 (m1\<lparr>m_cpu := zero_context\<lparr>rbx := 5\<rparr>\<rparr>) = (r2, m2)"
    by (meson surj_pair)
  have "m_cpu m2 = zero_context\<lparr>rsp := 0x8000, rbx := 3, rip := 9\<rparr>"
    using mcsos_context_switch_returns [OF demo_pair_inv _ _ _ y1 y2, of 1]
    by (simp add: demo_pair_sched_def demo_sched_def demo_pair_def demo_threads_def demo_thread_def)
  then show ?thesis using y1 y2 by auto
qed

text \<open>The counting loop does not return on a set of threads that only lead to each other.\<close>

lemma ready_count_cycle:
  assumes "ready_count_loop h cur n = Some k"
  shows "cur \<in> Some ` S \<longrightarrow> (\<forall>x \<in> S. t_next (h x) \<in> Some ` S) \<longrightarrow> False"
proof (rule ready_count_loop.raw_induct [OF _ assms])
  fix loop :: "thread_heap \<Rightarrow> nat option \<Rightarrow> nat \<Rightarrow> nat option" and h cur n k
  assume IH: "\<And>h cur n k. loop h cur n = Some k \<Longrightarrow>
      cur \<in> Some ` S \<longrightarrow> (\<forall>x \<in> S. t_next (h x) \<in> Some ` S) \<longrightarrow> False"
    and step: "(case cur of None \<Rightarrow> Some n | Some p \<Rightarrow> loop h (t_next (h p)) (n + 1)) = Some k"
  show "cur \<in> Some ` S \<longrightarrow> (\<forall>x \<in> S. t_next (h x) \<in> Some ` S) \<longrightarrow> False"
  proof (cases cur)
    case (Some p)
    then show ?thesis using IH [of h "t_next (h p)" "n + 1" k] step by auto
  qed auto
qed

text \<open>Enqueueing the last ready thread once more is accepted and links it to itself:
  counting the ready list then never returns.\<close>

theorem mcsos_sched_enqueue_twice:
  assumes inv: "sched_inv h s (q @ [p])" and e: "mcsos_sched_enqueue (Some s) (Some p) h = (r, Some s', h')"
  shows "r = MCSOS_SCHED_OK \<and> mcsos_sched_ready_count (Some s') h' = None"
proof -
  have wf: "queue_wf h s (q @ [p])" and init: "initialized s" using inv by (auto simp: sched_inv_def)
  have p: "t_magic (h p) = MCSOS_THREAD_MAGIC" "t_state (h p) = MCSOS_THREAD_READY" "ready_tail s = Some p"
    using wf by (auto simp: queue_wf_def)
  then have eq: "r = MCSOS_SCHED_OK" "s' = s\<lparr>ready_tail := Some p, runnable_count := runnable_count s + 1\<rparr>"
      "h' = h(p := (h p)\<lparr>t_state := MCSOS_THREAD_READY, t_next := Some p\<rparr>)"
    using e init by (auto simp: mcsos_sched_enqueue_def valid_Some)
  have closed: "seg h c xs (Some p) \<Longrightarrow> p \<notin> set xs \<Longrightarrow> \<forall>x \<in> set xs. t_next (h' x) \<in> Some ` insert p (set xs)"
    for c xs
    by (induction xs arbitrary: c rule: list.induct) (auto simp: eq(3) neq_Nil_conv; case_tac x2; auto)+
  have seg: "seg h (ready_head s) q (Some p)" "p \<notin> set q"
    using wf seg_None_distinct [of h "ready_head s" "q @ [p]"] by (auto simp: queue_wf_def seg_append)
  have head: "ready_head s \<in> Some ` insert p (set q)"
    using seg(1) by (cases q) auto
  have "ready_count_loop h' (ready_head s) 0 \<noteq> Some k" for k
    using ready_count_cycle [of h' "ready_head s" 0 k "insert p (set q)"] head closed [OF seg] eq(3) by auto
  then show ?thesis using eq(1,2) init by (auto simp: mcsos_sched_ready_count_def)
qed

theorem mcsos_sched_enqueue_twice_witness:
  "\<exists>s' h'. mcsos_sched_enqueue (Some demo_sched) (Some 3) demo_threads = (MCSOS_SCHED_OK, Some s', h') \<and>
     mcsos_sched_ready_count (Some s') h' = None"
proof -
  obtain r s' h' where e: "mcsos_sched_enqueue (Some demo_sched) (Some 3) demo_threads = (r, Some s', h')"
    by (auto simp: mcsos_sched_enqueue_def demo_sched_def demo_threads_def demo_thread_def valid_Some)
  then show ?thesis
    using mcsos_sched_enqueue_twice [of demo_threads demo_sched "[2]" 3 r s' h'] demo_sched_inv by simp
qed

end
