(* ===== verification/Ramfs.thy ===== *)
theory Ramfs
  imports Kernel_Prelude
begin

text \<open>
  The RAM file system, \<open>mcsos/kernel/vfs/ramfs.c\<close> with \<open>mcsos/include/mcs_vfs.h\<close>: a table
  of 64 vnodes, an 8192-byte data area from which each file gets a fixed slice when it is
  created, and path lookup by segments. A C string is a list of characters read through
  \<open>c_at\<close>, which gives the terminating NUL after the last character; a pointer into a path
  is the rest of the path; a vnode pointer is an index into the table. An operation that
  returns a status is a sum: \<open>Inl\<close> the error, \<open>Inr\<close> what \<open>MCS_OK\<close> comes with.
  Sizes and offsets (\<open>size_t\<close>) are natural numbers: no sum of the source reaches
  \<open>2 ^ 64\<close> under the invariant proved here.
\<close>

subsection \<open>Data\<close>

definition MCS_MAX_NAME :: nat where "MCS_MAX_NAME = 32"
definition MCS_MAX_PATH :: nat where "MCS_MAX_PATH = 128"
definition MCS_MAX_NODES :: nat where "MCS_MAX_NODES = 64"
definition MCS_RAMFS_DATA_BYTES :: nat where "MCS_RAMFS_DATA_BYTES = 8192"

lemmas mcs_limits [simp] =
  MCS_MAX_NAME_def MCS_MAX_PATH_def MCS_MAX_NODES_def MCS_RAMFS_DATA_BYTES_def

datatype mcs_vnode_type = MCS_VNODE_DIR | MCS_VNODE_FILE

datatype mcs_vfs_status =
  MCS_ENOENT | MCS_EBADF | MCS_EACCES | MCS_EEXIST | MCS_ENOTDIR | MCS_EISDIR
| MCS_EINVAL | MCS_ENFILE | MCS_ENOSPC | MCS_ENAMETOOLONG

record mcs_vnode =
  vn_used :: bool
  vn_id :: u32
  vn_parent :: u32
  vn_type :: mcs_vnode_type
  vn_name :: string
  vn_size :: nat
  vn_data_offset :: nat
  vn_data_capacity :: nat

record mcs_ramfs =
  nodes :: "mcs_vnode list"
  node_count :: nat
  fs_data :: "u8 list"
  data_used :: nat

subsection \<open>Strings and copies\<close>

abbreviation NUL :: char where "NUL \<equiv> CHR 0x00"

definition c_at :: "string \<Rightarrow> nat \<Rightarrow> char" where
  "c_at s n = (if n < length s then s ! n else NUL)"

fun strlen_loop :: "string \<Rightarrow> nat" where
  "strlen_loop [] = 0"
| "strlen_loop (c # s) = (if c \<noteq> NUL then Suc (strlen_loop s) else 0)"

definition mcs_strlen :: "string option \<Rightarrow> nat" where
  "mcs_strlen s = (case s of None \<Rightarrow> 0 | Some s \<Rightarrow> strlen_loop s)"

definition mcs_streq_n :: "string \<Rightarrow> string \<Rightarrow> nat \<Rightarrow> bool" where
  "mcs_streq_n a b n \<longleftrightarrow> list_all (\<lambda>i. c_at a i = c_at b i) [0..<n] \<and> c_at b n = NUL"

text \<open>\<open>n\<close> bytes of \<open>src\<close> from \<open>soff\<close> on are written to \<open>dst\<close> from \<open>doff\<close> on, one by one.\<close>

definition mcs_copy_bytes :: "'a list \<Rightarrow> nat \<Rightarrow> 'a list \<Rightarrow> nat \<Rightarrow> nat \<Rightarrow> 'a list" where
  "mcs_copy_bytes dst doff src soff n =
     fold (\<lambda>i dst. dst[doff + i := src ! (soff + i)]) [0..<n] dst"

definition mcs_copy_name :: "string \<Rightarrow> string \<Rightarrow> nat \<Rightarrow> string" where
  "mcs_copy_name dst src n =
     (let dst = fold (\<lambda>i dst. dst[i := NUL]) [0..<MCS_MAX_NAME] dst
      in fold (\<lambda>i dst. dst[i := c_at src i]) [0..<min n (MCS_MAX_NAME - 1)] dst)"

subsection \<open>Path segments\<close>

definition mcs_find_child ::
  "mcs_ramfs \<Rightarrow> u32 \<Rightarrow> string \<Rightarrow> nat \<Rightarrow> mcs_vfs_status + nat" where
  "mcs_find_child fs parent name name_len =
     (if name_len = 0 \<or> name_len \<ge> MCS_MAX_NAME then Inl MCS_EINVAL
      else case find (\<lambda>i. vn_used (nodes fs ! i) \<and> vn_parent (nodes fs ! i) = parent \<and>
                          mcs_streq_n name (vn_name (nodes fs ! i)) name_len)
                  [0..<node_count fs] of
        Some i \<Rightarrow> Inr i
      | None \<Rightarrow> Inl MCS_ENOENT)"

text \<open>The inner loop that moves \<open>next\<close> to the end of the segment: the segment's length.\<close>

definition mcs_seg_len :: "string \<Rightarrow> nat" where
  "mcs_seg_len seg = length (takeWhile (\<lambda>c. c \<noteq> CHR ''/'' \<and> c \<noteq> NUL) seg)"

function split_loop :: "mcs_ramfs \<Rightarrow> nat \<Rightarrow> string \<Rightarrow> mcs_vfs_status + nat \<times> string \<times> nat" where
  "split_loop fs cur seg =
     (let seg_len = mcs_seg_len seg; rest = drop seg_len seg in
      if seg_len = 0 \<or> seg_len \<ge> MCS_MAX_NAME then Inl MCS_EINVAL
      else if c_at rest 0 = NUL then Inr (cur, seg, seg_len)
      else case mcs_find_child fs (vn_id (nodes fs ! cur)) seg seg_len of
        Inl rc \<Rightarrow> Inl rc
      | Inr cur \<Rightarrow>
          if vn_type (nodes fs ! cur) \<noteq> MCS_VNODE_DIR then Inl MCS_ENOTDIR
          else split_loop fs cur (drop 1 rest))"
  by pat_completeness auto
termination
proof (relation "measure (\<lambda>(fs, cur, seg). length seg)", goal_cases)
  case (2 fs cur seg)
  then have "seg \<noteq> []" by (auto simp: mcs_seg_len_def)
  with 2 show ?case by (cases seg) auto
qed simp

definition mcs_split_parent_leaf ::
  "mcs_ramfs \<Rightarrow> string \<Rightarrow> mcs_vfs_status + nat \<times> string \<times> nat" where
  "mcs_split_parent_leaf fs path =
     (if c_at path 0 \<noteq> CHR ''/'' then Inl MCS_EINVAL
      else if c_at path 1 = NUL then Inl MCS_EINVAL
      else if mcs_strlen (Some path) \<ge> MCS_MAX_PATH then Inl MCS_ENAMETOOLONG
      else split_loop fs 0 (drop 1 path))"

subsection \<open>Vnodes and files\<close>

definition mcs_alloc_node ::
  "mcs_ramfs \<Rightarrow> u32 \<Rightarrow> mcs_vnode_type \<Rightarrow> string \<Rightarrow> nat \<Rightarrow> nat
     \<Rightarrow> (mcs_vfs_status + nat) \<times> mcs_ramfs" where
  "mcs_alloc_node fs parent type name name_len capacity =
     (if name_len = 0 \<or> name_len \<ge> MCS_MAX_NAME then (Inl MCS_EINVAL, fs)
      else if node_count fs \<ge> MCS_MAX_NODES then (Inl MCS_ENOSPC, fs)
      else if type = MCS_VNODE_FILE \<and> data_used fs + capacity > MCS_RAMFS_DATA_BYTES
      then (Inl MCS_ENOSPC, fs)
      else
        let n = node_count fs;
            node = (nodes fs ! n)
              \<lparr>vn_used := True, vn_id := of_nat n, vn_parent := parent, vn_type := type,
               vn_name := mcs_copy_name (vn_name (nodes fs ! n)) name name_len,
               vn_size := 0, vn_data_offset := 0, vn_data_capacity := 0\<rparr>;
            node = (if type = MCS_VNODE_FILE
                    then node\<lparr>vn_data_offset := data_used fs, vn_data_capacity := capacity\<rparr>
                    else node);
            used = (if type = MCS_VNODE_FILE then data_used fs + capacity else data_used fs)
        in (Inr n, fs\<lparr>nodes := (nodes fs)[n := node], data_used := used, node_count := n + 1\<rparr>))"

definition init_node :: "mcs_vnode \<Rightarrow> mcs_vnode" where
  "init_node v = v\<lparr>vn_used := False, vn_id := 0, vn_parent := 0, vn_type := MCS_VNODE_FILE,
     vn_name := (vn_name v)[0 := NUL], vn_size := 0, vn_data_offset := 0, vn_data_capacity := 0\<rparr>"

definition mcs_ramfs_init :: "mcs_ramfs \<Rightarrow> mcs_ramfs" where
  "mcs_ramfs_init fs =
     (let ns = fold (\<lambda>i ns. ns[i := init_node (ns ! i)]) [0..<MCS_MAX_NODES] (nodes fs);
          d = fold (\<lambda>i d. d[i := 0]) [0..<MCS_RAMFS_DATA_BYTES] (fs_data fs);
          root = (ns ! 0)\<lparr>vn_used := True, vn_id := 0, vn_parent := 0, vn_type := MCS_VNODE_DIR,
                   vn_name := (vn_name (ns ! 0))[0 := CHR ''/'', 1 := NUL]\<rparr>
      in fs\<lparr>nodes := ns[0 := root], fs_data := d, node_count := 1, data_used := 0\<rparr>)"

function lookup_loop :: "mcs_ramfs \<Rightarrow> nat \<Rightarrow> string \<Rightarrow> mcs_vfs_status + nat" where
  "lookup_loop fs cur seg =
     (if c_at seg 0 = NUL then Inl MCS_EINVAL
      else let seg_len = mcs_seg_len seg; rest = drop seg_len seg in
        if seg_len = 0 \<or> seg_len \<ge> MCS_MAX_NAME then Inl MCS_EINVAL
        else case mcs_find_child fs (vn_id (nodes fs ! cur)) seg seg_len of
          Inl rc \<Rightarrow> Inl rc
        | Inr cur \<Rightarrow>
            if c_at rest 0 = NUL then Inr cur
            else if vn_type (nodes fs ! cur) \<noteq> MCS_VNODE_DIR then Inl MCS_ENOTDIR
            else lookup_loop fs cur (drop 1 rest))"
  by pat_completeness auto
termination
proof (relation "measure (\<lambda>(fs, cur, seg). length seg)", goal_cases)
  case (2 fs cur seg)
  then have "seg \<noteq> []" by (auto simp: c_at_def)
  with 2 show ?case by (cases seg) auto
qed simp

definition mcs_ramfs_lookup ::
  "mcs_ramfs option \<Rightarrow> string option \<Rightarrow> mcs_vfs_status + nat" where
  "mcs_ramfs_lookup fs path =
     (case (fs, path) of
        (Some fs, Some path) \<Rightarrow>
          if c_at path 0 \<noteq> CHR ''/'' then Inl MCS_EINVAL
          else if mcs_strlen (Some path) \<ge> MCS_MAX_PATH then Inl MCS_ENAMETOOLONG
          else if c_at path 1 = NUL then Inr 0
          else lookup_loop fs 0 (drop 1 path)
      | _ \<Rightarrow> Inl MCS_EINVAL)"

definition mcs_ramfs_create_file ::
  "mcs_ramfs option \<Rightarrow> string option \<Rightarrow> (mcs_vfs_status + nat) \<times> mcs_ramfs option" where
  "mcs_ramfs_create_file fsp path =
     (case (fsp, path) of
        (Some fs, Some p) \<Rightarrow>
          (case mcs_ramfs_lookup fsp path of
             Inr existing \<Rightarrow>
               if vn_type (nodes fs ! existing) \<noteq> MCS_VNODE_FILE then (Inl MCS_EISDIR, fsp)
               else (Inr existing, fsp)
           | Inl _ \<Rightarrow>
               (case mcs_split_parent_leaf fs p of
                  Inl rc \<Rightarrow> (Inl rc, fsp)
                | Inr (parent, leaf, leaf_len) \<Rightarrow>
                    if vn_type (nodes fs ! parent) \<noteq> MCS_VNODE_DIR then (Inl MCS_ENOTDIR, fsp)
                    else let (r, fs') = mcs_alloc_node fs (vn_id (nodes fs ! parent)) MCS_VNODE_FILE
                                          leaf leaf_len 256
                         in (r, Some fs')))
      | _ \<Rightarrow> (Inl MCS_EINVAL, fsp))"

definition mcs_ramfs_seed_file ::
  "mcs_ramfs option \<Rightarrow> string option \<Rightarrow> u8 list option \<Rightarrow> nat
     \<Rightarrow> (mcs_vfs_status + unit) \<times> mcs_ramfs option" where
  "mcs_ramfs_seed_file fsp path data len =
     (if fsp = None \<or> path = None \<or> (data = None \<and> len \<noteq> 0) then (Inl MCS_EINVAL, fsp)
      else case mcs_ramfs_create_file fsp path of
        (Inr node, Some fs) \<Rightarrow>
          let v = nodes fs ! node in
          if len > vn_data_capacity v then (Inl MCS_ENOSPC, Some fs)
          else (Inr (), Some (fs
                 \<lparr>fs_data := mcs_copy_bytes (fs_data fs) (vn_data_offset v)
                               (case data of Some d \<Rightarrow> d | None \<Rightarrow> []) 0 len,
                  nodes := (nodes fs)[node := v\<lparr>vn_size := len\<rparr>]\<rparr>))
      | (Inl rc, fs) \<Rightarrow> (Inl rc, fs)
      | (Inr _, None) \<Rightarrow> (Inl MCS_EINVAL, None))"

declare split_loop.simps [simp del] lookup_loop.simps [simp del]

subsection \<open>Copies\<close>

lemma length_copy_bytes [simp]: "length (mcs_copy_bytes dst doff src soff n) = length dst"
  unfolding mcs_copy_bytes_def by (rule fold_invariant [where P = "\<lambda>d. length d = length dst"]) auto

lemma nth_copy_bytes:
  assumes "doff + n \<le> length dst" and "k < length dst"
  shows "mcs_copy_bytes dst doff src soff n ! k =
           (if doff \<le> k \<and> k < doff + n then src ! (soff + (k - doff)) else dst ! k)"
  using assms
proof (induction n)
  case 0
  then show ?case by (auto simp: mcs_copy_bytes_def)
next
  case (Suc n)
  have "mcs_copy_bytes dst doff src soff (Suc n) =
      (mcs_copy_bytes dst doff src soff n)[doff + n := src ! (soff + n)]"
    by (simp add: mcs_copy_bytes_def)
  with Suc show ?case by (auto simp: nth_list_update)
qed

lemma copy_bytes_inside:
  assumes "doff + n \<le> length dst" and "soff + n \<le> length src"
  shows "take n (drop doff (mcs_copy_bytes dst doff src soff n)) = take n (drop soff src)"
  using assms by (intro nth_equalityI) (auto simp: nth_copy_bytes)

lemma copy_bytes_outside:
  assumes "doff + n \<le> length dst" and "a + m \<le> doff \<or> doff + n \<le> a"
  shows "take m (drop a (mcs_copy_bytes dst doff src soff n)) = take m (drop a dst)"
  using assms by (intro nth_equalityI) (auto simp: nth_copy_bytes)

lemma copy_name_eq:
  assumes "length dst = 32" and "n < 32" and "n \<le> length src"
  shows "mcs_copy_name dst src n = take n src @ replicate (32 - n) NUL"
proof -
  have "map (\<lambda>i. NUL) [0..<32] = replicate 32 NUL"
    by (intro nth_equalityI) simp_all
  then have "fold (\<lambda>i dst. dst[i := NUL]) [0..<32] dst = replicate 32 NUL"
    using fold_set_prefix [of 32 dst "\<lambda>_. NUL"] assms(1) by simp
  moreover have "map (c_at src) [0..<n] = take n src"
    using assms(3) by (intro nth_equalityI) (simp_all add: c_at_def)
  ultimately show ?thesis
    using fold_set_prefix [of n "replicate 32 NUL" "c_at src"] assms(2)
    by (simp add: mcs_copy_name_def min_def)
qed

subsection \<open>Names and path components\<close>

definition plain_comp :: "string \<Rightarrow> bool" where
  "plain_comp s \<longleftrightarrow> CHR ''/'' \<notin> set s \<and> NUL \<notin> set s"

definition name_ok :: "string \<Rightarrow> bool" where
  "name_ok s \<longleftrightarrow> s \<noteq> [] \<and> length s < 32"

definition stored_name :: "string \<Rightarrow> string" where
  "stored_name nm = nm @ replicate (32 - length nm) NUL"

definition vname :: "mcs_vnode \<Rightarrow> string" where
  "vname v = takeWhile (\<lambda>c. c \<noteq> NUL) (vn_name v)"

definition path_of :: "string list \<Rightarrow> string" where
  "path_of cs = concat (map (\<lambda>c. CHR ''/'' # c) cs)"

lemma path_of_simps [simp]: "path_of [] = []" "path_of (c # cs) = CHR ''/'' # c @ path_of cs"
  by (simp_all add: path_of_def)

lemma strlen_no_nul: "NUL \<notin> set s \<Longrightarrow> strlen_loop s = length s"
  by (induction s) auto

lemma path_no_nul: "list_all plain_comp cs \<Longrightarrow> NUL \<notin> set (path_of cs)"
  by (induction cs) (auto simp: plain_comp_def)

text \<open>Every NUL-free string that starts with a slash is the path of one list of components.\<close>

lemma path_of_surj:
  assumes "NUL \<notin> set s"
  shows "\<exists>c cs. list_all plain_comp (c # cs) \<and> s = c @ path_of cs"
  using assms
proof (induction s)
  case Nil
  have "list_all plain_comp [[]] \<and> [] = [] @ path_of []" by (simp add: plain_comp_def)
  then show ?case by blast
next
  case (Cons x s)
  then obtain c cs where c: "list_all plain_comp (c # cs)" "s = c @ path_of cs" by auto
  show ?case
  proof (cases "x = CHR ''/''")
    case True
    then have "list_all plain_comp ([] # c # cs) \<and> x # s = [] @ path_of (c # cs)"
      using c by (simp add: plain_comp_def)
    then show ?thesis by blast
  next
    case False
    then have "list_all plain_comp ((x # c) # cs) \<and> x # s = (x # c) @ path_of cs"
      using c Cons.prems by (simp add: plain_comp_def)
    then show ?thesis by blast
  qed
qed

lemma path_tail_NUL: "c_at (path_of cs) 0 = NUL \<longleftrightarrow> cs = []"
  by (cases cs) (auto simp: c_at_def)

lemma seg_len_path:
  assumes "plain_comp c"
  shows "mcs_seg_len (c @ path_of cs) = length c"
proof -
  have "takeWhile (\<lambda>c. c \<noteq> CHR ''/'' \<and> c \<noteq> NUL) (c @ path_of cs) = c"
    using assms by (cases cs) (auto simp: plain_comp_def takeWhile_append)
  then show ?thesis by (simp add: mcs_seg_len_def)
qed

lemma streq_stored:
  assumes "NUL \<notin> set a" and "length a < 32" and "NUL \<notin> set nm" and "length nm < 32"
  shows "mcs_streq_n (a @ rest) (stored_name nm) (length a) \<longleftrightarrow> a = nm"
proof
  assume "a = nm"
  with assms show "mcs_streq_n (a @ rest) (stored_name nm) (length a)"
    by (auto simp: mcs_streq_n_def list_all_iff c_at_def nth_append stored_name_def)
next
  let ?b = "stored_name nm"
  assume eq: "mcs_streq_n (a @ rest) ?b (length a)"
  then have chars: "c_at ?b i = a ! i" if "i < length a" for i
    using that by (auto simp: mcs_streq_n_def list_all_iff c_at_def nth_append stored_name_def)
  have stored: "c_at ?b i = (if i < length nm then nm ! i else NUL)" for i
    by (auto simp: c_at_def nth_append stored_name_def)
  have "length nm \<le> length a"
  proof (rule ccontr)
    assume "\<not> length nm \<le> length a"
    then have "nm ! length a = NUL" using eq stored [of "length a"] by (simp add: mcs_streq_n_def)
    with \<open>\<not> length nm \<le> length a\<close> assms(3) show False by (metis not_le nth_mem)
  qed
  moreover have "length a \<le> length nm"
  proof (rule ccontr)
    assume less: "\<not> length a \<le> length nm"
    then have "a ! length nm = NUL" using chars [of "length nm"] stored [of "length nm"] by simp
    with less assms(1) show False by (metis not_le nth_mem)
  qed
  ultimately show "a = nm"
    using chars stored by (intro nth_equalityI) auto
qed

subsection \<open>The invariant of a file system\<close>

definition node_wf :: "mcs_ramfs \<Rightarrow> nat \<Rightarrow> mcs_vnode \<Rightarrow> bool" where
  "node_wf fs i v \<longleftrightarrow>
     vn_used v \<and> vn_id v = of_nat i \<and> length (vn_name v) = 32 \<and> vn_size v \<le> 256 \<and>
     unat (vn_parent v) < node_count fs \<and>
     vn_type (nodes fs ! unat (vn_parent v)) = MCS_VNODE_DIR \<and>
     (if i = 0 then vn_type v = MCS_VNODE_DIR \<and> c_at (vn_name v) 0 = CHR ''/''
      else plain_comp (vname v) \<and> name_ok (vname v) \<and> vn_name v = stored_name (vname v)) \<and>
     (vn_type v = MCS_VNODE_FILE \<longrightarrow>
        vn_size v \<le> vn_data_capacity v \<and> vn_data_capacity v = 256 \<and>
        vn_data_offset v + vn_data_capacity v \<le> data_used fs)"

definition slices_disjoint :: "mcs_vnode \<Rightarrow> mcs_vnode \<Rightarrow> bool" where
  "slices_disjoint v w \<longleftrightarrow>
     (vn_type v = MCS_VNODE_FILE \<and> vn_type w = MCS_VNODE_FILE \<longrightarrow>
      vn_data_offset v + vn_data_capacity v \<le> vn_data_offset w \<or>
      vn_data_offset w + vn_data_capacity w \<le> vn_data_offset v)"

definition ramfs_wf :: "mcs_ramfs \<Rightarrow> bool" where
  "ramfs_wf fs \<longleftrightarrow>
     length (nodes fs) = 64 \<and> length (fs_data fs) = 8192 \<and>
     list_all (\<lambda>v. length (vn_name v) = 32) (nodes fs) \<and>
     0 < node_count fs \<and> node_count fs \<le> 64 \<and> data_used fs \<le> 8192 \<and>
     (\<forall>i < node_count fs. node_wf fs i (nodes fs ! i)) \<and>
     (\<forall>i < node_count fs. \<forall>j < i. slices_disjoint (nodes fs ! i) (nodes fs ! j)) \<and>
     (\<forall>i < node_count fs. \<forall>j < i. 0 < j \<longrightarrow>
        vn_parent (nodes fs ! i) = vn_parent (nodes fs ! j) \<longrightarrow>
        vname (nodes fs ! i) \<noteq> vname (nodes fs ! j))"

lemma ramfs_wfD:
  assumes "ramfs_wf fs"
  shows "length (nodes fs) = 64" "length (fs_data fs) = 8192" "0 < node_count fs"
    "node_count fs \<le> 64" "data_used fs \<le> 8192"
    "i < 64 \<Longrightarrow> length (vn_name (nodes fs ! i)) = 32"
    "i < node_count fs \<Longrightarrow> node_wf fs i (nodes fs ! i)"
  using assms by (auto simp: ramfs_wf_def list_all_length)

lemma ramfs_wf_slices:
  "ramfs_wf fs \<Longrightarrow> i < node_count fs \<Longrightarrow> j < node_count fs \<Longrightarrow> i \<noteq> j \<Longrightarrow>
     slices_disjoint (nodes fs ! i) (nodes fs ! j)"
  by (cases "i < j") (auto simp: ramfs_wf_def slices_disjoint_def)

subsection \<open>The directory tree as a map\<close>

definition dir_map :: "mcs_ramfs \<Rightarrow> nat \<times> string \<Rightarrow> nat option" where
  "dir_map fs = (\<lambda>(p, c). find (\<lambda>i. 0 < i \<and> unat (vn_parent (nodes fs ! i)) = p \<and>
                                     vname (nodes fs ! i) = c) [0..<node_count fs])"

definition is_dir :: "mcs_ramfs \<Rightarrow> nat \<Rightarrow> bool" where
  "is_dir fs i \<longleftrightarrow> i < node_count fs \<and> vn_type (nodes fs ! i) = MCS_VNODE_DIR"

fun resolve :: "(nat \<times> string \<Rightarrow> nat option) \<Rightarrow> (nat \<Rightarrow> bool) \<Rightarrow> nat \<Rightarrow> string list
    \<Rightarrow> mcs_vfs_status + nat" where
  "resolve m isdir cur [] = Inr cur"
| "resolve m isdir cur (c # cs) =
     (if \<not> name_ok c then Inl MCS_EINVAL
      else case m (cur, c) of
        None \<Rightarrow> Inl MCS_ENOENT
      | Some i \<Rightarrow> if cs = [] then Inr i
                  else if \<not> isdir i then Inl MCS_ENOTDIR else resolve m isdir i cs)"

fun resolve_parent :: "(nat \<times> string \<Rightarrow> nat option) \<Rightarrow> (nat \<Rightarrow> bool) \<Rightarrow> nat \<Rightarrow> string list
    \<Rightarrow> mcs_vfs_status + nat \<times> string" where
  "resolve_parent m isdir cur [] = Inl MCS_EINVAL"
| "resolve_parent m isdir cur (c # cs) =
     (if \<not> name_ok c then Inl MCS_EINVAL
      else if cs = [] then Inr (cur, c)
      else case m (cur, c) of
        None \<Rightarrow> Inl MCS_ENOENT
      | Some i \<Rightarrow> if \<not> isdir i then Inl MCS_ENOTDIR else resolve_parent m isdir i cs)"

lemma of_nat_eq_unat: "i < 64 \<Longrightarrow> (w :: u32) = of_nat i \<longleftrightarrow> unat w = i"
  by (auto simp: unat_of_nat)

lemma find_SomeD: "find P xs = Some x \<Longrightarrow> P x \<and> x \<in> set xs"
  by (auto simp: find_Some_iff)

lemma dir_map_bound: "dir_map fs (p, c) = Some i \<Longrightarrow> 0 < i \<and> i < node_count fs"
  by (auto simp: dir_map_def dest!: find_SomeD)

lemma find_child_dir_map:
  assumes wf: "ramfs_wf fs" and c: "plain_comp c" and cur: "cur < node_count fs"
  shows "mcs_find_child fs (vn_id (nodes fs ! cur)) (c @ rest) (length c) =
     (if \<not> name_ok c then Inl MCS_EINVAL
      else case dir_map fs (cur, c) of None \<Rightarrow> Inl MCS_ENOENT | Some i \<Rightarrow> Inr i)"
proof (cases "name_ok c")
  case True
  have id: "vn_id (nodes fs ! cur) = of_nat cur"
    using ramfs_wfD(7) [OF wf cur] by (simp add: node_wf_def)
  have par: "(w :: u32) = of_nat cur \<longleftrightarrow> unat w = cur" for w
    using cur ramfs_wfD(4) [OF wf] of_nat_eq_unat [of cur w] by simp
  have eq: "vn_used (nodes fs ! i) \<and> vn_parent (nodes fs ! i) = of_nat cur \<and>
        mcs_streq_n (c @ rest) (vn_name (nodes fs ! i)) (length c) \<longleftrightarrow>
      0 < i \<and> unat (vn_parent (nodes fs ! i)) = cur \<and> vname (nodes fs ! i) = c"
    if "i \<in> set [0..<node_count fs]" for i
  proof (cases i)
    case 0
    then have "c_at (vn_name (nodes fs ! i)) 0 = CHR ''/''"
      using ramfs_wfD(7) [OF wf, of i] that by (simp add: node_wf_def)
    moreover have "c_at (c @ rest) 0 \<noteq> CHR ''/''"
      using c True by (cases c) (auto simp: c_at_def plain_comp_def name_ok_def)
    moreover have "0 \<in> set [0..<length c]" using True by (simp add: name_ok_def)
    ultimately have "\<not> mcs_streq_n (c @ rest) (vn_name (nodes fs ! i)) (length c)"
      unfolding mcs_streq_n_def list_all_iff by metis
    with 0 show ?thesis by simp
  next
    case (Suc j)
    then have "vn_used (nodes fs ! i)" "vn_name (nodes fs ! i) = stored_name (vname (nodes fs ! i))"
      "plain_comp (vname (nodes fs ! i))" "name_ok (vname (nodes fs ! i))"
      using ramfs_wfD(7) [OF wf, of i] that by (simp_all add: node_wf_def)
    then show ?thesis
      using streq_stored [of c "vname (nodes fs ! i)" rest] c True Suc
      by (auto simp: plain_comp_def name_ok_def par)
  qed
  have "find (\<lambda>i. vn_used (nodes fs ! i) \<and> vn_parent (nodes fs ! i) = of_nat cur \<and>
        mcs_streq_n (c @ rest) (vn_name (nodes fs ! i)) (length c)) [0..<node_count fs] =
      find (\<lambda>i. 0 < i \<and> unat (vn_parent (nodes fs ! i)) = cur \<and> vname (nodes fs ! i) = c)
        [0..<node_count fs]"
    by (intro find_cong refl eq)
  then show ?thesis
    using True by (simp add: mcs_find_child_def dir_map_def id name_ok_def)
qed (auto simp: mcs_find_child_def name_ok_def)

lemma head_NUL: "plain_comp c \<Longrightarrow> c \<noteq> [] \<Longrightarrow> c_at (c @ s) 0 \<noteq> NUL"
  by (cases c) (auto simp: c_at_def plain_comp_def)

lemma lookup_loop_path:
  assumes "plain_comp c"
  shows "lookup_loop fs cur (c @ path_of cs) =
     (if \<not> name_ok c then Inl MCS_EINVAL
      else case mcs_find_child fs (vn_id (nodes fs ! cur)) (c @ path_of cs) (length c) of
          Inl rc \<Rightarrow> Inl rc
        | Inr cur \<Rightarrow>
            if cs = [] then Inr cur
            else if vn_type (nodes fs ! cur) \<noteq> MCS_VNODE_DIR then Inl MCS_ENOTDIR
            else lookup_loop fs cur (drop 1 (path_of cs)))"
proof (cases "c = []")
  case True
  then show ?thesis
    using seg_len_path [OF assms, of cs]
    by (subst lookup_loop.simps) (simp add: name_ok_def)
next
  case False
  then show ?thesis
    using head_NUL [OF assms False, of "path_of cs"] seg_len_path [OF assms, of cs]
    by (subst lookup_loop.simps) (simp add: Let_def path_tail_NUL name_ok_def cong: sum.case_cong if_cong)
qed

lemma split_loop_path:
  assumes "plain_comp c"
  shows "split_loop fs cur (c @ path_of cs) =
     (if \<not> name_ok c then Inl MCS_EINVAL
      else if cs = [] then Inr (cur, c, length c)
      else case mcs_find_child fs (vn_id (nodes fs ! cur)) (c @ path_of cs) (length c) of
          Inl rc \<Rightarrow> Inl rc
        | Inr cur \<Rightarrow>
            if vn_type (nodes fs ! cur) \<noteq> MCS_VNODE_DIR then Inl MCS_ENOTDIR
            else split_loop fs cur (drop 1 (path_of cs)))"
  by (subst split_loop.simps)
    (auto simp: seg_len_path [OF assms] Let_def path_tail_NUL name_ok_def split: sum.splits)

lemma lookup_loop_resolve:
  assumes "ramfs_wf fs" and "list_all plain_comp (c # cs)" and "cur < node_count fs"
  shows "lookup_loop fs cur (c @ path_of cs) = resolve (dir_map fs) (is_dir fs) cur (c # cs)"
  using assms
proof (induction cs arbitrary: c cur)
  case Nil
  then show ?case
    using find_child_dir_map [of fs c cur "path_of []"] lookup_loop_path [of c fs cur "[]"]
    by (simp split: option.splits)
next
  case (Cons d ds)
  have "lookup_loop fs i (d @ path_of ds) = resolve (dir_map fs) (is_dir fs) i (d # ds)"
    if "dir_map fs (cur, c) = Some i" for i
    using Cons.IH [of d i] Cons.prems dir_map_bound [OF that] by simp
  moreover have "is_dir fs i \<longleftrightarrow> vn_type (nodes fs ! i) = MCS_VNODE_DIR"
    if "dir_map fs (cur, c) = Some i" for i
    using dir_map_bound [OF that] by (simp add: is_dir_def)
  ultimately show ?case
    using Cons.prems find_child_dir_map [of fs c cur "path_of (d # ds)"]
      lookup_loop_path [of c fs cur "d # ds"]
    by (simp del: resolve.simps(2) add: resolve.simps(2) [of _ _ _ c] split: option.splits)
qed

lemma split_loop_resolve:
  assumes "ramfs_wf fs" and "list_all plain_comp (c # cs)" and "cur < node_count fs"
  shows "split_loop fs cur (c @ path_of cs) =
     map_sum (\<lambda>e. e) (\<lambda>(p, leaf). (p, leaf, length leaf))
       (resolve_parent (dir_map fs) (is_dir fs) cur (c # cs))"
  using assms
proof (induction cs arbitrary: c cur)
  case Nil
  then show ?case using split_loop_path [of c fs cur "[]"] by simp
next
  case (Cons d ds)
  have "split_loop fs i (d @ path_of ds) =
      map_sum (\<lambda>e. e) (\<lambda>(p, leaf). (p, leaf, length leaf))
        (resolve_parent (dir_map fs) (is_dir fs) i (d # ds))"
    if "dir_map fs (cur, c) = Some i" for i
    using Cons.IH [of d i] Cons.prems dir_map_bound [OF that] by simp
  moreover have "is_dir fs i \<longleftrightarrow> vn_type (nodes fs ! i) = MCS_VNODE_DIR"
    if "dir_map fs (cur, c) = Some i" for i
    using dir_map_bound [OF that] by (simp add: is_dir_def)
  ultimately show ?case
    using Cons.prems find_child_dir_map [of fs c cur "path_of (d # ds)"]
      split_loop_path [of c fs cur "d # ds"]
    by (simp del: resolve_parent.simps(2) add: resolve_parent.simps(2) [of _ _ _ c]
        split: option.splits)
qed

lemma resolve_parent_bound:
  "ramfs_wf fs \<Longrightarrow> is_dir fs cur \<Longrightarrow>
     resolve_parent (dir_map fs) (is_dir fs) cur cs = Inr (p, leaf) \<Longrightarrow>
     is_dir fs p \<and> name_ok leaf \<and> leaf \<in> set cs"
  by (induction cs arbitrary: cur) (auto split: if_splits option.splits)

lemma resolve_bound:
  "0 < node_count fs \<Longrightarrow> cur < node_count fs \<Longrightarrow>
     resolve (dir_map fs) d cur cs = Inr i \<Longrightarrow> i < node_count fs"
  by (induction cs arbitrary: cur) (auto split: if_splits option.splits dest: dir_map_bound)

text \<open>If the whole path does not resolve but its parent does, the leaf is not bound.\<close>

lemma resolve_fails_leaf:
  "cs \<noteq> [] \<Longrightarrow> resolve m d cur cs = Inl rc \<Longrightarrow> resolve_parent m d cur cs = Inr (p, leaf) \<Longrightarrow>
     m (p, leaf) = None"
  by (induction cs arbitrary: cur) (auto split: if_splits option.splits)

subsection \<open>What a new vnode adds\<close>

definition file_data :: "mcs_ramfs \<Rightarrow> nat \<Rightarrow> u8 list" where
  "file_data fs i =
     take (vn_size (nodes fs ! i)) (drop (vn_data_offset (nodes fs ! i)) (fs_data fs))"

lemma vname_stored:
  assumes "plain_comp c"
  shows "takeWhile (\<lambda>c. c \<noteq> NUL) (stored_name c) = c"
  using assms by (auto simp: stored_name_def plain_comp_def takeWhile_append)

definition new_file :: "mcs_ramfs \<Rightarrow> nat \<Rightarrow> string \<Rightarrow> mcs_ramfs" where
  "new_file fs p leaf =
     fs\<lparr>nodes := (nodes fs)[node_count fs :=
           (nodes fs ! node_count fs)
             \<lparr>vn_used := True, vn_id := of_nat (node_count fs), vn_parent := of_nat p,
              vn_type := MCS_VNODE_FILE, vn_name := stored_name leaf, vn_size := 0,
              vn_data_offset := data_used fs, vn_data_capacity := 256\<rparr>],
        data_used := data_used fs + 256, node_count := node_count fs + 1\<rparr>"

lemma alloc_node_eq:
  assumes wf: "ramfs_wf fs" and leaf: "name_ok leaf"
  shows "mcs_alloc_node fs (of_nat p) MCS_VNODE_FILE leaf (length leaf) 256 =
     (if node_count fs = 64 \<or> data_used fs + 256 > 8192 then (Inl MCS_ENOSPC, fs)
      else (Inr (node_count fs), new_file fs p leaf))"
proof -
  have "mcs_copy_name (vn_name (nodes fs ! node_count fs)) leaf (length leaf) = stored_name leaf"
    if "node_count fs < 64"
    using copy_name_eq [of _ "length leaf" leaf] ramfs_wfD(6) [OF wf that] leaf
    by (simp add: stored_name_def name_ok_def)
  then show ?thesis
    using ramfs_wfD(4) [OF wf] leaf
    by (auto simp: mcs_alloc_node_def name_ok_def new_file_def Let_def)
qed

lemma new_file_nodes:
  assumes "ramfs_wf fs" and "node_count fs < 64" and "plain_comp leaf"
  shows "i < node_count fs \<Longrightarrow> nodes (new_file fs p leaf) ! i = nodes fs ! i"
    "vname (nodes (new_file fs p leaf) ! node_count fs) = leaf"
    "vn_parent (nodes (new_file fs p leaf) ! node_count fs) = of_nat p"
    "vn_type (nodes (new_file fs p leaf) ! node_count fs) = MCS_VNODE_FILE"
    "vn_size (nodes (new_file fs p leaf) ! node_count fs) = 0"
    "node_count (new_file fs p leaf) = node_count fs + 1"
    "fs_data (new_file fs p leaf) = fs_data fs"
    "data_used (new_file fs p leaf) = data_used fs + 256"
  using assms ramfs_wfD(1) [OF assms(1)] vname_stored [OF assms(3)]
  by (simp_all add: new_file_def vname_def)

lemma find_append: "find P (xs @ ys) = (case find P xs of None \<Rightarrow> find P ys | Some x \<Rightarrow> Some x)"
  by (induction xs) auto

lemma dir_map_new_file:
  assumes wf: "ramfs_wf fs" and n: "node_count fs < 64" and p: "p < node_count fs"
    and leaf: "plain_comp leaf" and fresh: "dir_map fs (p, leaf) = None"
  shows "dir_map (new_file fs p leaf) = (dir_map fs)((p, leaf) \<mapsto> node_count fs)"
proof (rule ext, clarify)
  fix q c
  let ?fs = "new_file fs p leaf" and ?n = "node_count fs"
  have old: "find (\<lambda>i. 0 < i \<and> unat (vn_parent (nodes ?fs ! i)) = q \<and> vname (nodes ?fs ! i) = c)
        [0..<?n] = dir_map fs (q, c)"
    using new_file_nodes(1) [OF wf n leaf] by (auto simp: dir_map_def intro!: find_cong)
  have "unat (of_nat p :: u32) = p" using p n by (simp add: unat_of_nat)
  then show "dir_map ?fs (q, c) = ((dir_map fs)((p, leaf) \<mapsto> ?n)) (q, c)"
    using old new_file_nodes(2,3,6) [OF wf n leaf, of p] ramfs_wfD(3) [OF wf] fresh
    by (auto simp: dir_map_def find_append split: option.splits)
qed

lemma dir_map_none:
  assumes "dir_map fs (p, c) = None" and "0 < i" and "i < node_count fs"
  shows "unat (vn_parent (nodes fs ! i)) \<noteq> p \<or> vname (nodes fs ! i) \<noteq> c"
  using assms by (auto simp: dir_map_def find_None_iff)

lemma node_wf_grow:
  assumes wf: "ramfs_wf fs" and n: "node_count fs < 64" and leaf: "plain_comp leaf"
    and i: "node_wf fs i v"
  shows "node_wf (new_file fs p leaf) i v"
proof -
  have "unat (vn_parent v) < node_count fs" using i by (simp add: node_wf_def)
  then show ?thesis
    using i new_file_nodes(1,6,8) [OF wf n leaf] by (auto simp: node_wf_def)
qed

lemma new_file_wf:
  assumes wf: "ramfs_wf fs" and n: "node_count fs < 64" and d: "data_used fs + 256 \<le> 8192"
    and p: "is_dir fs p" and leaf: "plain_comp leaf" "name_ok leaf"
    and fresh: "dir_map fs (p, leaf) = None"
  shows "ramfs_wf (new_file fs p leaf)"
proof -
  let ?fs = "new_file fs p leaf" and ?n = "node_count fs"
  note new = new_file_nodes [OF wf n leaf(1), where p = p]
  have p': "p < ?n" "unat (of_nat p :: u32) = p"
    using p n by (auto simp: is_dir_def unat_of_nat)
  have len: "length (stored_name leaf) = 32" using leaf(2) by (simp add: stored_name_def name_ok_def)
  have node: "node_wf ?fs ?n (nodes ?fs ! ?n)"
    using p p' new(1) [of p] leaf len n ramfs_wfD(1,3) [OF wf] vname_stored [OF leaf(1)]
    by (auto simp: node_wf_def is_dir_def new_file_def vname_def)
  have nodes: "node_wf ?fs i (nodes ?fs ! i)" if "i < ?n + 1" for i
    using that node node_wf_grow [OF wf n leaf(1) ramfs_wfD(7) [OF wf]] new(1)
    by (cases "i = ?n") auto
  have slices: "slices_disjoint (nodes ?fs ! i) (nodes ?fs ! j)" if "i < ?n + 1" "j < i" for i j
  proof (cases "i = ?n")
    case True
    then show ?thesis
      using ramfs_wfD(7) [OF wf, of j] new(1) [of j] that n ramfs_wfD(1) [OF wf]
      by (auto simp: slices_disjoint_def node_wf_def new_file_def)
  next
    case False
    then show ?thesis using ramfs_wf_slices [OF wf, of i j] new(1) that by simp
  qed
  have uniq: "vname (nodes ?fs ! i) \<noteq> vname (nodes ?fs ! j)"
    if "i < ?n + 1" "j < i" "0 < j" "vn_parent (nodes ?fs ! i) = vn_parent (nodes ?fs ! j)" for i j
  proof (cases "i = ?n")
    case True
    then show ?thesis
      using dir_map_none [OF fresh, of j] new p' that by auto
  next
    case False
    then show ?thesis using wf new(1) that by (simp add: ramfs_wf_def)
  qed
  have "length (vn_name (nodes ?fs ! i)) = 32" if "i < 64" for i
    using that len ramfs_wfD(1,6) [OF wf] n by (cases "i = ?n") (auto simp: new_file_def)
  then have "list_all (\<lambda>v. length (vn_name v) = 32) (nodes ?fs)"
    using ramfs_wfD(1) [OF wf] by (simp add: list_all_length new_file_def)
  moreover have "length (nodes ?fs) = 64" "length (fs_data ?fs) = 8192" "data_used ?fs \<le> 8192"
      "0 < node_count ?fs" "node_count ?fs \<le> 64"
    using ramfs_wfD [OF wf] n d by (simp_all add: new_file_def)
  ultimately show ?thesis
    unfolding ramfs_wf_def using nodes slices uniq new(6) by simp
qed

subsection \<open>The specification of the operations\<close>

record fs_view =
  fv_bind :: "nat \<times> string \<Rightarrow> nat option"
  fv_dir :: "nat \<Rightarrow> bool"
  fv_file :: "nat \<Rightarrow> u8 list option"
  fv_count :: nat
  fv_used :: nat

definition is_file :: "mcs_ramfs \<Rightarrow> nat \<Rightarrow> bool" where
  "is_file fs i \<longleftrightarrow> i < node_count fs \<and> vn_type (nodes fs ! i) = MCS_VNODE_FILE"

definition view :: "mcs_ramfs \<Rightarrow> fs_view" where
  "view fs =
     \<lparr>fv_bind = dir_map fs, fv_dir = is_dir fs,
      fv_file = (\<lambda>i. if is_file fs i then Some (file_data fs i) else None),
      fv_count = node_count fs, fv_used = data_used fs\<rparr>"

definition spec_lookup :: "fs_view \<Rightarrow> string list \<Rightarrow> mcs_vfs_status + nat" where
  "spec_lookup V cs =
     (if length (path_of cs) \<ge> 128 then Inl MCS_ENAMETOOLONG
      else if cs = [[]] then Inr 0
      else resolve (fv_bind V) (fv_dir V) 0 cs)"

definition spec_create :: "fs_view \<Rightarrow> string list \<Rightarrow> (mcs_vfs_status + nat) \<times> fs_view" where
  "spec_create V cs =
     (case spec_lookup V cs of
        Inr i \<Rightarrow> if fv_file V i = None then (Inl MCS_EISDIR, V) else (Inr i, V)
      | Inl _ \<Rightarrow>
          if length (path_of cs) \<ge> 128 then (Inl MCS_ENAMETOOLONG, V)
          else (case resolve_parent (fv_bind V) (fv_dir V) 0 cs of
            Inl rc \<Rightarrow> (Inl rc, V)
          | Inr (p, leaf) \<Rightarrow>
              if fv_count V = 64 \<or> fv_used V + 256 > 8192 then (Inl MCS_ENOSPC, V)
              else (Inr (fv_count V),
                    V\<lparr>fv_bind := (fv_bind V)((p, leaf) \<mapsto> fv_count V),
                      fv_file := (fv_file V)(fv_count V \<mapsto> []),
                      fv_count := fv_count V + 1, fv_used := fv_used V + 256\<rparr>)))"

lemma wf_root: "ramfs_wf fs \<Longrightarrow> is_dir fs 0"
  using ramfs_wfD(3) [of fs] ramfs_wfD(7) [of fs 0] by (simp add: is_dir_def node_wf_def)

lemma path_of_head: "list_all plain_comp cs \<Longrightarrow> cs \<noteq> [] \<Longrightarrow>
    c_at (path_of cs) 0 = CHR ''/'' \<and> (c_at (path_of cs) 1 = NUL \<longleftrightarrow> cs = [[]])"
  by (cases cs; cases "hd cs"; cases "tl cs") (auto simp: c_at_def plain_comp_def)

lemma path_of_drop: "drop 1 (path_of (c # cs)) = c @ path_of cs"
  by simp

lemma ramfs_lookup_resolve:
  assumes wf: "ramfs_wf fs" and cs: "list_all plain_comp cs" "cs \<noteq> []"
  shows "mcs_ramfs_lookup (Some fs) (Some (path_of cs)) = spec_lookup (view fs) cs"
proof -
  obtain c ds where "cs = c # ds" using cs(2) by (cases cs) auto
  then have "lookup_loop fs 0 (drop 1 (path_of cs)) = resolve (dir_map fs) (is_dir fs) 0 cs"
    using lookup_loop_resolve [OF wf, of c ds 0] cs(1) ramfs_wfD(3) [OF wf] by simp
  then show ?thesis
    using path_of_head [OF cs] strlen_no_nul [OF path_no_nul [OF cs(1)]]
    by (simp add: mcs_ramfs_lookup_def mcs_strlen_def spec_lookup_def view_def)
qed

lemma split_parent_leaf_resolve:
  assumes wf: "ramfs_wf fs" and cs: "list_all plain_comp cs" "cs \<noteq> []"
  shows "mcs_split_parent_leaf fs (path_of cs) =
     (if cs = [[]] then Inl MCS_EINVAL
      else if length (path_of cs) \<ge> 128 then Inl MCS_ENAMETOOLONG
      else map_sum (\<lambda>e. e) (\<lambda>(p, leaf). (p, leaf, length leaf))
             (resolve_parent (dir_map fs) (is_dir fs) 0 cs))"
proof -
  obtain c ds where "cs = c # ds" using cs(2) by (cases cs) auto
  then have "split_loop fs 0 (drop 1 (path_of cs)) =
      map_sum (\<lambda>e. e) (\<lambda>(p, leaf). (p, leaf, length leaf))
        (resolve_parent (dir_map fs) (is_dir fs) 0 cs)"
    using split_loop_resolve [OF wf, of c ds 0] cs(1) ramfs_wfD(3) [OF wf] by simp
  then show ?thesis
    using path_of_head [OF cs] strlen_no_nul [OF path_no_nul [OF cs(1)]]
    by (simp add: mcs_split_parent_leaf_def mcs_strlen_def)
qed

lemma spec_lookup_bound:
  "ramfs_wf fs \<Longrightarrow> spec_lookup (view fs) cs = Inr i \<Longrightarrow> i < node_count fs"
  using ramfs_wfD(3) [of fs] resolve_bound [of fs 0 "is_dir fs" cs i]
  by (auto simp: spec_lookup_def view_def simp del: resolve.simps split: if_splits)

lemma view_new_file:
  assumes wf: "ramfs_wf fs" and n: "node_count fs < 64" and p: "is_dir fs p"
    and leaf: "plain_comp leaf" and fresh: "dir_map fs (p, leaf) = None"
  shows "view (new_file fs p leaf) = (view fs)
    \<lparr>fv_bind := (dir_map fs)((p, leaf) \<mapsto> node_count fs),
     fv_file := (fv_file (view fs))(node_count fs \<mapsto> []),
     fv_count := node_count fs + 1, fv_used := data_used fs + 256\<rparr>"
proof -
  let ?fs = "new_file fs p leaf"
  note new = new_file_nodes [OF wf n leaf, where p = p]
  have "dir_map ?fs = (dir_map fs)((p, leaf) \<mapsto> node_count fs)"
    using dir_map_new_file [OF wf n _ leaf fresh] p by (simp add: is_dir_def)
  moreover have "is_dir ?fs i = is_dir fs i" for i
    using new by (cases "i = node_count fs") (auto simp: is_dir_def)
  moreover have "fv_file (view ?fs) i = ((fv_file (view fs))(node_count fs \<mapsto> [])) i" for i
    using new by (cases "i = node_count fs") (auto simp: view_def is_file_def file_data_def)
  ultimately show ?thesis
    using new(6,8) by (simp add: view_def fun_eq_iff)
qed

lemma create_file_eq:
  assumes wf: "ramfs_wf fs" and cs: "list_all plain_comp cs" "cs \<noteq> []"
  shows "mcs_ramfs_create_file (Some fs) (Some (path_of cs)) =
     (case spec_lookup (view fs) cs of
        Inr i \<Rightarrow> if is_file fs i then (Inr i, Some fs) else (Inl MCS_EISDIR, Some fs)
      | Inl _ \<Rightarrow>
          if length (path_of cs) \<ge> 128 then (Inl MCS_ENAMETOOLONG, Some fs)
          else (case resolve_parent (dir_map fs) (is_dir fs) 0 cs of
            Inl rc \<Rightarrow> (Inl rc, Some fs)
          | Inr (p, leaf) \<Rightarrow>
              if node_count fs = 64 \<or> data_used fs + 256 > 8192 then (Inl MCS_ENOSPC, Some fs)
              else (Inr (node_count fs), Some (new_file fs p leaf))))"
proof (cases "spec_lookup (view fs) cs")
  case (Inr i)
  then have "is_file fs i \<longleftrightarrow> vn_type (nodes fs ! i) = MCS_VNODE_FILE"
    using spec_lookup_bound [OF wf] by (simp add: is_file_def)
  then show ?thesis
    using Inr by (simp add: mcs_ramfs_create_file_def ramfs_lookup_resolve [OF wf cs])
next
  case (Inl rc)
  have "spec_lookup (view fs) [[]] = Inr 0" by (simp add: spec_lookup_def)
  then have "cs \<noteq> [[]]" using Inl by auto
  moreover have "vn_type (nodes fs ! p) = MCS_VNODE_DIR \<and> vn_id (nodes fs ! p) = of_nat p \<and>
      mcs_alloc_node fs (of_nat p) MCS_VNODE_FILE leaf (length leaf) 256 =
        (if node_count fs = 64 \<or> data_used fs + 256 > 8192 then (Inl MCS_ENOSPC, fs)
         else (Inr (node_count fs), new_file fs p leaf))"
    if "resolve_parent (dir_map fs) (is_dir fs) 0 cs = Inr (p, leaf)" for p leaf
    using resolve_parent_bound [OF wf wf_root [OF wf] that] alloc_node_eq [OF wf, of leaf p]
      ramfs_wfD(7) [OF wf, of p] by (simp add: is_dir_def node_wf_def)
  ultimately show ?thesis
    using Inl by (auto simp: mcs_ramfs_create_file_def ramfs_lookup_resolve [OF wf cs]
        split_parent_leaf_resolve [OF wf cs] split: sum.splits)
qed

subsection \<open>Writing into the slice of a file\<close>

definition put_file ::
  "mcs_ramfs \<Rightarrow> nat \<Rightarrow> nat \<Rightarrow> u8 list \<Rightarrow> nat \<Rightarrow> nat \<Rightarrow> nat \<Rightarrow> mcs_ramfs" where
  "put_file fs i off src soff n sz =
     fs\<lparr>fs_data := mcs_copy_bytes (fs_data fs) (vn_data_offset (nodes fs ! i) + off) src soff n,
        nodes := (nodes fs)[i := (nodes fs ! i)\<lparr>vn_size := sz\<rparr>]\<rparr>"

definition slot :: "mcs_ramfs \<Rightarrow> nat \<Rightarrow> u8 list" where
  "slot fs i =
     take (vn_data_capacity (nodes fs ! i)) (drop (vn_data_offset (nodes fs ! i)) (fs_data fs))"

lemma is_fileD:
  assumes "ramfs_wf fs" and "is_file fs i"
  shows "i < node_count fs" "i < 64" "vn_size (nodes fs ! i) \<le> vn_data_capacity (nodes fs ! i)"
    "vn_data_offset (nodes fs ! i) + vn_data_capacity (nodes fs ! i) \<le> length (fs_data fs)"
    "vn_type (nodes fs ! i) = MCS_VNODE_FILE" "vn_data_capacity (nodes fs ! i) = 256"
  using assms ramfs_wfD(2,4,5) [OF assms(1)] ramfs_wfD(7) [OF assms(1), of i]
  by (auto simp: is_file_def node_wf_def)

lemma file_data_slot:
  assumes "ramfs_wf fs" and "is_file fs i"
  shows "file_data fs i = take (vn_size (nodes fs ! i)) (slot fs i)"
    "length (slot fs i) = vn_data_capacity (nodes fs ! i)"
  using is_fileD [OF assms] by (simp_all add: file_data_def slot_def min_absorb1)

lemma put_file_simps [simp]:
  "node_count (put_file fs i off src soff n sz) = node_count fs"
  "data_used (put_file fs i off src soff n sz) = data_used fs"
  "j \<noteq> i \<Longrightarrow> nodes (put_file fs i off src soff n sz) ! j = nodes fs ! j"
  "length (nodes (put_file fs i off src soff n sz)) = length (nodes fs)"
  "length (fs_data (put_file fs i off src soff n sz)) = length (fs_data fs)"
  by (simp_all add: put_file_def)

lemma put_file_data [simp]:
  "fs_data (put_file fs i off src soff n sz) =
     mcs_copy_bytes (fs_data fs) (vn_data_offset (nodes fs ! i) + off) src soff n"
  by (simp add: put_file_def)

lemma copy_bytes_slice:
  assumes "off + n \<le> cap" and "a + cap \<le> length d"
  shows "take cap (drop a (mcs_copy_bytes d (a + off) src soff n)) =
    mcs_copy_bytes (take cap (drop a d)) off src soff n"
proof (rule nth_equalityI)
  fix k
  assume "k < length (take cap (drop a (mcs_copy_bytes d (a + off) src soff n)))"
  then have k: "k < cap" by simp
  have "mcs_copy_bytes d (a + off) src soff n ! (a + k) =
      (if off \<le> k \<and> k < off + n then src ! (soff + (k - off)) else d ! (a + k))"
    using assms k nth_copy_bytes [of "a + off" n d "a + k" src soff] by auto
  moreover have "mcs_copy_bytes (take cap (drop a d)) off src soff n ! k =
      (if off \<le> k \<and> k < off + n then src ! (soff + (k - off)) else d ! (a + k))"
    using assms k nth_copy_bytes [of off n "take cap (drop a d)" k src soff] by auto
  ultimately show "take cap (drop a (mcs_copy_bytes d (a + off) src soff n)) ! k =
      mcs_copy_bytes (take cap (drop a d)) off src soff n ! k"
    using assms k by simp
qed simp

lemma put_file_node [simp]:
  "i < length (nodes fs) \<Longrightarrow>
     nodes (put_file fs i off src soff n sz) ! i = (nodes fs ! i)\<lparr>vn_size := sz\<rparr>"
  by (simp add: put_file_def)

lemma put_file_fields:
  assumes "i < length (nodes fs)"
  shows "vn_type (nodes (put_file fs i off src soff n sz) ! j) = vn_type (nodes fs ! j)"
    "vn_parent (nodes (put_file fs i off src soff n sz) ! j) = vn_parent (nodes fs ! j)"
    "vn_name (nodes (put_file fs i off src soff n sz) ! j) = vn_name (nodes fs ! j)"
    "vname (nodes (put_file fs i off src soff n sz) ! j) = vname (nodes fs ! j)"
    "vn_used (nodes (put_file fs i off src soff n sz) ! j) = vn_used (nodes fs ! j)"
    "vn_id (nodes (put_file fs i off src soff n sz) ! j) = vn_id (nodes fs ! j)"
    "vn_data_offset (nodes (put_file fs i off src soff n sz) ! j) = vn_data_offset (nodes fs ! j)"
    "vn_data_capacity (nodes (put_file fs i off src soff n sz) ! j) = vn_data_capacity (nodes fs ! j)"
    "vn_size (nodes (put_file fs i off src soff n sz) ! j) =
       (if j = i then sz else vn_size (nodes fs ! j))"
  using assms by (cases "j = i"; simp add: vname_def)+

lemma put_file_wf:
  assumes wf: "ramfs_wf fs" and f: "is_file fs i" and sz: "sz \<le> vn_data_capacity (nodes fs ! i)"
  shows "ramfs_wf (put_file fs i off src soff n sz)"
proof -
  let ?fs = "put_file fs i off src soff n sz"
  have i: "i < length (nodes fs)" using is_fileD(2) [OF wf f] ramfs_wfD(1) [OF wf] by simp
  note fields = put_file_fields [OF i, of off src soff n sz]
  have "node_wf ?fs j (nodes ?fs ! j)" if "j < node_count fs" for j
    using ramfs_wfD(7) [OF wf that] sz is_fileD(6) [OF wf f] by (auto simp: node_wf_def fields)
  moreover have "slices_disjoint (nodes ?fs ! j) (nodes ?fs ! k) \<longleftrightarrow>
      slices_disjoint (nodes fs ! j) (nodes fs ! k)" for j k
    by (simp add: slices_disjoint_def fields)
  ultimately show ?thesis
    using wf by (simp add: ramfs_wf_def fields list_all_length)
qed

lemma put_file_tree:
  assumes wf: "ramfs_wf fs" and f: "is_file fs i"
  shows "dir_map (put_file fs i off src soff n sz) = dir_map fs"
    "is_dir (put_file fs i off src soff n sz) = is_dir fs"
    "is_file (put_file fs i off src soff n sz) = is_file fs"
proof -
  have "i < length (nodes fs)" using is_fileD(2) [OF wf f] ramfs_wfD(1) [OF wf] by simp
  note fields = put_file_fields [OF this, of off src soff n sz]
  show "dir_map (put_file fs i off src soff n sz) = dir_map fs"
    "is_dir (put_file fs i off src soff n sz) = is_dir fs"
    "is_file (put_file fs i off src soff n sz) = is_file fs"
    by (simp_all add: fun_eq_iff dir_map_def is_dir_def is_file_def fields)
qed

lemma put_file_slot:
  assumes wf: "ramfs_wf fs" and f: "is_file fs i"
    and n: "off + n \<le> vn_data_capacity (nodes fs ! i)"
  shows "slot (put_file fs i off src soff n sz) i = mcs_copy_bytes (slot fs i) off src soff n"
    "is_file fs j \<Longrightarrow> j \<noteq> i \<Longrightarrow> slot (put_file fs i off src soff n sz) j = slot fs j"
proof -
  have i: "i < length (nodes fs)" using is_fileD(2) [OF wf f] ramfs_wfD(1) [OF wf] by simp
  note fields = put_file_fields [OF i, of off src soff n sz]
  note D = is_fileD [OF wf f]
  show "slot (put_file fs i off src soff n sz) i = mcs_copy_bytes (slot fs i) off src soff n"
    using copy_bytes_slice [OF n D(4)] by (simp add: slot_def fields)
  show "slot (put_file fs i off src soff n sz) j = slot fs j" if j: "is_file fs j" "j \<noteq> i"
  proof -
    have "slices_disjoint (nodes fs ! i) (nodes fs ! j)"
      using ramfs_wf_slices [OF wf D(1) is_fileD(1) [OF wf j(1)]] j(2) by simp
    then show ?thesis
      using D n j is_fileD(5) [OF wf j(1)]
      by (auto simp: slot_def slices_disjoint_def intro!: copy_bytes_outside)
  qed
qed

lemma put_file_other:
  assumes wf: "ramfs_wf fs" and f: "is_file fs i" and j: "is_file fs j" "j \<noteq> i"
    and n: "off + n \<le> vn_data_capacity (nodes fs ! i)"
    and sz: "sz \<le> vn_data_capacity (nodes fs ! i)"
  shows "file_data (put_file fs i off src soff n sz) j = file_data fs j"
  using file_data_slot(1) [OF put_file_wf [OF wf f sz, of off src soff n], of j] file_data_slot(1) [OF wf j(1)]
    put_file_slot(2) [OF wf f n j] put_file_tree(3) [OF wf f] j by simp

subsection \<open>Initialisation\<close>

definition ramfs_shape :: "mcs_ramfs \<Rightarrow> bool" where
  "ramfs_shape fs \<longleftrightarrow> length (nodes fs) = 64 \<and> length (fs_data fs) = 8192 \<and>
     list_all (\<lambda>v. length (vn_name v) = 32) (nodes fs)"

definition empty_view :: fs_view where
  "empty_view = \<lparr>fv_bind = (\<lambda>_. None), fv_dir = (\<lambda>i. i = 0), fv_file = (\<lambda>_. None),
                 fv_count = 1, fv_used = 0\<rparr>"

lemma ramfs_init_fields:
  assumes "ramfs_shape fs"
  shows "length (nodes (mcs_ramfs_init fs)) = 64" "fs_data (mcs_ramfs_init fs) = replicate 8192 0"
    "node_count (mcs_ramfs_init fs) = 1" "data_used (mcs_ramfs_init fs) = 0"
    "i < 64 \<Longrightarrow> length (vn_name (nodes (mcs_ramfs_init fs) ! i)) = 32"
    "vn_used (nodes (mcs_ramfs_init fs) ! 0)" "vn_id (nodes (mcs_ramfs_init fs) ! 0) = 0"
    "vn_parent (nodes (mcs_ramfs_init fs) ! 0) = 0" "vn_size (nodes (mcs_ramfs_init fs) ! 0) = 0"
    "vn_type (nodes (mcs_ramfs_init fs) ! 0) = MCS_VNODE_DIR"
    "c_at (vn_name (nodes (mcs_ramfs_init fs) ! 0)) 0 = CHR ''/''"
proof -
  have names: "length (vn_name (nodes fs ! i)) = 32" if "i < 64" for i
    using assms that by (auto simp: ramfs_shape_def list_all_length)
  have len: "length (nodes fs) = 64" "length (fs_data fs) = 8192"
    using assms by (auto simp: ramfs_shape_def)
  have ns: "fold (\<lambda>i ns. ns[i := init_node (ns ! i)]) [0..<64] (nodes fs) =
      map init_node (nodes fs)"
    using fold_update_each [of 64 "nodes fs" init_node] len by simp
  have "map (\<lambda>i. 0) [0..<8192] = replicate 8192 (0 :: u8)"
    by (intro nth_equalityI) simp_all
  then have "fold (\<lambda>i d. d[i := 0]) [0..<8192] (fs_data fs) = replicate 8192 0"
    using fold_set_prefix [of 8192 "fs_data fs" "\<lambda>_. 0"] len by simp
  note eqs = this ns len names
  show "fs_data (mcs_ramfs_init fs) = replicate 8192 0"
    unfolding mcs_ramfs_init_def mcs_limits Let_def eqs(1) by simp
  show "length (nodes (mcs_ramfs_init fs)) = 64"
    "node_count (mcs_ramfs_init fs) = 1" "data_used (mcs_ramfs_init fs) = 0"
    "i < 64 \<Longrightarrow> length (vn_name (nodes (mcs_ramfs_init fs) ! i)) = 32"
    "vn_used (nodes (mcs_ramfs_init fs) ! 0)" "vn_id (nodes (mcs_ramfs_init fs) ! 0) = 0"
    "vn_parent (nodes (mcs_ramfs_init fs) ! 0) = 0" "vn_size (nodes (mcs_ramfs_init fs) ! 0) = 0"
    "vn_type (nodes (mcs_ramfs_init fs) ! 0) = MCS_VNODE_DIR"
    "c_at (vn_name (nodes (mcs_ramfs_init fs) ! 0)) 0 = CHR ''/''"
    unfolding mcs_ramfs_init_def mcs_limits Let_def eqs(2)
    using len names [of 0] names [of i]
    by (cases "i = 0"; simp add: init_node_def c_at_def)+
qed

lemma ramfs_init_wf:
  assumes "ramfs_shape fs"
  shows "ramfs_wf (mcs_ramfs_init fs)"
  using ramfs_init_fields [OF assms]
  by (simp add: ramfs_wf_def node_wf_def list_all_length)

lemma ramfs_init_view:
  assumes "ramfs_shape fs"
  shows "view (mcs_ramfs_init fs) = empty_view"
proof -
  let ?fs = "mcs_ramfs_init fs"
  have "dir_map ?fs = (\<lambda>_. None)"
    using ramfs_init_fields(3) [OF assms] by (auto simp: dir_map_def fun_eq_iff)
  moreover have "is_dir ?fs = (\<lambda>i. i = 0)" "is_file ?fs = (\<lambda>_. False)"
    using ramfs_init_fields(3,10) [OF assms] by (auto simp: is_dir_def is_file_def fun_eq_iff)
  ultimately show ?thesis
    using ramfs_init_fields(3,4) [OF assms] by (simp add: view_def empty_view_def)
qed

definition blank_fs :: mcs_ramfs where
  "blank_fs =
     \<lparr>nodes = replicate 64 \<lparr>vn_used = False, vn_id = 0, vn_parent = 0, vn_type = MCS_VNODE_DIR,
        vn_name = replicate 32 NUL, vn_size = 0, vn_data_offset = 0, vn_data_capacity = 0\<rparr>,
      node_count = 0, fs_data = replicate 8192 0, data_used = 0\<rparr>"

lemma blank_fs_shape: "ramfs_shape blank_fs"
  by (simp add: ramfs_shape_def blank_fs_def list_all_length)

subsection \<open>Properties\<close>

text \<open>C16: On a well-formed file system, looking up the path made of any non-empty list of
  slash-free, NUL-free components gives exactly what resolving the components one after the
  other in the directory tree gives: the vnode, ENOENT, ENOTDIR on a file in the middle, EINVAL
  on an empty or overlong component, ENAMETOOLONG from 128 characters on, and the root for a
  lone slash.\<close>

theorem mcs_ramfs_lookup_refines:
  assumes "ramfs_wf fs" and "list_all plain_comp cs" and "cs \<noteq> []"
  shows "mcs_ramfs_lookup (Some fs) (Some (path_of cs)) = spec_lookup (view fs) cs"
  using assms by (rule ramfs_lookup_resolve)

theorem mcs_ramfs_lookup_refines_witness:
  "mcs_ramfs_lookup (Some (mcs_ramfs_init blank_fs)) (Some ''/etc/motd'') = Inl MCS_ENOENT"
proof -
  have "path_of [''etc'', ''motd''] = ''/etc/motd''" by simp
  moreover have "spec_lookup empty_view [''etc'', ''motd''] = Inl MCS_ENOENT"
    by (simp add: spec_lookup_def empty_view_def name_ok_def)
  ultimately show ?thesis
    using mcs_ramfs_lookup_refines
        [OF ramfs_init_wf [OF blank_fs_shape], of "[''etc'', ''motd'']"]
      ramfs_init_view [OF blank_fs_shape] by (simp add: plain_comp_def)
qed

lemma create_refines:
  assumes wf: "ramfs_wf fs" and cs: "list_all plain_comp cs" "cs \<noteq> []"
  obtains fs' where "snd (mcs_ramfs_create_file (Some fs) (Some (path_of cs))) = Some fs'"
    "ramfs_wf fs'"
    "(fst (mcs_ramfs_create_file (Some fs) (Some (path_of cs))), view fs') =
       spec_create (view fs) cs"
proof (cases "spec_lookup (view fs) cs")
  case (Inr i)
  then show thesis
    using that [of fs] wf create_file_eq [OF wf cs] by (auto simp: spec_create_def view_def)
next
  case (Inl rc)
  show thesis
  proof (cases "length (path_of cs) < 128 \<and> node_count fs < 64 \<and> data_used fs + 256 \<le> 8192")
    case False
    then show thesis
      using that [of fs] wf create_file_eq [OF wf cs] Inl ramfs_wfD(4) [OF wf]
      by (auto simp: spec_create_def view_def split: sum.splits)
  next
    case ok: True
    show thesis
    proof (cases "resolve_parent (dir_map fs) (is_dir fs) 0 cs")
      case (Inl e)
      then show thesis
        using that [of fs] wf create_file_eq [OF wf cs] \<open>spec_lookup (view fs) cs = Inl rc\<close> ok
        by (auto simp: spec_create_def view_def)
    next
      case (Inr r)
      then obtain p leaf where r: "resolve_parent (dir_map fs) (is_dir fs) 0 cs = Inr (p, leaf)"
        by (cases r) auto
      note b = resolve_parent_bound [OF wf wf_root [OF wf] r]
      have "cs \<noteq> [[]]" using Inl by (auto simp: spec_lookup_def)
      then have "resolve (dir_map fs) (is_dir fs) 0 cs = Inl rc"
        using Inl ok by (auto simp: spec_lookup_def view_def)
      then have fresh: "dir_map fs (p, leaf) = None"
        using resolve_fails_leaf [OF cs(2) _ r] by blast
      have plain: "plain_comp leaf" using b cs(1) by (auto simp: list_all_iff)
      show thesis
        using that [of "new_file fs p leaf"] create_file_eq [OF wf cs] Inl ok r
          new_file_wf [OF wf _ _ _ plain _ fresh] view_new_file [OF wf _ _ plain fresh] b
        by (auto simp: spec_create_def view_def)
    qed
  qed
qed

text \<open>C17: Creating a file on a well-formed file system implements the specification on
  every path: it returns an existing file, refuses a directory, reports the error of the first
  bad component, reports ENOSPC when the vnodes or the data area are exhausted, and otherwise
  adds exactly one binding to one new empty file; the result is well formed (unique names,
  disjoint data slices).\<close>

theorem mcs_ramfs_create_file_refines:
  assumes "ramfs_wf fs" and "list_all plain_comp cs" and "cs \<noteq> []"
  shows "\<exists>fs' r. mcs_ramfs_create_file (Some fs) (Some (path_of cs)) = (r, Some fs') \<and>
     ramfs_wf fs' \<and> spec_create (view fs) cs = (r, view fs')"
  using create_refines [OF assms] by (metis prod.collapse)

theorem mcs_ramfs_create_file_refines_witness:
  "fst (mcs_ramfs_create_file (Some (mcs_ramfs_init blank_fs)) (Some ''/motd'')) = Inr 1"
proof -
  have "fst (spec_create empty_view [''motd'']) = Inr 1"
    by (simp add: spec_create_def spec_lookup_def empty_view_def name_ok_def)
  then show ?thesis
    using mcs_ramfs_create_file_refines
        [OF ramfs_init_wf [OF blank_fs_shape], of "[''motd'']"]
      ramfs_init_view [OF blank_fs_shape] by (auto simp: plain_comp_def)
qed

lemma spec_create_file:
  assumes "ramfs_wf fs'" and "spec_create (view fs) cs = (Inr i, view fs')"
  shows "is_file fs' i"
proof -
  have "fv_file (view fs') i \<noteq> None"
    using assms(2) by (auto simp: spec_create_def split: sum.splits if_splits prod.splits
        dest: sym [of _ "view fs'"])
  then show ?thesis by (simp add: view_def split: if_splits)
qed

lemma put_file_data_0:
  assumes wf: "ramfs_wf fs" and f: "is_file fs i" and n: "n \<le> vn_data_capacity (nodes fs ! i)"
    and len: "n \<le> length src"
  shows "file_data (put_file fs i 0 src 0 n n) i = take n src"
proof -
  have i: "i < length (nodes fs)" using is_fileD(2) [OF wf f] ramfs_wfD(1) [OF wf] by simp
  have "file_data (put_file fs i 0 src 0 n n) i = take n (mcs_copy_bytes (slot fs i) 0 src 0 n)"
    using file_data_slot(1) [OF put_file_wf [OF wf f n, of 0 src 0 n], of i]
      put_file_slot(1) [OF wf f, of 0 n src 0 n] put_file_tree(3) [OF wf f] f n i by simp
  then show ?thesis
    using copy_bytes_inside [of 0 n "slot fs i" 0 src] len n file_data_slot(2) [OF wf f] by simp
qed

lemma view_put_file:
  assumes wf: "ramfs_wf fs" and f: "is_file fs i"
    and n: "off + n \<le> vn_data_capacity (nodes fs ! i)"
    and sz: "sz \<le> vn_data_capacity (nodes fs ! i)"
  shows "view (put_file fs i off src soff n sz) = (view fs)
    \<lparr>fv_file := (fv_file (view fs))(i \<mapsto> file_data (put_file fs i off src soff n sz) i)\<rparr>"
  using put_file_tree [OF wf f, of off src soff n sz] put_file_other [OF wf f _ _ n sz] f
  by (auto simp: view_def fun_eq_iff)

text \<open>Seeding a file creates it when it is missing and sets its contents to the given
  bytes and nothing else of the file system; more than 256 bytes are refused with ENOSPC, after
  the file has been created; errors of the creation are passed on.\<close>

lemma seed_file_contents:
  assumes wf: "ramfs_wf fs" and cs: "list_all plain_comp cs" "cs \<noteq> []" and len: "len \<le> length d"
    and new: "spec_create (view fs) cs = (r, V)"
  shows "\<exists>fs'. ramfs_wf fs' \<and>
    (case r of
       Inl rc \<Rightarrow> mcs_ramfs_seed_file (Some fs) (Some (path_of cs)) (Some d) len = (Inl rc, Some fs') \<and>
                 view fs' = V
     | Inr i \<Rightarrow>
         if len \<le> 256
         then mcs_ramfs_seed_file (Some fs) (Some (path_of cs)) (Some d) len = (Inr (), Some fs') \<and>
              view fs' = V\<lparr>fv_file := (fv_file V)(i \<mapsto> take len d)\<rparr>
         else mcs_ramfs_seed_file (Some fs) (Some (path_of cs)) (Some d) len =
                (Inl MCS_ENOSPC, Some fs') \<and> view fs' = V)"
proof -
  obtain fs1 where fs1: "mcs_ramfs_create_file (Some fs) (Some (path_of cs)) = (r, Some fs1)"
      "ramfs_wf fs1" "view fs1 = V"
    using create_refines [OF wf cs] new by (metis prod.collapse prod.inject)
  show ?thesis
  proof (cases r)
    case (Inl rc)
    then show ?thesis using fs1 by (auto simp: mcs_ramfs_seed_file_def)
  next
    case (Inr i)
    let ?fs' = "put_file fs1 i 0 d 0 len len" and ?cap = "vn_data_capacity (nodes fs1 ! i)"
    have f: "is_file fs1 i" using spec_create_file [OF fs1(2), of fs cs i] new Inr fs1(3) by simp
    show ?thesis
    proof (cases "len \<le> ?cap")
      case True
      have "view ?fs' = V\<lparr>fv_file := (fv_file V)(i \<mapsto> take len d)\<rparr>"
        using view_put_file [OF fs1(2) f, of 0 len len d 0] True fs1(3)
          put_file_data_0 [OF fs1(2) f True len] by simp
      moreover have "mcs_ramfs_seed_file (Some fs) (Some (path_of cs)) (Some d) len =
          (Inr (), Some ?fs')"
        using fs1(1) Inr True by (simp add: mcs_ramfs_seed_file_def put_file_def Let_def)
      ultimately show ?thesis
        using put_file_wf [OF fs1(2) f True] Inr True is_fileD(6) [OF fs1(2) f] by (intro exI [of _ ?fs']) simp
    next
      case False
      then show ?thesis
        using fs1 Inr is_fileD(6) [OF fs1(2) f]
        by (intro exI [of _ fs1]) (simp add: mcs_ramfs_seed_file_def Let_def)
    qed
  qed
qed

theorem seed_file_contents_witness:
  "\<exists>fs'. ramfs_wf fs' \<and> fv_file (view fs') 1 = Some [1, 2] \<and>
     mcs_ramfs_seed_file (Some (mcs_ramfs_init blank_fs)) (Some ''/motd'') (Some [1, 2, 3]) 2 =
       (Inr (), Some fs')"
proof -
  have "spec_create empty_view [''motd''] = (Inr 1,
      empty_view\<lparr>fv_bind := (fv_bind empty_view)((0, ''motd'') \<mapsto> 1),
        fv_file := (fv_file empty_view)(1 \<mapsto> []), fv_count := 2, fv_used := 256\<rparr>)"
    by (simp add: spec_create_def spec_lookup_def empty_view_def name_ok_def)
  then show ?thesis
    using seed_file_contents [OF ramfs_init_wf [OF blank_fs_shape],
        of "[''motd'']" 2 "[1, 2, 3]"]
      ramfs_init_view [OF blank_fs_shape] by (fastforce simp: plain_comp_def)
qed

end
