(* ===== verification/Fd.thy ===== *)
theory Fd
  imports Ramfs
begin

text \<open>
  File descriptors, \<open>mcsos/kernel/vfs/fd.c\<close> and \<open>sys_vfs.c\<close>: a table of 16 open files per
  process over file systems that live at addresses. A file-system pointer is an address
  (\<open>None\<close> for NULL), the file systems themselves are a heap from addresses to \<open>mcs_ramfs\<close>, and
  a vnode pointer is the address of its file system with its index there. A table or process
  pointer is an \<open>option\<close> of the structure, returned updated. A \<open>long\<close> is an \<open>int\<close> cut to 64
  bits by \<open>signed_take_bit 63\<close>, and the conversion to the \<open>int\<close> result of \<open>lseek\<close> is
  \<open>signed_take_bit 31\<close>. A user buffer is a list of bytes.
\<close>

subsection \<open>Data\<close>

definition MCS_MAX_OPEN_FILES :: nat where "MCS_MAX_OPEN_FILES = 16"

definition MCS_O_RDONLY :: u32 where "MCS_O_RDONLY = 0x0001"
definition MCS_O_WRONLY :: u32 where "MCS_O_WRONLY = 0x0002"
definition MCS_O_RDWR :: u32 where "MCS_O_RDWR = 0x0004"
definition MCS_O_CREAT :: u32 where "MCS_O_CREAT = 0x0100"
definition MCS_O_TRUNC :: u32 where "MCS_O_TRUNC = 0x0200"
definition MCS_O_APPEND :: u32 where "MCS_O_APPEND = 0x0400"

definition MCS_SEEK_SET :: int where "MCS_SEEK_SET = 0"
definition MCS_SEEK_CUR :: int where "MCS_SEEK_CUR = 1"
definition MCS_SEEK_END :: int where "MCS_SEEK_END = 2"

lemmas mcs_open_flags =
  MCS_O_RDONLY_def MCS_O_WRONLY_def MCS_O_RDWR_def MCS_O_CREAT_def MCS_O_TRUNC_def
  MCS_O_APPEND_def

lemmas mcs_seek = MCS_SEEK_SET_def MCS_SEEK_CUR_def MCS_SEEK_END_def

type_synonym fs_heap = "nat \<Rightarrow> mcs_ramfs"

record mcs_file =
  f_used :: bool
  f_flags :: u32
  f_offset :: nat
  f_node :: "(nat \<times> nat) option"
  f_fs :: "nat option"

record mcs_fd_table =
  files :: "mcs_file list"

record mcs_process =
  p_pid :: u32
  fd_table :: mcs_fd_table

abbreviation node_of :: "fs_heap \<Rightarrow> nat \<times> nat \<Rightarrow> mcs_vnode" where
  "node_of h p \<equiv> nodes (h (fst p)) ! snd p"

abbreviation set_file :: "mcs_fd_table \<Rightarrow> nat \<Rightarrow> mcs_file \<Rightarrow> mcs_fd_table" where
  "set_file t i f \<equiv> t\<lparr>files := (files t)[i := f]\<rparr>"

text \<open>A write of the \<open>size\<close> field through a vnode pointer.\<close>

definition set_node_size :: "fs_heap \<Rightarrow> nat \<times> nat \<Rightarrow> nat \<Rightarrow> fs_heap" where
  "set_node_size h p sz =
     h(fst p := (h (fst p))\<lparr>nodes := (nodes (h (fst p)))[snd p := (node_of h p)\<lparr>vn_size := sz\<rparr>]\<rparr>)"

subsection \<open>Helpers\<close>

definition mcs_min_size :: "nat \<Rightarrow> nat \<Rightarrow> nat" where
  "mcs_min_size a b = (if a < b then a else b)"

definition mcs_copy_to_user :: "u8 list \<Rightarrow> u8 list \<Rightarrow> nat \<Rightarrow> nat \<Rightarrow> u8 list" where
  "mcs_copy_to_user dst src soff n = fold (\<lambda>i d. d[i := src ! (soff + i)]) [0..<n] dst"

definition mcs_copy_from_user :: "u8 list \<Rightarrow> nat \<Rightarrow> u8 list \<Rightarrow> nat \<Rightarrow> u8 list" where
  "mcs_copy_from_user dst doff src n = fold (\<lambda>i d. d[doff + i := src ! i]) [0..<n] dst"

definition mcs_can_read :: "u32 \<Rightarrow> bool" where
  "mcs_can_read flags \<longleftrightarrow> flags AND MCS_O_RDONLY \<noteq> 0 \<or> flags AND MCS_O_RDWR \<noteq> 0"

definition mcs_can_write :: "u32 \<Rightarrow> bool" where
  "mcs_can_write flags \<longleftrightarrow> flags AND MCS_O_WRONLY \<noteq> 0 \<or> flags AND MCS_O_RDWR \<noteq> 0"

definition reset_file :: "mcs_file \<Rightarrow> mcs_file" where
  "reset_file f = f\<lparr>f_used := False, f_flags := 0, f_offset := 0, f_node := None, f_fs := None\<rparr>"

definition mcs_fd_table_init :: "mcs_fd_table option \<Rightarrow> mcs_fd_table option" where
  "mcs_fd_table_init table =
     (case table of
        None \<Rightarrow> None
      | Some t \<Rightarrow> Some (t\<lparr>files := fold (\<lambda>i fl. fl[i := reset_file (fl ! i)])
                                     [0..<MCS_MAX_OPEN_FILES] (files t)\<rparr>))"

definition mcs_fd_get :: "mcs_fd_table option \<Rightarrow> int \<Rightarrow> nat option" where
  "mcs_fd_get table fd =
     (case table of
        None \<Rightarrow> None
      | Some t \<Rightarrow> if fd < 0 \<or> nat fd \<ge> MCS_MAX_OPEN_FILES then None
                  else if \<not> f_used (files t ! nat fd) then None else Some (nat fd))"

definition mcs_fd_alloc ::
  "mcs_fd_table option \<Rightarrow> (mcs_vfs_status + nat) \<times> mcs_fd_table option" where
  "mcs_fd_alloc table =
     (case table of
        None \<Rightarrow> (Inl MCS_EINVAL, None)
      | Some t \<Rightarrow>
          (case find (\<lambda>i. \<not> f_used (files t ! i)) [0..<MCS_MAX_OPEN_FILES] of
             Some i \<Rightarrow> (Inr i, Some (set_file t i ((files t ! i)\<lparr>f_used := True\<rparr>)))
           | None \<Rightarrow> (Inl MCS_ENFILE, Some t)))"

subsection \<open>Operations on descriptors\<close>

text \<open>The last part of \<open>mcs_vfs_open\<close>, from the check of the vnode's type on.\<close>

definition vfs_open_node ::
  "mcs_fd_table \<Rightarrow> fs_heap \<Rightarrow> nat \<Rightarrow> nat \<Rightarrow> u32
     \<Rightarrow> (mcs_vfs_status + nat) \<times> mcs_fd_table option \<times> fs_heap" where
  "vfs_open_node t h a node flags =
     (if vn_type (node_of h (a, node)) = MCS_VNODE_DIR \<and> mcs_can_write flags
      then (Inl MCS_EISDIR, Some t, h)
      else case mcs_fd_alloc (Some t) of
        (Inr fd, Some t) \<Rightarrow>
          let f = (files t ! fd)
                \<lparr>f_flags := flags, f_node := Some (a, node), f_fs := Some a,
                 f_offset := (if flags AND MCS_O_APPEND \<noteq> 0 then vn_size (node_of h (a, node))
                              else 0)\<rparr>
          in if flags AND MCS_O_TRUNC \<noteq> 0 then
               if \<not> mcs_can_write flags
               then (Inl MCS_EACCES,
                     Some (set_file t fd (f\<lparr>f_used := False, f_node := None, f_fs := None\<rparr>)), h)
               else (Inr fd, Some (set_file t fd (f\<lparr>f_offset := 0\<rparr>)), set_node_size h (a, node) 0)
             else (Inr fd, Some (set_file t fd f), h)
      | (Inl rc, t) \<Rightarrow> (Inl rc, t, h)
      | (Inr fd, None) \<Rightarrow> (Inr fd, None, h))"

definition mcs_vfs_open ::
  "mcs_fd_table option \<Rightarrow> nat option \<Rightarrow> fs_heap \<Rightarrow> string option \<Rightarrow> u32
     \<Rightarrow> (mcs_vfs_status + nat) \<times> mcs_fd_table option \<times> fs_heap" where
  "mcs_vfs_open table fs h path flags =
     (case (table, fs, path) of
        (Some t, Some a, Some p) \<Rightarrow>
          let flags = (if flags AND (MCS_O_RDONLY OR MCS_O_WRONLY OR MCS_O_RDWR) = 0
                       then flags OR MCS_O_RDONLY else flags)
          in (case mcs_ramfs_lookup (Some (h a)) (Some p) of
                Inr node \<Rightarrow> vfs_open_node t h a node flags
              | Inl rc \<Rightarrow>
                  if flags AND MCS_O_CREAT = 0 then (Inl rc, Some t, h)
                  else (case mcs_ramfs_create_file (Some (h a)) (Some p) of
                          (Inl rc, fs') \<Rightarrow> (Inl rc, Some t, h(a := the fs'))
                        | (Inr node, fs') \<Rightarrow> vfs_open_node t (h(a := the fs')) a node flags))
      | _ \<Rightarrow> (Inl MCS_EINVAL, table, h))"

definition mcs_vfs_read ::
  "mcs_fd_table option \<Rightarrow> fs_heap \<Rightarrow> int \<Rightarrow> u8 list option \<Rightarrow> nat
     \<Rightarrow> (mcs_vfs_status + nat) \<times> mcs_fd_table option \<times> u8 list option" where
  "mcs_vfs_read table h fd buf len =
     (if buf = None \<and> len \<noteq> 0 then (Inl MCS_EINVAL, table, buf)
      else case mcs_fd_get table fd of
        None \<Rightarrow> (Inl MCS_EBADF, table, buf)
      | Some i \<Rightarrow>
          let t = the table; f = files t ! i in
          if \<not> mcs_can_read (f_flags f) then (Inl MCS_EACCES, table, buf)
          else (case (f_node f, f_fs f) of
            (Some np, Some a) \<Rightarrow>
              let v = node_of h np in
              if vn_type v = MCS_VNODE_DIR then (Inl MCS_EISDIR, table, buf)
              else if f_offset f \<ge> vn_size v then (Inr 0, table, buf)
              else
                let remain = vn_size v - f_offset f;
                    n = mcs_min_size len remain;
                    buf' = map_option (\<lambda>b. mcs_copy_to_user b (fs_data (h a))
                                              (vn_data_offset v + f_offset f) n) buf
                in (Inr n, Some (set_file t i (f\<lparr>f_offset := f_offset f + n\<rparr>)), buf')
          | _ \<Rightarrow> (Inl MCS_EINVAL, table, buf)))"

definition mcs_vfs_write ::
  "mcs_fd_table option \<Rightarrow> fs_heap \<Rightarrow> int \<Rightarrow> u8 list option \<Rightarrow> nat
     \<Rightarrow> (mcs_vfs_status + nat) \<times> mcs_fd_table option \<times> fs_heap" where
  "mcs_vfs_write table h fd buf len =
     (if buf = None \<and> len \<noteq> 0 then (Inl MCS_EINVAL, table, h)
      else case mcs_fd_get table fd of
        None \<Rightarrow> (Inl MCS_EBADF, table, h)
      | Some i \<Rightarrow>
          let t = the table; f = files t ! i in
          if \<not> mcs_can_write (f_flags f) then (Inl MCS_EACCES, table, h)
          else (case (f_node f, f_fs f) of
            (Some np, Some a) \<Rightarrow>
              let v = node_of h np in
              if vn_type v = MCS_VNODE_DIR then (Inl MCS_EISDIR, table, h)
              else
                let f = (if f_flags f AND MCS_O_APPEND \<noteq> 0 then f\<lparr>f_offset := vn_size v\<rparr> else f);
                    t = set_file t i f
                in if f_offset f > vn_data_capacity v then (Inl MCS_EINVAL, Some t, h)
                   else let n = mcs_min_size len (vn_data_capacity v - f_offset f)
                   in if n < len then (Inl MCS_ENOSPC, Some t, h)
                   else
                     let h = h(a := (h a)\<lparr>fs_data := mcs_copy_from_user (fs_data (h a))
                              (vn_data_offset v + f_offset f) (case buf of Some b \<Rightarrow> b | None \<Rightarrow> []) n\<rparr>);
                         f = f\<lparr>f_offset := f_offset f + n\<rparr>;
                         h = (if f_offset f > vn_size v then set_node_size h np (f_offset f) else h)
                     in (Inr n, Some (set_file t i f), h)
          | _ \<Rightarrow> (Inl MCS_EINVAL, table, h)))"

definition mcs_vfs_lseek ::
  "mcs_fd_table option \<Rightarrow> fs_heap \<Rightarrow> int \<Rightarrow> int \<Rightarrow> int
     \<Rightarrow> (mcs_vfs_status + int) \<times> mcs_fd_table option" where
  "mcs_vfs_lseek table h fd offset whence =
     (case mcs_fd_get table fd of
        None \<Rightarrow> (Inl MCS_EBADF, table)
      | Some i \<Rightarrow>
          let t = the table; f = files t ! i in
          (case f_node f of
             None \<Rightarrow> (Inl MCS_EISDIR, table)
           | Some np \<Rightarrow>
               let v = node_of h np in
               if vn_type v = MCS_VNODE_DIR then (Inl MCS_EISDIR, table)
               else if whence \<noteq> MCS_SEEK_SET \<and> whence \<noteq> MCS_SEEK_CUR \<and> whence \<noteq> MCS_SEEK_END
               then (Inl MCS_EINVAL, table)
               else
                 let base = (if whence = MCS_SEEK_SET then 0
                             else if whence = MCS_SEEK_CUR then signed_take_bit 63 (int (f_offset f))
                             else signed_take_bit 63 (int (vn_size v)));
                     next = signed_take_bit 63 (base + offset)
                 in if next < 0 then (Inl MCS_EINVAL, table)
                    else (Inr (signed_take_bit 31 next),
                          Some (set_file t i (f\<lparr>f_offset := nat next\<rparr>)))))"

definition mcs_vfs_close ::
  "mcs_fd_table option \<Rightarrow> int \<Rightarrow> (mcs_vfs_status + unit) \<times> mcs_fd_table option" where
  "mcs_vfs_close table fd =
     (case mcs_fd_get table fd of
        None \<Rightarrow> (Inl MCS_EBADF, table)
      | Some i \<Rightarrow> (Inr (), Some (set_file (the table) i
          ((files (the table) ! i)
             \<lparr>f_used := False, f_flags := 0, f_offset := 0, f_node := None, f_fs := None\<rparr>))))"

definition mcs_vfs_dup ::
  "mcs_fd_table option \<Rightarrow> int \<Rightarrow> (mcs_vfs_status + nat) \<times> mcs_fd_table option" where
  "mcs_vfs_dup table fd =
     (case mcs_fd_get table fd of
        None \<Rightarrow> (Inl MCS_EBADF, table)
      | Some i \<Rightarrow>
          (case mcs_fd_alloc table of
             (Inr j, Some t) \<Rightarrow>
               let f = files t ! i in
               (Inr j, Some (set_file t j ((files t ! j)
                  \<lparr>f_flags := f_flags f, f_offset := f_offset f, f_node := f_node f,
                   f_fs := f_fs f\<rparr>)))
           | (r, t) \<Rightarrow> (r, t)))"

subsection \<open>System calls\<close>

definition mcs_sys_open ::
  "mcs_process option \<Rightarrow> nat option \<Rightarrow> fs_heap \<Rightarrow> string option \<Rightarrow> u32
     \<Rightarrow> (mcs_vfs_status + nat) \<times> mcs_process option \<times> fs_heap" where
  "mcs_sys_open proc fs h user_path flags =
     (case (proc, fs, user_path) of
        (Some pr, Some _, Some _) \<Rightarrow>
          let (r, t, h) = mcs_vfs_open (Some (fd_table pr)) fs h user_path flags
          in (r, map_option (\<lambda>t. pr\<lparr>fd_table := t\<rparr>) t, h)
      | _ \<Rightarrow> (Inl MCS_EINVAL, proc, h))"

definition mcs_sys_read ::
  "mcs_process option \<Rightarrow> fs_heap \<Rightarrow> int \<Rightarrow> u8 list option \<Rightarrow> nat
     \<Rightarrow> (mcs_vfs_status + nat) \<times> mcs_process option \<times> u8 list option" where
  "mcs_sys_read proc h fd user_buf len =
     (case proc of
        None \<Rightarrow> (Inl MCS_EINVAL, proc, user_buf)
      | Some pr \<Rightarrow>
          if user_buf = None \<and> len \<noteq> 0 then (Inl MCS_EINVAL, proc, user_buf)
          else let (r, t, b) = mcs_vfs_read (Some (fd_table pr)) h fd user_buf len
               in (r, map_option (\<lambda>t. pr\<lparr>fd_table := t\<rparr>) t, b))"

definition mcs_sys_write ::
  "mcs_process option \<Rightarrow> fs_heap \<Rightarrow> int \<Rightarrow> u8 list option \<Rightarrow> nat
     \<Rightarrow> (mcs_vfs_status + nat) \<times> mcs_process option \<times> fs_heap" where
  "mcs_sys_write proc h fd user_buf len =
     (case proc of
        None \<Rightarrow> (Inl MCS_EINVAL, proc, h)
      | Some pr \<Rightarrow>
          if user_buf = None \<and> len \<noteq> 0 then (Inl MCS_EINVAL, proc, h)
          else let (r, t, h) = mcs_vfs_write (Some (fd_table pr)) h fd user_buf len
               in (r, map_option (\<lambda>t. pr\<lparr>fd_table := t\<rparr>) t, h))"

definition mcs_sys_close ::
  "mcs_process option \<Rightarrow> int \<Rightarrow> (mcs_vfs_status + unit) \<times> mcs_process option" where
  "mcs_sys_close proc fd =
     (case proc of
        None \<Rightarrow> (Inl MCS_EINVAL, proc)
      | Some pr \<Rightarrow> let (r, t) = mcs_vfs_close (Some (fd_table pr)) fd
                   in (r, map_option (\<lambda>t. pr\<lparr>fd_table := t\<rparr>) t))"

definition mcs_sys_lseek ::
  "mcs_process option \<Rightarrow> fs_heap \<Rightarrow> int \<Rightarrow> int \<Rightarrow> int
     \<Rightarrow> (mcs_vfs_status + int) \<times> mcs_process option" where
  "mcs_sys_lseek proc h fd offset whence =
     (case proc of
        None \<Rightarrow> (Inl MCS_EINVAL, proc)
      | Some pr \<Rightarrow> let (r, t) = mcs_vfs_lseek (Some (fd_table pr)) h fd offset whence
                   in (r, map_option (\<lambda>t. pr\<lparr>fd_table := t\<rparr>) t))"

text \<open>The file system the tests install, \<open>sys_vfs.c\<close>: one global pointer.\<close>

record vfs_globals =
  mcs_active_ramfs_for_test :: "nat option"

definition mcs_vfs_set_active_ramfs_for_test :: "nat option \<Rightarrow> vfs_globals \<Rightarrow> vfs_globals" where
  "mcs_vfs_set_active_ramfs_for_test fs g = g\<lparr>mcs_active_ramfs_for_test := fs\<rparr>"

subsection \<open>The invariant of a descriptor table\<close>

definition file_wf :: "nat set \<Rightarrow> fs_heap \<Rightarrow> mcs_file \<Rightarrow> bool" where
  "file_wf A h f \<longleftrightarrow>
     (case (f_node f, f_fs f) of
        (Some (a, n), Some b) \<Rightarrow>
          a = b \<and> a \<in> A \<and> n < node_count (h a) \<and> f_offset f < 2 ^ 63 \<and>
          (mcs_can_read (f_flags f) \<or> mcs_can_write (f_flags f)) \<and>
          (mcs_can_write (f_flags f) \<longrightarrow> is_file (h a) n)
      | _ \<Rightarrow> False)"

definition fd_inv :: "nat set \<Rightarrow> fs_heap \<Rightarrow> mcs_fd_table \<Rightarrow> bool" where
  "fd_inv A h t \<longleftrightarrow>
     length (files t) = 16 \<and> (\<forall>a \<in> A. ramfs_wf (h a)) \<and>
     (\<forall>f \<in> set (files t). f_used f \<longrightarrow> file_wf A h f)"

text \<open>What a change of the heap keeps: every vnode, with its type.\<close>

definition heap_ext :: "nat set \<Rightarrow> fs_heap \<Rightarrow> fs_heap \<Rightarrow> bool" where
  "heap_ext A h h' \<longleftrightarrow>
     (\<forall>a \<in> A. ramfs_wf (h' a) \<and> node_count (h a) \<le> node_count (h' a) \<and>
        (\<forall>n. is_file (h a) n \<longrightarrow> is_file (h' a) n))"

lemma file_wf_ext: "file_wf A h f \<Longrightarrow> heap_ext A h h' \<Longrightarrow> file_wf A h' f"
  by (fastforce simp: file_wf_def heap_ext_def split: option.splits)

lemma heap_ext_refl: "fd_inv A h t \<Longrightarrow> heap_ext A h h"
  by (simp add: fd_inv_def heap_ext_def)

lemma fd_inv_update:
  assumes "fd_inv A h t" and "heap_ext A h h'" and "f_used f \<Longrightarrow> file_wf A h' f"
  shows "fd_inv A h' (set_file t i f)"
  using assms set_update_subset_insert [of "files t" i f] file_wf_ext [OF _ assms(2)]
  by (fastforce simp: fd_inv_def heap_ext_def)

lemma fd_inv_heap:
  assumes "fd_inv A h t" and "heap_ext A h h'"
  shows "fd_inv A h' t"
  using assms file_wf_ext [OF _ assms(2)] by (simp add: fd_inv_def heap_ext_def)

lemma fd_get_Some:
  assumes "fd_inv A h t" and "mcs_fd_get (Some t) fd = Some i"
  obtains a n where "i < 16" "fd = int i" "f_used (files t ! i)" "file_wf A h (files t ! i)"
    "f_node (files t ! i) = Some (a, n)" "f_fs (files t ! i) = Some a" "a \<in> A"
    "n < node_count (h a)" "ramfs_wf (h a)"
proof -
  have i: "i < 16" "fd = int i" "f_used (files t ! i)"
    using assms(2) by (auto simp: mcs_fd_get_def MCS_MAX_OPEN_FILES_def split: if_splits)
  then have wf: "file_wf A h (files t ! i)" using assms(1) by (auto simp: fd_inv_def)
  then obtain a n where "f_node (files t ! i) = Some (a, n)" "f_fs (files t ! i) = Some a" "a \<in> A"
      "n < node_count (h a)" by (auto simp: file_wf_def split: option.splits)
  then show thesis using that i wf assms(1) by (simp add: fd_inv_def)
qed

lemma fd_get_None_iff:
  "mcs_fd_get (Some t) fd = None \<longleftrightarrow> \<not> (0 \<le> fd \<and> fd < 16 \<and> f_used (files t ! nat fd))"
  by (auto simp: mcs_fd_get_def MCS_MAX_OPEN_FILES_def)

lemma copy_from_user_eq: "mcs_copy_from_user dst doff src n = mcs_copy_bytes dst doff src 0 n"
  by (simp add: mcs_copy_from_user_def mcs_copy_bytes_def)

lemma copy_to_user_eq: "mcs_copy_to_user dst src soff n = mcs_copy_bytes dst 0 src soff n"
  by (simp add: mcs_copy_to_user_def mcs_copy_bytes_def)

lemma copy_bytes_0 [simp]: "mcs_copy_bytes dst doff src soff 0 = dst"
  by (simp add: mcs_copy_bytes_def)

lemma set_node_size_put: "set_node_size h (a, n) sz = h(a := put_file (h a) n off src soff 0 sz)"
  by (simp add: set_node_size_def put_file_def fun_eq_iff)

lemma heap_ext_put:
  assumes "fd_inv A h t" and "a \<in> A" and f: "is_file (h a) n"
    and sz: "sz \<le> vn_data_capacity (nodes (h a) ! n)"
  shows "heap_ext A h (h(a := put_file (h a) n off src soff len sz))"
proof -
  have wf: "ramfs_wf (h a)" using assms(1,2) by (simp add: fd_inv_def)
  show ?thesis
    using assms(1) put_file_wf [OF wf f sz] put_file_tree(3) [OF wf f]
    by (auto simp: heap_ext_def fd_inv_def)
qed

subsection \<open>Writing\<close>

definition write_offset :: "fs_heap \<Rightarrow> mcs_file \<Rightarrow> nat" where
  "write_offset h f =
     (if f_flags f AND MCS_O_APPEND \<noteq> 0 then vn_size (node_of h (the (f_node f))) else f_offset f)"

lemma vfs_write_eq:
  assumes inv: "fd_inv A h t" and i: "mcs_fd_get (Some t) fd = Some i"
    and w: "mcs_can_write (f_flags (files t ! i))" and np: "f_node (files t ! i) = Some (a, n)"
  shows "mcs_vfs_write (Some t) h fd (Some b) len =
     (let f = files t ! i; off = write_offset h f; sz = vn_size (nodes (h a) ! n) in
      if off > 256 then (Inl MCS_EINVAL, Some (set_file t i (f\<lparr>f_offset := off\<rparr>)), h)
      else if 256 - off < len then (Inl MCS_ENOSPC, Some (set_file t i (f\<lparr>f_offset := off\<rparr>)), h)
      else (Inr len, Some (set_file t i (f\<lparr>f_offset := off + len\<rparr>)),
            h(a := put_file (h a) n off b 0 len (max sz (off + len)))))"
proof -
  obtain g: "i < 16" "f_fs (files t ! i) = Some a" "a \<in> A" "ramfs_wf (h a)"
      "file_wf A h (files t ! i)"
    using fd_get_Some [OF inv i] np by (metis option.inject prod.inject)
  then have isf: "is_file (h a) n" using w np by (simp add: file_wf_def)
  have v: "vn_type (nodes (h a) ! n) \<noteq> MCS_VNODE_DIR" "vn_data_capacity (nodes (h a) ! n) = 256"
      "n < length (nodes (h a))"
    using is_fileD [OF g(4) isf] ramfs_wfD(1) [OF g(4)] by auto
  let ?f = "files t ! i"
  let ?off = "write_offset h ?f" and ?sz = "vn_size (nodes (h a) ! n)"
  let ?h1 = "h(a := (h a)\<lparr>fs_data := mcs_copy_from_user (fs_data (h a))
        (vn_data_offset (nodes (h a) ! n) + ?off) b len\<rparr>)"
  have off: "(if f_flags ?f AND MCS_O_APPEND \<noteq> 0 then ?f\<lparr>f_offset := ?sz\<rparr> else ?f) =
      ?f\<lparr>f_offset := ?off\<rparr>"
    by (simp add: write_offset_def np)
  have heap: "set_node_size ?h1 (a, n) (?off + len) = h(a := put_file (h a) n ?off b 0 len (?off + len))"
    "?h1 = h(a := put_file (h a) n ?off b 0 len ?sz)"
    using v(3) by (auto simp: set_node_size_def put_file_def copy_from_user_eq fun_eq_iff)
  consider "?off > 256" | "?off \<le> 256" "256 - ?off < len" | "?off \<le> 256" "len \<le> 256 - ?off"
    by linarith
  then show ?thesis
  proof cases
    case 3
    then have "mcs_min_size len (256 - ?off) = len" by (simp add: mcs_min_size_def)
    then show ?thesis
      using w np g(2) v i heap 3
      by (cases "?sz < ?off + len") (simp_all add: mcs_vfs_write_def off Let_def max_def)
  qed (use w np g(2) v i in \<open>simp_all add: mcs_vfs_write_def off Let_def mcs_min_size_def\<close>)
qed

lemma vfs_write_null: "mcs_vfs_write t h fd None 0 = mcs_vfs_write t h fd (Some []) 0"
  unfolding mcs_vfs_write_def option.case by simp

lemma vfs_write_inv:
  assumes inv: "fd_inv A h t"
    and w: "mcs_vfs_write (Some t) h fd buf len = (r, t', h')"
  shows "\<exists>u. t' = Some u \<and> fd_inv A h' u \<and> heap_ext A h h'"
proof (cases "mcs_fd_get (Some t) fd")
  case None
  then show ?thesis using w inv heap_ext_refl [OF inv] by (auto simp: mcs_vfs_write_def split: if_splits)
next
  case (Some i)
  obtain a n where g: "i < 16" "f_used (files t ! i)" "f_node (files t ! i) = Some (a, n)"
      "f_fs (files t ! i) = Some a" "a \<in> A" "ramfs_wf (h a)" "file_wf A h (files t ! i)"
    using fd_get_Some [OF inv Some] by metis
  show ?thesis
  proof (cases "mcs_can_write (f_flags (files t ! i)) \<and> (buf = None \<longrightarrow> len = 0)")
    case False
    then show ?thesis
      using w inv heap_ext_refl [OF inv] Some by (auto simp: mcs_vfs_write_def Let_def split: if_splits)
  next
    case True
    then have isf: "is_file (h a) n" using g by (simp add: file_wf_def)
    note D = is_fileD [OF g(6) isf]
    define b where "b = (case buf of Some b \<Rightarrow> b | None \<Rightarrow> [])"
    have w': "mcs_vfs_write (Some t) h fd (Some b) len = (r, t', h')"
      using w True vfs_write_null by (cases buf) (auto simp: b_def)
    have "write_offset h (files t ! i) < 2 ^ 63"
      using g(3,4,7) D by (auto simp: write_offset_def file_wf_def)
    then have wf: "file_wf A h ((files t ! i)\<lparr>f_offset := write_offset h (files t ! i)\<rparr>)"
      using g by (simp add: file_wf_def)
    have small: "write_offset h (files t ! i) + len \<le> 256 \<Longrightarrow>
        file_wf A h ((files t ! i)\<lparr>f_offset := write_offset h (files t ! i) + len\<rparr>)"
      using g by (simp add: file_wf_def)
    note eq = vfs_write_eq [OF inv Some conjunct1 [OF True] g(3), of b len]
    let ?off = "write_offset h (files t ! i)"
    consider "?off > 256 \<or> 256 - ?off < len" | "?off + len \<le> 256"
      by linarith
    then show ?thesis
    proof cases
      case 1
      have "fd_inv A h (set_file t i ((files t ! i)\<lparr>f_offset := ?off\<rparr>))"
        by (rule fd_inv_update [OF inv heap_ext_refl [OF inv] wf])
      then show ?thesis using 1 eq w' heap_ext_refl [OF inv] by (auto simp: Let_def split: if_splits)
    next
      case 2
      let ?h = "h(a := put_file (h a) n ?off b 0 len (max (vn_size (nodes (h a) ! n)) (?off + len)))"
      have ext: "heap_ext A h ?h"
        by (rule heap_ext_put [OF inv g(5) isf]) (use 2 D in auto)
      have "fd_inv A ?h (set_file t i ((files t ! i)\<lparr>f_offset := ?off + len\<rparr>))"
        by (rule fd_inv_update [OF inv ext file_wf_ext [OF small [OF 2] ext]])
      then show ?thesis using 2 eq w' ext by (auto simp: Let_def split: if_splits)
    qed
  qed
qed

subsection \<open>Opening\<close>

lemma path_cases:
  assumes "NUL \<notin> set p" and "c_at p 0 = CHR ''/''"
  obtains cs where "list_all plain_comp cs" "cs \<noteq> []" "p = path_of cs"
proof -
  obtain s where p: "p = CHR ''/'' # s" using assms(2) by (cases p) (auto simp: c_at_def)
  then obtain c cs where "list_all plain_comp (c # cs)" "s = c @ path_of cs"
    using path_of_surj [of s] assms(1) by auto
  then show thesis using that [of "c # cs"] p by simp
qed

lemma lookup_bound:
  assumes "ramfs_wf fs" and "NUL \<notin> set p" and "mcs_ramfs_lookup (Some fs) (Some p) = Inr n"
  shows "n < node_count fs"
proof -
  have "c_at p 0 = CHR ''/''" using assms(3) by (auto simp: mcs_ramfs_lookup_def split: if_splits)
  then obtain cs where "list_all plain_comp cs" "cs \<noteq> []" "p = path_of cs"
    using path_cases [OF assms(2)] by metis
  then show ?thesis
    using assms(1,3) ramfs_lookup_resolve spec_lookup_bound by simp
qed

lemma is_file_view: "is_file fs n \<longleftrightarrow> fv_file (view fs) n \<noteq> None"
  by (simp add: view_def)

lemma spec_create_mono:
  "spec_create V cs = (r, V') \<Longrightarrow>
     fv_count V \<le> fv_count V' \<and> (fv_file V n \<noteq> None \<longrightarrow> fv_file V' n \<noteq> None)"
  by (auto simp: spec_create_def split: sum.splits if_splits)

lemma create_any:
  assumes wf: "ramfs_wf fs" and p: "NUL \<notin> set p"
  obtains fs' r where "mcs_ramfs_create_file (Some fs) (Some p) = (r, Some fs')" "ramfs_wf fs'"
    "node_count fs \<le> node_count fs'" "\<And>n. is_file fs n \<Longrightarrow> is_file fs' n"
    "\<And>n. r = Inr n \<Longrightarrow> is_file fs' n"
proof (cases "c_at p 0 = CHR ''/''")
  case False
  then have "mcs_ramfs_create_file (Some fs) (Some p) = (Inl MCS_EINVAL, Some fs)"
    by (simp add: mcs_ramfs_create_file_def mcs_ramfs_lookup_def mcs_split_parent_leaf_def)
  then show thesis using that wf by simp
next
  case True
  then obtain cs where cs: "list_all plain_comp cs" "cs \<noteq> []" "p = path_of cs"
    using path_cases [OF p] by metis
  obtain fs' r where c: "mcs_ramfs_create_file (Some fs) (Some p) = (r, Some fs')" "ramfs_wf fs'"
      "spec_create (view fs) cs = (r, view fs')"
    using create_refines [OF wf cs(1,2)] cs(3) by (metis prod.collapse)
  have "node_count fs \<le> node_count fs'" "is_file fs n \<Longrightarrow> is_file fs' n" for n
    using spec_create_mono [OF c(3), of n] unfolding is_file_view by (simp_all add: view_def)
  then show thesis
    using that [OF c(1,2)] spec_create_file [OF c(2), of fs cs] c(3) by blast
qed

lemma fd_alloc_Inr:
  assumes "mcs_fd_alloc (Some t) = (Inr j, t')"
  shows "j < 16 \<and> \<not> f_used (files t ! j) \<and> (\<forall>k<j. f_used (files t ! k)) \<and>
    t' = Some (set_file t j ((files t ! j)\<lparr>f_used := True\<rparr>))"
  using assms by (auto simp: mcs_fd_alloc_def MCS_MAX_OPEN_FILES_def find_Some_iff split: option.splits)

lemma fd_alloc_Inl:
  "mcs_fd_alloc (Some t) = (Inl rc, t') \<Longrightarrow>
     rc = MCS_ENFILE \<and> t' = Some t \<and> (\<forall>i<16. f_used (files t ! i))"
  by (auto simp: mcs_fd_alloc_def MCS_MAX_OPEN_FILES_def find_None_iff split: option.splits)

text \<open>The part of an open after the vnode is found, by what \<open>mcs_fd_alloc\<close> answers.\<close>

lemma vfs_open_node_eq:
  assumes "length (files t) = 16"
  shows "vfs_open_node t h a node flags =
    (if vn_type (nodes (h a) ! node) = MCS_VNODE_DIR \<and> mcs_can_write flags
     then (Inl MCS_EISDIR, Some t, h)
     else case fst (mcs_fd_alloc (Some t)) of
       Inl rc \<Rightarrow> (Inl rc, Some t, h)
     | Inr fd \<Rightarrow>
         let f = (files t ! fd)\<lparr>f_used := True, f_flags := flags, f_node := Some (a, node), f_fs := Some a,
                   f_offset := (if flags AND MCS_O_APPEND \<noteq> 0 then vn_size (nodes (h a) ! node)
                                else 0)\<rparr>
         in if flags AND MCS_O_TRUNC = 0
            then (Inr fd, Some (set_file t fd f), h)
            else if mcs_can_write flags
            then (Inr fd, Some (set_file t fd (f\<lparr>f_offset := 0\<rparr>)),
                  set_node_size h (a, node) 0)
            else (Inl MCS_EACCES,
                  Some (set_file t fd (f\<lparr>f_used := False, f_node := None, f_fs := None\<rparr>)), h))"
proof (cases "mcs_fd_alloc (Some t)")
  case (Pair r t')
  then show ?thesis
    using assms fd_alloc_Inl [of t _ t'] fd_alloc_Inr [of t _ t']
    by (cases r) (auto simp: vfs_open_node_def Let_def)
qed

lemma not_dir_file:
  "n < node_count fs \<Longrightarrow> vn_type (nodes fs ! n) \<noteq> MCS_VNODE_DIR \<Longrightarrow> is_file fs n"
  by (cases "vn_type (nodes fs ! n)") (auto simp: is_file_def)

lemma file_wf_offset: "file_wf A h f \<Longrightarrow> k < 2 ^ 63 \<Longrightarrow> file_wf A h (f\<lparr>f_offset := k\<rparr>)"
  by (auto simp: file_wf_def split: option.splits)

lemma vfs_open_node_inv:
  assumes inv: "fd_inv A h t" and a: "a \<in> A" and n: "node < node_count (h a)"
    and acc: "mcs_can_read flags \<or> mcs_can_write flags"
    and op: "vfs_open_node t h a node flags = (r, t', h')"
  shows "\<exists>u. t' = Some u \<and> fd_inv A h' u \<and> heap_ext A h h'"
proof -
  have len: "length (files t) = 16" and wf: "ramfs_wf (h a)"
    using inv a by (auto simp: fd_inv_def)
  note eq = vfs_open_node_eq [OF len, of h a node flags, unfolded op]
  note same = fd_inv_update [OF inv heap_ext_refl [OF inv]]
  show ?thesis
  proof (cases "vn_type (nodes (h a) ! node) = MCS_VNODE_DIR \<and> mcs_can_write flags")
    case True
    then show ?thesis using eq inv heap_ext_refl [OF inv] by simp
  next
    case ok: False
    show ?thesis
    proof (cases "fst (mcs_fd_alloc (Some t))")
      case (Inl rc)
      then show ?thesis using eq ok inv heap_ext_refl [OF inv] by simp
    next
      case (Inr fd)
      have isf: "is_file (h a) node" if "mcs_can_write flags"
        using ok that n by (auto intro: not_dir_file)
      have "vn_size (nodes (h a) ! node) < 2 ^ 63"
        using ramfs_wfD(7) [OF wf n] by (simp add: node_wf_def)
      moreover define f where "f = (files t ! fd)\<lparr>f_used := True, f_flags := flags, f_node := Some (a, node),
          f_fs := Some a, f_offset := (if flags AND MCS_O_APPEND \<noteq> 0
            then vn_size (nodes (h a) ! node) else 0)\<rparr>"
      ultimately have fwf: "file_wf A h f" using isf acc a n by (simp add: file_wf_def)
      show ?thesis
      proof (cases "flags AND MCS_O_TRUNC \<noteq> 0 \<and> mcs_can_write flags")
        case True
        have ext: "heap_ext A h (set_node_size h (a, node) 0)"
          unfolding set_node_size_put [of h a node 0 0 "[]" 0]
          by (rule heap_ext_put [OF inv a isf]) (use True in auto)
        have "file_wf A h (f\<lparr>f_offset := 0\<rparr>)" using fwf by (simp add: file_wf_offset)
        then have "fd_inv A (set_node_size h (a, node) 0) (set_file t fd (f\<lparr>f_offset := 0\<rparr>))"
          using fd_inv_update [OF inv ext] file_wf_ext [OF _ ext] by blast
        then show ?thesis using eq ok Inr True ext by (simp add: f_def)
      next
        case False
        then show ?thesis
          using eq ok Inr same [OF fwf, of fd] heap_ext_refl [OF inv]
            same [of "f\<lparr>f_used := False, f_node := None, f_fs := None\<rparr>" fd]
          by (auto simp: f_def Let_def split: if_splits)
      qed
    qed
  qed
qed

lemma access_flags:
  "let fl = (if flags AND (MCS_O_RDONLY OR MCS_O_WRONLY OR MCS_O_RDWR) = 0
             then flags OR MCS_O_RDONLY else flags)
   in mcs_can_read fl \<or> mcs_can_write fl"
proof (cases "flags AND (MCS_O_RDONLY OR MCS_O_WRONLY OR MCS_O_RDWR) = 0")
  case True
  have "bit ((flags OR 1) AND 1) 0" by (simp add: bit_simps)
  then have "(flags OR 1) AND 1 \<noteq> 0" by auto
  then show ?thesis using True by (simp add: mcs_can_read_def MCS_O_RDONLY_def Let_def)
next
  case False
  then show ?thesis
    by (auto simp: mcs_can_read_def mcs_can_write_def bit.conj_disj_distrib)
qed

lemma vfs_open_inv:
  assumes inv: "fd_inv A h t" and a: "a \<in> A" and p: "NUL \<notin> set p"
    and op: "mcs_vfs_open (Some t) (Some a) h (Some p) flags = (r, t', h')"
  shows "\<exists>u. t' = Some u \<and> fd_inv A h' u \<and> heap_ext A h h'"
proof -
  define fl where "fl = (if flags AND (MCS_O_RDONLY OR MCS_O_WRONLY OR MCS_O_RDWR) = 0
             then flags OR MCS_O_RDONLY else flags)"
  have acc: "mcs_can_read fl \<or> mcs_can_write fl" using access_flags [of flags] unfolding fl_def Let_def .
  have wf: "ramfs_wf (h a)" using inv a by (simp add: fd_inv_def)
  show ?thesis
  proof (cases "mcs_ramfs_lookup (Some (h a)) (Some p)")
    case (Inr node)
    then have "vfs_open_node t h a node fl = (r, t', h')"
      using op by (simp add: mcs_vfs_open_def fl_def)
    then show ?thesis
      using vfs_open_node_inv [OF inv a lookup_bound [OF wf p Inr] acc] by blast
  next
    case (Inl rc)
    obtain fs' r' where c: "mcs_ramfs_create_file (Some (h a)) (Some p) = (r', Some fs')"
        "ramfs_wf fs'" "node_count (h a) \<le> node_count fs'"
        "\<And>n. is_file (h a) n \<Longrightarrow> is_file fs' n" "\<And>n. r' = Inr n \<Longrightarrow> is_file fs' n"
      using create_any [OF wf p] by metis
    let ?h = "h(a := fs')"
    have ext: "heap_ext A h ?h"
      using inv c by (auto simp: heap_ext_def fd_inv_def)
    note inv' = fd_inv_heap [OF inv ext]
    have trans: "heap_ext A h h'" if "heap_ext A ?h h'"
      using ext that unfolding heap_ext_def by (meson order_trans)
    show ?thesis
    proof (cases "fl AND MCS_O_CREAT = 0")
      case True
      then show ?thesis
        using op Inl inv heap_ext_refl [OF inv] by (auto simp: mcs_vfs_open_def fl_def Let_def split: if_splits)
    next
      case creat: False
      have op': "(case r' of Inl rc \<Rightarrow> (Inl rc, Some t, ?h) | Inr node \<Rightarrow> vfs_open_node t ?h a node fl)
          = (r, t', h')"
        using op Inl c(1) creat unfolding fl_def
        by (cases r') (auto simp: mcs_vfs_open_def Let_def split: if_splits)
      show ?thesis
      proof (cases r')
        case (Inl e)
        then show ?thesis using op' inv' ext by auto
      next
        case (Inr node)
        then have "vfs_open_node t ?h a node fl = (r, t', h')" using op' by simp
        moreover have "node < node_count (?h a)" using c(5) [OF Inr] by (simp add: is_file_def)
        ultimately show ?thesis
          using vfs_open_node_inv [OF inv' a _ acc] trans by blast
      qed
    qed
  qed
qed

subsection \<open>Reading, seeking, closing and duplicating\<close>

lemma vfs_read_eq:
  assumes inv: "fd_inv A h t" and i: "mcs_fd_get (Some t) fd = Some i"
    and r: "mcs_can_read (f_flags (files t ! i))" and np: "f_node (files t ! i) = Some (a, n)"
    and isf: "is_file (h a) n"
  shows "mcs_vfs_read (Some t) h fd (Some b) len =
     (let f = files t ! i; k = min len (length (file_data (h a) n) - f_offset f) in
      (Inr k, Some (set_file t i (f\<lparr>f_offset := f_offset f + k\<rparr>)),
       Some (mcs_copy_bytes b 0 (drop (f_offset f) (file_data (h a) n)) 0 k)))"
proof -
  obtain g: "i < 16" "f_fs (files t ! i) = Some a" "a \<in> A" "ramfs_wf (h a)"
    using fd_get_Some [OF inv i] np by (metis option.inject prod.inject)
  note D = is_fileD [OF g(4) isf]
  let ?f = "files t ! i" and ?v = "nodes (h a) ! n"
  let ?k = "min len (vn_size ?v - f_offset ?f)"
  have size: "length (file_data (h a) n) = vn_size ?v"
    using D by (simp add: file_data_def)
  have same: "set_file t i (?f\<lparr>f_offset := f_offset ?f\<rparr>) = t" by simp
  have copy: "mcs_copy_to_user b (fs_data (h a)) (vn_data_offset ?v + f_offset ?f) ?k =
      mcs_copy_bytes b 0 (drop (f_offset ?f) (file_data (h a) n)) 0 ?k"
    unfolding copy_to_user_eq mcs_copy_bytes_def using D
    by (intro fold_cong refl ext) (auto simp: file_data_def add.assoc)
  have "mcs_min_size len (vn_size ?v - f_offset ?f) = ?k" by (simp add: mcs_min_size_def)
  then show ?thesis
    using i r np g(2) D(5) copy same
    by (cases "f_offset ?f \<ge> vn_size ?v") (simp_all add: mcs_vfs_read_def Let_def size)
qed

lemma vfs_read_inv:
  assumes inv: "fd_inv A h t" and r: "mcs_vfs_read (Some t) h fd buf len = (r, t', b')"
  shows "\<exists>u. t' = Some u \<and> fd_inv A h u"
proof (cases "mcs_fd_get (Some t) fd")
  case None
  then show ?thesis using r inv by (auto simp: mcs_vfs_read_def split: if_splits)
next
  case (Some i)
  obtain a n where g: "f_node (files t ! i) = Some (a, n)" "f_fs (files t ! i) = Some a"
      "ramfs_wf (h a)" "n < node_count (h a)" "file_wf A h (files t ! i)"
    using fd_get_Some [OF inv Some] by metis
  have "vn_size (nodes (h a) ! n) < 2 ^ 63" using ramfs_wfD(7) [OF g(3,4)] by (simp add: node_wf_def)
  then have "fd_inv A h (set_file t i ((files t ! i)\<lparr>f_offset := k\<rparr>))"
    if "k \<le> vn_size (nodes (h a) ! n)" for k
    using that fd_inv_update [OF inv heap_ext_refl [OF inv] file_wf_offset [OF g(5)]] by simp
  then show ?thesis
    using r inv Some g(1,2)
    by (auto simp: mcs_vfs_read_def Let_def mcs_min_size_def split: if_splits)
qed

lemma vfs_lseek_inv:
  assumes inv: "fd_inv A h t" and s: "mcs_vfs_lseek (Some t) h fd off wh = (r, t')"
  shows "\<exists>u. t' = Some u \<and> fd_inv A h u"
proof (cases "mcs_fd_get (Some t) fd")
  case None
  then show ?thesis using s inv by (auto simp: mcs_vfs_lseek_def)
next
  case (Some i)
  obtain a n where g: "f_node (files t ! i) = Some (a, n)" "file_wf A h (files t ! i)"
    using fd_get_Some [OF inv Some] by metis
  have "nat (signed_take_bit 63 k) < 2 ^ 63" for k :: int
    using signed_take_bit_int_less_exp [of 63 k] by (simp add: nat_less_iff)
  then have "fd_inv A h (set_file t i ((files t ! i)\<lparr>f_offset := nat (signed_take_bit 63 k)\<rparr>))" for k :: int
    by (intro fd_inv_update [OF inv heap_ext_refl [OF inv]] file_wf_offset [OF g(2)])
  then show ?thesis
    using s inv Some g(1) by (auto simp: mcs_vfs_lseek_def Let_def split: if_splits)
qed

lemma vfs_close_inv:
  assumes inv: "fd_inv A h t" and s: "mcs_vfs_close (Some t) fd = (r, t')"
  shows "\<exists>u. t' = Some u \<and> fd_inv A h u"
  using s inv
  by (auto simp: mcs_vfs_close_def split: option.splits
      intro!: fd_inv_update [OF inv heap_ext_refl [OF inv]])

lemma vfs_dup_eq:
  assumes "length (files t) = 16" and "mcs_fd_get (Some t) fd = Some i"
  shows "mcs_vfs_dup (Some t) fd =
     (case fst (mcs_fd_alloc (Some t)) of
        Inl rc \<Rightarrow> (Inl rc, Some t)
      | Inr j \<Rightarrow> (Inr j, Some (set_file t j ((files t ! j)\<lparr>f_used := True,
          f_flags := f_flags (files t ! i), f_offset := f_offset (files t ! i),
          f_node := f_node (files t ! i), f_fs := f_fs (files t ! i)\<rparr>))))"
proof (cases "mcs_fd_alloc (Some t)")
  case (Pair r t')
  have i: "f_used (files t ! i)" "i < 16"
    using assms(2) by (auto simp: mcs_fd_get_def MCS_MAX_OPEN_FILES_def split: if_splits)
  show ?thesis
  proof (cases r)
    case (Inl rc)
    then show ?thesis using Pair assms fd_alloc_Inl [of t rc t'] by (simp add: mcs_vfs_dup_def)
  next
    case (Inr j)
    then have j: "j < 16" "\<not> f_used (files t ! j)"
        "t' = Some (set_file t j ((files t ! j)\<lparr>f_used := True\<rparr>))"
      using Pair fd_alloc_Inr by blast+
    then have "i \<noteq> j" using i by auto
    then show ?thesis using Pair Inr assms j by (simp add: mcs_vfs_dup_def Let_def)
  qed
qed

lemma vfs_dup_inv:
  assumes inv: "fd_inv A h t" and s: "mcs_vfs_dup (Some t) fd = (r, t')"
  shows "\<exists>u. t' = Some u \<and> fd_inv A h u"
proof (cases "mcs_fd_get (Some t) fd")
  case None
  then show ?thesis using s inv by (auto simp: mcs_vfs_dup_def)
next
  case (Some i)
  have len: "length (files t) = 16" using inv by (simp add: fd_inv_def)
  have "file_wf A h (files t ! i)" using fd_get_Some [OF inv Some] by metis
  then have "fd_inv A h (set_file t j ((files t ! j)\<lparr>f_used := True,
          f_flags := f_flags (files t ! i), f_offset := f_offset (files t ! i),
          f_node := f_node (files t ! i), f_fs := f_fs (files t ! i)\<rparr>))" for j
    by (intro fd_inv_update [OF inv heap_ext_refl [OF inv]])
      (auto simp: file_wf_def split: option.splits)
  then show ?thesis
    using s inv by (auto simp: vfs_dup_eq [OF len Some] split: sum.splits)
qed

subsection \<open>Reachable states\<close>

inductive vfs_reachable :: "nat set \<Rightarrow> fs_heap \<Rightarrow> mcs_fd_table \<Rightarrow> bool" for A where
  init: "(\<forall>a \<in> A. ramfs_shape (h0 a)) \<Longrightarrow> length (files t0) = 16 \<Longrightarrow>
     mcs_fd_table_init (Some t0) = Some t \<Longrightarrow>
     vfs_reachable A (\<lambda>a. if a \<in> A then mcs_ramfs_init (h0 a) else h0 a) t"
| seed: "vfs_reachable A h t \<Longrightarrow> a \<in> A \<Longrightarrow> NUL \<notin> set p \<Longrightarrow>
     mcs_ramfs_seed_file (Some (h a)) (Some p) d len = (r, Some fs') \<Longrightarrow>
     vfs_reachable A (h(a := fs')) t"
| op: "vfs_reachable A h t \<Longrightarrow> a \<in> A \<Longrightarrow> NUL \<notin> set p \<Longrightarrow>
     mcs_vfs_open (Some t) (Some a) h (Some p) flags = (r, Some t', h') \<Longrightarrow> vfs_reachable A h' t'"
| rd: "vfs_reachable A h t \<Longrightarrow> mcs_vfs_read (Some t) h fd buf len = (r, Some t', buf') \<Longrightarrow>
     vfs_reachable A h t'"
| wr: "vfs_reachable A h t \<Longrightarrow> mcs_vfs_write (Some t) h fd buf len = (r, Some t', h') \<Longrightarrow>
     vfs_reachable A h' t'"
| lseek: "vfs_reachable A h t \<Longrightarrow> mcs_vfs_lseek (Some t) h fd off wh = (s, Some t') \<Longrightarrow>
     vfs_reachable A h t'"
| close: "vfs_reachable A h t \<Longrightarrow> mcs_vfs_close (Some t) fd = (u, Some t') \<Longrightarrow>
     vfs_reachable A h t'"
| dup: "vfs_reachable A h t \<Longrightarrow> mcs_vfs_dup (Some t) fd = (r, Some t') \<Longrightarrow>
     vfs_reachable A h t'"

lemma fd_table_init_eq:
  assumes "length (files t) = 16"
  shows "mcs_fd_table_init (Some t) = Some (t\<lparr>files := map reset_file (files t)\<rparr>)"
  using fold_update_each [of 16 "files t" reset_file] assms
  by (simp add: mcs_fd_table_init_def MCS_MAX_OPEN_FILES_def)

lemma seed_ext:
  assumes wf: "ramfs_wf fs" and p: "NUL \<notin> set p"
    and s: "mcs_ramfs_seed_file (Some fs) (Some p) d len = (r, Some fs')"
  shows "ramfs_wf fs' \<and> node_count fs \<le> node_count fs' \<and> (\<forall>n. is_file fs n \<longrightarrow> is_file fs' n)"
proof -
  obtain fs1 r1 where c: "mcs_ramfs_create_file (Some fs) (Some p) = (r1, Some fs1)"
      "ramfs_wf fs1" "node_count fs \<le> node_count fs1"
      "\<And>n. is_file fs n \<Longrightarrow> is_file fs1 n" "\<And>n. r1 = Inr n \<Longrightarrow> is_file fs1 n"
    using create_any [OF wf p] by metis
  consider "fs' = fs" | "fs' = fs1" | i where "r1 = Inr i" "len \<le> vn_data_capacity (nodes fs1 ! i)"
      "fs' = put_file fs1 i 0 (case d of Some d \<Rightarrow> d | None \<Rightarrow> []) 0 len len"
    using s c(1) by (auto simp: mcs_ramfs_seed_file_def put_file_def Let_def
        split: if_splits sum.splits)
  then show ?thesis
  proof cases
    case (3 i)
    then show ?thesis
      using put_file_wf [OF c(2) c(5) [OF 3(1)] 3(2)] put_file_tree(3) [OF c(2) c(5) [OF 3(1)]]
        c(3,4) by simp
  qed (use wf c in auto)
qed

lemma vfs_reachable_inv:
  "vfs_reachable A h t \<Longrightarrow> fd_inv A h t"
proof (induction rule: vfs_reachable.induct)
  case (init h0 t0 t)
  then show ?case
    using fd_table_init_eq [of t0] ramfs_init_wf by (auto simp: fd_inv_def reset_file_def)
next
  case (seed h t a p d len r fs')
  have "ramfs_wf (h a)" using seed by (simp add: fd_inv_def)
  then have "heap_ext A h (h(a := fs'))"
    using seed_ext [OF _ seed.hyps(3,4)] seed.IH by (auto simp: heap_ext_def fd_inv_def)
  then show ?case using fd_inv_heap seed.IH by blast
next
  case (op h t a p flags r t' h')
  then show ?case using vfs_open_inv [OF op.IH op.hyps(2,3,4)] by simp
next
  case (rd h t fd buf len r t' buf')
  then show ?case using vfs_read_inv [OF rd.IH rd.hyps(2)] by simp
next
  case (wr h t fd buf len r t' h')
  then show ?case using vfs_write_inv [OF wr.IH wr.hyps(2)] by simp
next
  case (lseek h t fd off wh s t')
  then show ?case using vfs_lseek_inv [OF lseek.IH lseek.hyps(2)] by simp
next
  case (close h t fd u t')
  then show ?case using vfs_close_inv [OF close.IH close.hyps(2)] by simp
next
  case (dup h t fd r t')
  then show ?case using vfs_dup_inv [OF dup.IH dup.hyps(2)] by simp
qed

subsection \<open>Properties\<close>

definition blank_table :: mcs_fd_table where
  "blank_table = \<lparr>files = replicate 16 \<lparr>f_used = False, f_flags = 0, f_offset = 0, f_node = None,
     f_fs = None\<rparr>\<rparr>"

text \<open>C20: In every state reached from initialised file systems and an initialised table
  by any sequence of seeds, opens, reads, writes, seeks, closes and dups, every used descriptor
  points to a live vnode of a mounted file system with an access mode, descriptors that can
  write never point to directories, and the file systems stay well formed.\<close>

theorem vfs_reachable_invariant:
  assumes "vfs_reachable A h t"
  shows "fd_inv A h t"
  using assms by (rule vfs_reachable_inv)

lemma blank_reachable: "vfs_reachable {0} (\<lambda>a. if a \<in> {0} then mcs_ramfs_init blank_fs else blank_fs) blank_table"
proof -
  have "length (files blank_table) = 16" by (simp add: blank_table_def)
  then have "mcs_fd_table_init (Some blank_table) = Some blank_table"
    using fd_table_init_eq by (simp add: blank_table_def reset_file_def)
  then show ?thesis
    using vfs_reachable.init [of "{0}" "\<lambda>_. blank_fs" blank_table] blank_fs_shape
    by (simp add: blank_table_def)
qed

theorem vfs_reachable_invariant_witness:
  "fd_inv {0} (\<lambda>a. if a \<in> {0} then mcs_ramfs_init blank_fs else blank_fs) blank_table"
  by (rule vfs_reachable_invariant [OF blank_reachable])

lemma put_file_contents:
  assumes wf: "ramfs_wf fs" and isf: "is_file fs i" and n: "off + n \<le> 256"
  shows "file_data (put_file fs i off src 0 n (max (vn_size (nodes fs ! i)) (off + n))) i =
    take (max (vn_size (nodes fs ! i)) (off + n)) (mcs_copy_bytes (slot fs i) off src 0 n)"
proof -
  note D = is_fileD [OF wf isf]
  let ?sz = "vn_size (nodes fs ! i)"
  let ?fs = "put_file fs i off src 0 n (max ?sz (off + n))"
  have "i < length (nodes fs)" using D(2) ramfs_wfD(1) [OF wf] by simp
  moreover have "ramfs_wf ?fs" using put_file_wf [OF wf isf] D(3,6) n by simp
  ultimately show ?thesis
    using file_data_slot(1) [of ?fs i] put_file_slot(1) [OF wf isf] put_file_tree(3) [OF wf isf]
      isf D(6) n by simp
qed

lemma put_file_overlay:
  assumes wf: "ramfs_wf fs" and isf: "is_file fs i" and n: "off + n \<le> 256" and src: "n \<le> length src"
    and off: "off \<le> vn_size (nodes fs ! i)"
  shows "file_data (put_file fs i off src 0 n (max (vn_size (nodes fs ! i)) (off + n))) i =
    take off (file_data fs i) @ take n src @ drop (off + n) (file_data fs i)"
proof -
  note D = is_fileD [OF wf isf]
  let ?sz = "vn_size (nodes fs ! i)" and ?S = "slot fs i"
  have S: "length ?S = 256" using file_data_slot(2) [OF wf isf] D(6) by simp
  have "take (max ?sz (off + n)) (mcs_copy_bytes ?S off src 0 n) =
      take off (take ?sz ?S) @ take n src @ drop (off + n) (take ?sz ?S)"
  proof (rule nth_equalityI)
    show "length (take (max ?sz (off + n)) (mcs_copy_bytes ?S off src 0 n)) =
        length (take off (take ?sz ?S) @ take n src @ drop (off + n) (take ?sz ?S))"
      using S D(3,6) n src off by simp
    fix k
    assume "k < length (take (max ?sz (off + n)) (mcs_copy_bytes ?S off src 0 n))"
    then have "k < max ?sz (off + n)" "k < 256" using S by auto
    then show "take (max ?sz (off + n)) (mcs_copy_bytes ?S off src 0 n) ! k =
        (take off (take ?sz ?S) @ take n src @ drop (off + n) (take ?sz ?S)) ! k"
      using S D(3,6) n src off nth_copy_bytes [of off n ?S k src 0]
      by (auto simp: nth_append min_def)
  qed
  then show ?thesis
    using put_file_contents [OF wf isf n] file_data_slot(1) [OF wf isf] by simp
qed

lemma put_file_gap:
  assumes wf: "ramfs_wf fs" and isf: "is_file fs i" and n: "off + n \<le> 256" and src: "n \<le> length src"
    and off: "vn_size (nodes fs ! i) \<le> off"
  shows "file_data (put_file fs i off src 0 n (max (vn_size (nodes fs ! i)) (off + n))) i =
    take off (slot fs i) @ take n src"
proof -
  have S: "length (slot fs i) = 256"
    using file_data_slot(2) [OF wf isf] is_fileD(6) [OF wf isf] by simp
  have "take (off + n) (mcs_copy_bytes (slot fs i) off src 0 n) = take off (slot fs i) @ take n src"
    using copy_bytes_inside [of off n "slot fs i" 0 src] src n S
      copy_bytes_outside [of off n "slot fs i" 0 off src 0] by (simp add: take_add)
  then show ?thesis using put_file_contents [OF wf isf n] off by (simp add: max_def)
qed

text \<open>C19: A write on a descriptor open for writing either fails with EINVAL (offset
  beyond the slice) or ENOSPC (it does not fit) and changes no file, or replaces exactly the
  written range of that file, extends it when it ends past its size, and changes no other file;
  a write past the end of the file makes the old bytes of the slice part of the file.\<close>

theorem mcs_vfs_write_exact:
  assumes inv: "fd_inv A h t" and i: "mcs_fd_get (Some t) fd = Some i"
    and w: "mcs_can_write (f_flags (files t ! i))" and np: "f_node (files t ! i) = Some (a, n)"
    and b: "len \<le> length b" and off: "off = write_offset h (files t ! i)"
  shows "\<exists>t' h'. mcs_vfs_write (Some t) h fd (Some b) len =
      (if 256 < off then Inl MCS_EINVAL else if 256 < off + len then Inl MCS_ENOSPC else Inr len,
       Some t', h') \<and>
     fd_inv A h' t' \<and>
     f_offset (files t' ! i) = (if 256 < off + len then off else off + len) \<and>
     (256 < off + len \<longrightarrow> h' = h) \<and>
     (\<forall>a' \<in> A. \<forall>m. is_file (h a') m \<and> (a', m) \<noteq> (a, n) \<longrightarrow> file_data (h' a') m = file_data (h a') m) \<and>
     (off + len \<le> 256 \<and> off \<le> length (file_data (h a) n) \<longrightarrow>
        file_data (h' a) n =
          take off (file_data (h a) n) @ take len b @ drop (off + len) (file_data (h a) n)) \<and>
     (off + len \<le> 256 \<and> length (file_data (h a) n) < off \<longrightarrow>
        file_data (h' a) n = take off (slot (h a) n) @ take len b)"
proof -
  obtain g: "i < 16" "a \<in> A" "ramfs_wf (h a)" "file_wf A h (files t ! i)"
      "f_fs (files t ! i) = Some a"
    using fd_get_Some [OF inv i] np by (metis option.inject prod.inject)
  have isf: "is_file (h a) n" using g(4,5) w np by (simp add: file_wf_def)
  note D = is_fileD [OF g(3) isf]
  have len: "length (files t) = 16" using inv by (simp add: fd_inv_def)
  have size: "length (file_data (h a) n) = vn_size (nodes (h a) ! n)"
    using D by (simp add: file_data_def)
  note eq = vfs_write_eq [OF inv i w np, of b len, unfolded Let_def, folded off]
  obtain r t' h' where wr: "mcs_vfs_write (Some t) h fd (Some b) len = (r, Some t', h')"
      and inv': "fd_inv A h' t'"
    using vfs_write_inv [OF inv] by (metis prod.exhaust)
  show ?thesis
  proof (cases "256 < off + len")
    case True
    then show ?thesis using eq wr inv' len g(1) by (auto split: if_splits)
  next
    case False
    let ?h = "h(a := put_file (h a) n off b 0 len (max (vn_size (nodes (h a) ! n)) (off + len)))"
    have h': "r = Inr len" "h' = ?h" "f_offset (files t' ! i) = off + len"
      using eq wr False len g(1) by (auto split: if_splits)
    have "file_data (?h a') m = file_data (h a') m"
      if "is_file (h a') m" "(a', m) \<noteq> (a, n)" for a' m
      using put_file_other [OF g(3) isf, of m off len] that D False by (cases "a' = a") auto
    moreover have "off \<le> vn_size (nodes (h a) ! n) \<Longrightarrow> file_data (?h a) n =
        take off (file_data (h a) n) @ take len b @ drop (off + len) (file_data (h a) n)"
      using put_file_overlay [OF g(3) isf _ b] False by simp
    moreover have "vn_size (nodes (h a) ! n) < off \<Longrightarrow>
        file_data (?h a) n = take off (slot (h a) n) @ take len b"
      using put_file_gap [OF g(3) isf _ b] False by simp
    ultimately show ?thesis using wr inv' h' False size by auto
  qed
qed

text \<open>An opened file to try the properties on: \<open>/motd\<close>, created on an empty file system.\<close>

definition demo_flags :: u32 where "demo_flags = MCS_O_RDWR OR MCS_O_CREAT"

definition boot_heap :: fs_heap where
  "boot_heap = (\<lambda>a. if a \<in> {0} then mcs_ramfs_init blank_fs else blank_fs)"

definition demo_heap :: fs_heap where
  "demo_heap = boot_heap(0 := new_file (mcs_ramfs_init blank_fs) 0 ''motd'')"

definition demo_table :: mcs_fd_table where
  "demo_table = set_file blank_table 0
     \<lparr>f_used = True, f_flags = demo_flags, f_offset = 0, f_node = Some (0, 1), f_fs = Some 0\<rparr>"

lemma demo_flags_simps [simp]:
  "mcs_can_write demo_flags" "mcs_can_read demo_flags" "demo_flags AND MCS_O_APPEND = 0"
  "demo_flags AND MCS_O_TRUNC = 0" "demo_flags AND MCS_O_CREAT \<noteq> 0"
  "demo_flags AND (MCS_O_RDONLY OR MCS_O_WRONLY OR MCS_O_RDWR) \<noteq> 0"
  by (simp_all add: demo_flags_def mcs_can_write_def mcs_can_read_def mcs_open_flags)

lemma demo_open:
  "mcs_vfs_open (Some blank_table) (Some 0) boot_heap (Some ''/motd'') demo_flags =
     (Inr 0, Some demo_table, demo_heap)"
proof -
  let ?fs = "mcs_ramfs_init blank_fs"
  note wf = ramfs_init_wf [OF blank_fs_shape]
  have plain: "plain_comp ''motd''" by (simp add: plain_comp_def)
  have none: "spec_lookup (view ?fs) [''motd''] = Inl MCS_ENOENT"
    by (simp add: ramfs_init_view [OF blank_fs_shape] spec_lookup_def empty_view_def name_ok_def)
  have "mcs_ramfs_lookup (Some ?fs) (Some (path_of [''motd''])) = Inl MCS_ENOENT"
    using ramfs_lookup_resolve [OF wf, of "[''motd'']"] plain none by simp
  moreover have "mcs_ramfs_create_file (Some ?fs) (Some (path_of [''motd''])) =
      (Inr 1, Some (new_file ?fs 0 ''motd''))"
    using create_file_eq [OF wf, of "[''motd'']"] plain none ramfs_init_fields(3,4) [OF blank_fs_shape]
    by (simp add: name_ok_def)
  moreover have "vfs_open_node blank_table demo_heap 0 1 demo_flags = (Inr 0, Some demo_table, demo_heap)"
  proof -
    have "fst (mcs_fd_alloc (Some blank_table)) = Inr 0"
      by (simp add: mcs_fd_alloc_def MCS_MAX_OPEN_FILES_def blank_table_def upt_rec [of 0])
    moreover have "vn_type (nodes (demo_heap 0) ! 1) = MCS_VNODE_FILE"
      using new_file_nodes(4) [OF wf _ plain, of 0] ramfs_init_fields(3) [OF blank_fs_shape]
      by (simp add: demo_heap_def)
    ultimately show ?thesis
      using vfs_open_node_eq [of blank_table demo_heap 0 1 demo_flags]
      by (simp add: blank_table_def demo_table_def)
  qed
  ultimately show ?thesis
    by (simp add: mcs_vfs_open_def boot_heap_def demo_heap_def)
qed

lemma demo_inv: "fd_inv {0} demo_heap demo_table"
proof -
  have "vfs_reachable {0} boot_heap blank_table"
    using blank_reachable by (simp add: boot_heap_def)
  then show ?thesis
    using vfs_reachable.op [of "{0}" boot_heap blank_table 0 "''/motd''"] demo_open vfs_reachable_inv
    by simp
qed

lemma demo_file:
  "mcs_fd_get (Some demo_table) 0 = Some 0" "files demo_table ! 0 =
     \<lparr>f_used = True, f_flags = demo_flags, f_offset = 0, f_node = Some (0, 1), f_fs = Some 0\<rparr>"
  "is_file (demo_heap 0) 1" "file_data (demo_heap 0) 1 = []" "vn_size (nodes (demo_heap 0) ! 1) = 0"
  using new_file_nodes(4,5,6) [OF ramfs_init_wf [OF blank_fs_shape], of "''motd''" 0]
    ramfs_init_fields(3) [OF blank_fs_shape]
  by (simp_all add: mcs_fd_get_def MCS_MAX_OPEN_FILES_def demo_table_def blank_table_def
      plain_comp_def demo_heap_def is_file_def file_data_def)

theorem mcs_vfs_write_exact_witness:
  "\<exists>t' h'. mcs_vfs_write (Some demo_table) demo_heap 0 (Some [7, 8, 9]) 2 = (Inr 2, Some t', h') \<and>
     file_data (h' 0) 1 = [7, 8]"
  using mcs_vfs_write_exact [OF demo_inv demo_file(1), of 0 1 2 "[7, 8, 9]" 0] demo_file
  by (auto simp: write_offset_def)

text \<open>Bytes written to a file are found where they were written.\<close>

lemma put_file_reads_back:
  assumes wf: "ramfs_wf fs" and isf: "is_file fs n" and off: "off + len \<le> 256" and b: "len \<le> length b"
  defines "d \<equiv> file_data (put_file fs n off b 0 len (max (vn_size (nodes fs ! n)) (off + len))) n"
  shows "take len (drop off d) = take len b" and "min len (length d - off) = len"
proof -
  note D = is_fileD [OF wf isf]
  have S: "length (slot fs n) = 256" using file_data_slot(2) [OF wf isf] D(6) by simp
  note data = put_file_contents [OF wf isf off, of b, folded d_def]
  have "take len (drop off d) = take len (drop off (mcs_copy_bytes (slot fs n) off b 0 len))"
    unfolding data by (simp add: drop_take min_def)
  then show "take len (drop off d) = take len b"
    using copy_bytes_inside [of off len "slot fs n" 0 b] S off b by simp
  show "min len (length d - off) = len" unfolding data using S off D(3,6) by simp
qed

lemma copy_bytes_prefix:
  assumes "len \<le> length c" and "len \<le> length src"
  shows "mcs_copy_bytes c 0 src 0 len = take len src @ drop len c"
  using copy_bytes_inside [of 0 len c 0 src] copy_bytes_outside [of 0 len c len "length c" src 0] assms
    append_take_drop_id [of len "mcs_copy_bytes c 0 src 0 len"] by simp

lemma vfs_lseek_start:
  assumes get: "mcs_fd_get (Some t) fd = Some i" "i < length (files t)" and off: "off \<le> 256"
    and node: "f_node (files t ! i) = Some (a, n)" "vn_type (nodes (h a) ! n) = MCS_VNODE_FILE"
  shows "mcs_vfs_lseek (Some t) h fd (int off) MCS_SEEK_SET =
    (Inr (int off), Some (set_file t i ((files t ! i)\<lparr>f_offset := off\<rparr>)))"
proof -
  have sgn: "signed_take_bit 63 (int off) = int off" "signed_take_bit 31 (int off) = int off"
    using off by (simp_all add: signed_take_bit_int_eq_self)
  have "\<not> bit (int off) 63"
    using signed_take_bit_negative_iff [of 63 "int off"] unfolding sgn(1) by simp
  then show ?thesis using get node by (simp add: mcs_vfs_lseek_def Let_def sgn mcs_seek)
qed

text \<open>C18: On a descriptor open for reading and writing without O_APPEND, any bytes that
  fit below offset 256 are written whole, and after seeking back to the offset of the write a
  read of the same length returns exactly those bytes and leaves the rest of the user buffer
  alone.\<close>

theorem mcs_vfs_write_seek_read:
  assumes inv: "fd_inv A h t" and i: "mcs_fd_get (Some t) fd = Some i"
    and rw: "mcs_can_write (f_flags (files t ! i))" "mcs_can_read (f_flags (files t ! i))"
      "f_flags (files t ! i) AND MCS_O_APPEND = 0"
    and b: "len \<le> length b" and c: "len \<le> length c"
    and off: "off = f_offset (files t ! i)" "off + len \<le> 256"
  shows "\<exists>t1 h1 t2 t3. mcs_vfs_write (Some t) h fd (Some b) len = (Inr len, Some t1, h1) \<and>
     mcs_vfs_lseek (Some t1) h1 fd (int off) MCS_SEEK_SET = (Inr (int off), Some t2) \<and>
     mcs_vfs_read (Some t2) h1 fd (Some c) len = (Inr len, Some t3, Some (take len b @ drop len c))"
proof -
  obtain a n where g: "i < 16" "a \<in> A" "ramfs_wf (h a)" "file_wf A h (files t ! i)"
      "f_fs (files t ! i) = Some a" "f_node (files t ! i) = Some (a, n)" "fd = int i"
      "f_used (files t ! i)"
    using fd_get_Some [OF inv i] by metis
  have isf: "is_file (h a) n" using g(4,5,6) rw(1) by (simp add: file_wf_def)
  have len: "length (files t) = 16" using inv by (simp add: fd_inv_def)
  have woff: "write_offset h (files t ! i) = off" using rw(3) off(1) by (simp add: write_offset_def)
  let ?sz = "vn_size (nodes (h a) ! n)"
  let ?h = "h(a := put_file (h a) n off b 0 len (max ?sz (off + len)))"
  let ?t1 = "set_file t i ((files t ! i)\<lparr>f_offset := off + len\<rparr>)"
  let ?t2 = "set_file t i ((files t ! i)\<lparr>f_offset := off\<rparr>)"
  have wr: "mcs_vfs_write (Some t) h fd (Some b) len = (Inr len, Some ?t1, ?h)"
    using vfs_write_eq [OF inv i rw(1) g(6), of b len, unfolded Let_def woff] off(2) by simp
  have inv1: "fd_inv A ?h ?t1" using vfs_write_inv [OF inv wr] by simp
  have isf1: "is_file (?h a) n" using put_file_tree(3) [OF g(3) isf] isf by simp
  have wf1: "ramfs_wf (?h a)" using inv1 g(2) unfolding fd_inv_def by blast
  have get: "mcs_fd_get (Some ?t1) fd = Some i" "mcs_fd_get (Some ?t2) fd = Some i"
    using g(1,7,8) len by (simp_all add: mcs_fd_get_def MCS_MAX_OPEN_FILES_def)
  have sk: "mcs_vfs_lseek (Some ?t1) ?h fd (int off) MCS_SEEK_SET = (Inr (int off), Some ?t2)"
    using vfs_lseek_start [OF get(1), of off a n ?h] g(1,6) len off(2) is_fileD(5) [OF _ isf1] wf1 by simp
  have inv2: "fd_inv A ?h ?t2" using vfs_lseek_inv [OF inv1 sk] by simp
  note rb = put_file_reads_back [OF g(3) isf off(2) b]
  then have "mcs_copy_bytes c 0 (drop off (file_data (?h a) n)) 0 len = take len b @ drop len c"
    using copy_bytes_prefix [OF c, of "drop off (file_data (?h a) n)"] by simp
  then have "mcs_vfs_read (Some ?t2) ?h fd (Some c) len = (Inr len, Some ?t1, Some (take len b @ drop len c))"
    using vfs_read_eq [OF inv2 get(2), of a n c len] isf1 rw(2) g(1,6) len rb(2) by simp
  then show ?thesis using wr sk by blast
qed

theorem mcs_vfs_write_seek_read_witness:
  "\<exists>t1 h1 t2 t3. mcs_vfs_write (Some demo_table) demo_heap 0 (Some [7, 8, 9]) 3 = (Inr 3, Some t1, h1) \<and>
     mcs_vfs_lseek (Some t1) h1 0 0 MCS_SEEK_SET = (Inr 0, Some t2) \<and>
     mcs_vfs_read (Some t2) h1 0 (Some [0, 0, 0, 0]) 3 = (Inr 3, Some t3, Some [7, 8, 9, 0])"
  using mcs_vfs_write_seek_read [OF demo_inv demo_file(1), of 3 "[7, 8, 9]" "[0, 0, 0, 0]" 0] demo_file
  by simp

text \<open>Opening an existing file with an access mode gives the lowest free descriptor
  at offset 0, or at the end with O_APPEND, truncates that file alone with O_TRUNC, and reports
  ENFILE with nothing changed when all 16 descriptors are used.\<close>

lemma open_existing:
  assumes inv: "fd_inv A h t" and a: "a \<in> A" and cs: "list_all plain_comp cs" "cs \<noteq> []"
    and n: "spec_lookup (view (h a)) cs = Inr n" and isf: "is_file (h a) n"
    and acc: "flags AND (MCS_O_RDONLY OR MCS_O_WRONLY OR MCS_O_RDWR) \<noteq> 0"
    and tr: "flags AND MCS_O_TRUNC \<noteq> 0 \<longrightarrow> mcs_can_write flags"
  shows "if \<forall>i<16. f_used (files t ! i)
    then mcs_vfs_open (Some t) (Some a) h (Some (path_of cs)) flags = (Inl MCS_ENFILE, Some t, h)
    else \<exists>fd<16. \<exists>h'. \<not> f_used (files t ! fd) \<and> (\<forall>j<fd. f_used (files t ! j)) \<and>
      mcs_vfs_open (Some t) (Some a) h (Some (path_of cs)) flags =
        (Inr fd, Some (set_file t fd \<lparr>f_used = True, f_flags = flags,
           f_offset = (if flags AND MCS_O_TRUNC = 0 \<and> flags AND MCS_O_APPEND \<noteq> 0
                       then length (file_data (h a) n) else 0),
           f_node = Some (a, n), f_fs = Some a\<rparr>), h') \<and>
      (flags AND MCS_O_TRUNC = 0 \<longrightarrow> h' = h) \<and>
      (flags AND MCS_O_TRUNC \<noteq> 0 \<longrightarrow> file_data (h' a) n = [] \<and>
         (\<forall>m. is_file (h a) m \<and> m \<noteq> n \<longrightarrow> file_data (h' a) m = file_data (h a) m))"
proof -
  have wf: "ramfs_wf (h a)" and len: "length (files t) = 16" using inv a by (auto simp: fd_inv_def)
  note D = is_fileD [OF wf isf]
  have size: "length (file_data (h a) n) = vn_size (nodes (h a) ! n)"
    using D by (simp add: file_data_def)
  have node: "mcs_vfs_open (Some t) (Some a) h (Some (path_of cs)) flags = vfs_open_node t h a n flags"
    using ramfs_lookup_resolve [OF wf cs] n acc by (simp add: mcs_vfs_open_def)
  note eq = vfs_open_node_eq [OF len, of h a n flags, folded node]
  obtain r t1 where al: "mcs_fd_alloc (Some t) = (r, t1)" by (cases "mcs_fd_alloc (Some t)")
  show ?thesis
  proof (cases r)
    case (Inl rc)
    then show ?thesis using fd_alloc_Inl [of t rc t1] al eq D(5) by auto
  next
    case (Inr fd)
    then have fd: "fd < 16" "\<not> f_used (files t ! fd)" "\<forall>k<fd. f_used (files t ! k)"
      using fd_alloc_Inr [of t fd t1] al by auto
    let ?h = "set_node_size h (a, n) 0"
    have h0: "?h a = put_file (h a) n 0 [] 0 0 0"
      unfolding set_node_size_put [of h a n 0 0 "[]" 0] by simp
    have trunc: "file_data (?h a) n = []"
      unfolding h0 using D(2) ramfs_wfD(1) [OF wf] by (simp add: file_data_def)
    have rest: "file_data (?h a) m = file_data (h a) m" if "is_file (h a) m" "m \<noteq> n" for m
      unfolding h0 using put_file_other [OF wf isf that] by simp
    have rec: "(files t ! fd)\<lparr>f_used := True, f_flags := flags, f_node := Some (a, n), f_fs := Some a,
        f_offset := k\<rparr> = \<lparr>f_used = True, f_flags = flags, f_offset = k, f_node = Some (a, n), f_fs = Some a\<rparr>" for k
      by (cases "files t ! fd") simp
    have al': "fst (mcs_fd_alloc (Some t)) = Inr fd" using al Inr by simp
    have dir: "\<not> (vn_type (nodes (h a) ! n) = MCS_VNODE_DIR \<and> mcs_can_write flags)" using D(5) by simp
    note eq' = eq [unfolded al' if_not_P [OF dir] sum.case Let_def rec]
    have busy: "\<not> (\<forall>i<16. f_used (files t ! i))" using fd by auto
    show ?thesis
      unfolding if_not_P [OF busy]
      using eq' fd trunc rest tr size
      by (intro exI [of _ fd] conjI exI [of _ "if flags AND MCS_O_TRUNC = 0 then h else ?h"]) simp_all
  qed
qed

lemma demo_lookup: "spec_lookup (view (demo_heap 0)) [''motd''] = Inr 1"
proof -
  have "view (demo_heap 0) = empty_view
      \<lparr>fv_bind := (fv_bind empty_view)((0, ''motd'') \<mapsto> 1),
       fv_file := (fv_file empty_view)(1 \<mapsto> []), fv_count := 2, fv_used := 256\<rparr>"
    using view_new_file [OF ramfs_init_wf [OF blank_fs_shape], of 0 "''motd''"]
      ramfs_init_view [OF blank_fs_shape] ramfs_init_fields(3,4) [OF blank_fs_shape]
      wf_root [OF ramfs_init_wf [OF blank_fs_shape]]
    by (simp add: demo_heap_def plain_comp_def view_def empty_view_def)
  then show ?thesis by (simp add: spec_lookup_def empty_view_def name_ok_def)
qed

lemma demo_table_used: "f_used (files demo_table ! i) \<longleftrightarrow> i = 0" if "i < 16"
  using that by (cases i) (auto simp: demo_table_def blank_table_def)

theorem open_existing_witness:
  "\<exists>t' h'. mcs_vfs_open (Some demo_table) (Some 0) demo_heap (Some ''/motd'') demo_flags =
     (Inr 1, Some t', h')"
proof -
  have "fd = 1" if "fd < 16" "\<not> f_used (files demo_table ! fd)" "\<forall>j<fd. f_used (files demo_table ! j)" for fd
    using that demo_table_used [of fd] demo_table_used [of 1] by (cases "fd = 0"; cases "1 < fd") auto
  note only = this
  have busy: "\<not> (\<forall>i<16. f_used (files demo_table ! i))"
    using demo_table_used [of 1] by (auto intro!: exI [of _ 1])
  have plain: "list_all plain_comp [''motd'']" by (simp add: plain_comp_def)
  obtain fd h' t' where "fd < 16" "\<not> f_used (files demo_table ! fd)" "\<forall>j<fd. f_used (files demo_table ! j)"
      "mcs_vfs_open (Some demo_table) (Some 0) demo_heap (Some (path_of [''motd''])) demo_flags =
         (Inr fd, Some t', h')"
    using open_existing [OF demo_inv insertI1 plain _ demo_lookup demo_file(3), of demo_flags,
        unfolded if_not_P [OF busy]] by auto
  then show ?thesis using only [of fd] by simp
qed

text \<open>Closing succeeds exactly on used descriptors; afterwards close, dup, lseek,
  read and write on it give EBADF, and every other descriptor is untouched.\<close>

theorem mcs_vfs_close_exact:
  assumes inv: "fd_inv A h t"
  shows "mcs_vfs_close (Some t) fd =
      (if 0 \<le> fd \<and> fd < 16 \<and> f_used (files t ! nat fd)
       then (Inr (), Some (set_file t (nat fd) (reset_file (files t ! nat fd))))
       else (Inl MCS_EBADF, Some t)) \<and>
     (\<forall>t'. snd (mcs_vfs_close (Some t) fd) = Some t' \<longrightarrow>
        fst (mcs_vfs_close (Some t') fd) = Inl MCS_EBADF \<and>
        fst (mcs_vfs_dup (Some t') fd) = Inl MCS_EBADF \<and>
        fst (mcs_vfs_lseek (Some t') h fd off wh) = Inl MCS_EBADF \<and>
        fst (mcs_vfs_read (Some t') h fd (Some b) len) = Inl MCS_EBADF \<and>
        fst (mcs_vfs_write (Some t') h fd (Some b) len) = Inl MCS_EBADF \<and>
        (\<forall>fd'. fd' \<noteq> fd \<longrightarrow> mcs_fd_get (Some t') fd' = mcs_fd_get (Some t) fd'))"
proof -
  have len: "length (files t) = 16" using inv by (simp add: fd_inv_def)
  have eq: "mcs_vfs_close (Some t) fd =
      (if 0 \<le> fd \<and> fd < 16 \<and> f_used (files t ! nat fd)
       then (Inr (), Some (set_file t (nat fd) (reset_file (files t ! nat fd))))
       else (Inl MCS_EBADF, Some t))"
    by (auto simp: mcs_vfs_close_def mcs_fd_get_def MCS_MAX_OPEN_FILES_def reset_file_def)
  have none: "mcs_fd_get (Some t') fd = None" if "snd (mcs_vfs_close (Some t) fd) = Some t'" for t'
    using that len unfolding eq fd_get_None_iff by (auto simp: reset_file_def split: if_splits)
  have other: "mcs_fd_get (Some t') fd' = mcs_fd_get (Some t) fd'"
    if "snd (mcs_vfs_close (Some t) fd) = Some t'" "fd' \<noteq> fd" for t' fd'
  proof (cases "fd' < 0 \<or> fd < 0")
    case False
    then have "nat fd \<noteq> nat fd'" using that(2) by (simp add: nat_eq_iff)
    then show ?thesis
      using that(1) unfolding eq by (auto simp: mcs_fd_get_def split: if_splits)
  qed (use that(1) in \<open>auto simp: eq mcs_fd_get_def split: if_splits\<close>)
  have bad: "fst (mcs_vfs_close (Some t') fd) = Inl MCS_EBADF"
      "fst (mcs_vfs_dup (Some t') fd) = Inl MCS_EBADF"
      "fst (mcs_vfs_lseek (Some t') h fd off wh) = Inl MCS_EBADF"
      "fst (mcs_vfs_read (Some t') h fd (Some b) len) = Inl MCS_EBADF"
      "fst (mcs_vfs_write (Some t') h fd (Some b) len) = Inl MCS_EBADF"
    if "mcs_fd_get (Some t') fd = None" for t'
    using that by (simp_all add: mcs_vfs_close_def mcs_vfs_dup_def mcs_vfs_lseek_def mcs_vfs_read_def
        mcs_vfs_write_def)
  show ?thesis
    by (intro conjI allI impI eq bad none other)
qed

theorem mcs_vfs_close_exact_witness:
  "\<exists>t'. mcs_vfs_close (Some demo_table) 0 = (Inr (), Some t') \<and>
     fst (mcs_vfs_read (Some t') demo_heap 0 (Some [0]) 1) = Inl MCS_EBADF"
  using mcs_vfs_close_exact [OF demo_inv, of 0 0 0 "[0]" 1] demo_table_used [of 0] by simp

text \<open>Seeking relative to the start, the offset or the end of a file sets the offset
  to the sum when it is not negative and fits 63 bits, refuses a negative sum, and returns the
  offset cut to 32 signed bits, so that seeking to 2^31 succeeds with a negative
  result.\<close>

theorem mcs_vfs_lseek_exact:
  assumes inv: "fd_inv A h t" and i: "mcs_fd_get (Some t) fd = Some i"
    and np: "f_node (files t ! i) = Some (a, n)" and isf: "is_file (h a) n"
    and wh: "(whence, base) \<in> {(MCS_SEEK_SET, 0), (MCS_SEEK_CUR, int (f_offset (files t ! i))),
      (MCS_SEEK_END, int (length (file_data (h a) n)))}"
    and fit: "- (2 ^ 63) \<le> base + off" "base + off < 2 ^ 63"
  shows "mcs_vfs_lseek (Some t) h fd off whence =
    (if base + off < 0 then (Inl MCS_EINVAL, Some t)
     else (Inr (signed_take_bit 31 (base + off)),
           Some (set_file t i ((files t ! i)\<lparr>f_offset := nat (base + off)\<rparr>))))"
proof -
  obtain g: "ramfs_wf (h a)" "file_wf A h (files t ! i)" "f_fs (files t ! i) = Some a"
    using fd_get_Some [OF inv i] np by (metis option.inject prod.inject)
  note D = is_fileD [OF g(1) isf]
  have size: "length (file_data (h a) n) = vn_size (nodes (h a) ! n)"
    using D by (simp add: file_data_def)
  have o63: "f_offset (files t ! i) < 2 ^ 63" using g(2,3) np by (simp add: file_wf_def)
  have b1: "signed_take_bit 63 (int (f_offset (files t ! i))) = int (f_offset (files t ! i))"
    using o63 by (intro signed_take_bit_int_eq_self) auto
  have b2: "signed_take_bit 63 (int (vn_size (nodes (h a) ! n))) = int (vn_size (nodes (h a) ! n))"
    using D(3,6) by (intro signed_take_bit_int_eq_self) auto
  define nx where "nx = base + off"
  have b3: "signed_take_bit 63 nx = nx"
    unfolding nx_def using fit by (intro signed_take_bit_int_eq_self) auto
  have nx: "nx = off \<and> whence = MCS_SEEK_SET \<or> nx = int (f_offset (files t ! i)) + off \<and> whence = MCS_SEEK_CUR
      \<or> nx = int (vn_size (nodes (h a) ! n)) + off \<and> whence = MCS_SEEK_END"
    using wh by (auto simp: nx_def size)
  then show ?thesis
    unfolding nx_def [symmetric] mcs_vfs_lseek_def i option.case Let_def option.sel np b1 b2
    using b3 D(5) by (auto simp: mcs_seek b1 b2 simp del: signed_take_bit_negative_iff)
qed

theorem mcs_vfs_lseek_exact_witness:
  "fst (mcs_vfs_lseek (Some demo_table) demo_heap 0 5 MCS_SEEK_END) = Inr 5 \<and>
   fst (mcs_vfs_lseek (Some demo_table) demo_heap 0 (2 ^ 31) MCS_SEEK_SET) = Inr (- (2 ^ 31)) \<and>
   fst (mcs_vfs_lseek (Some demo_table) demo_heap 0 (-1) MCS_SEEK_CUR) = Inl MCS_EINVAL"
  using mcs_vfs_lseek_exact [OF demo_inv demo_file(1), of 0 1 MCS_SEEK_END 0 5]
    mcs_vfs_lseek_exact [OF demo_inv demo_file(1), of 0 1 MCS_SEEK_SET 0 "2 ^ 31"]
    mcs_vfs_lseek_exact [OF demo_inv demo_file(1), of 0 1 MCS_SEEK_CUR 0 "-1"] demo_file
  by (simp add: signed_take_bit_eq_take_bit_minus)

end
