(* ===== verification/Lockdep.thy ===== *)
theory Lockdep
  imports Kernel_Prelude
begin

text \<open>
  The lock-order checker, \<open>mcsos/kernel/sync/lockdep.c\<close> with \<open>mcsos/include/mcs_sync.h\<close>: a stack
  of at most 16 lock classes that a thread holds or is about to take. A state pointer is an
  \<open>option\<close>, a return code an \<open>int\<close>. The invariant is that the classes on the stack increase
  strictly, and from it follows that threads that all pass the checker cannot wait for each other
  in a circle.
\<close>

subsection \<open>Data\<close>

definition MCS_LOCKDEP_MAX_HELD :: nat where "MCS_LOCKDEP_MAX_HELD = 16"

definition MCS_SYNC_OK :: int where "MCS_SYNC_OK = 0"
definition MCS_SYNC_EINVAL :: int where "MCS_SYNC_EINVAL = -22"
definition MCS_SYNC_EBUSY :: int where "MCS_SYNC_EBUSY = -16"
definition MCS_SYNC_EPERM :: int where "MCS_SYNC_EPERM = -1"
definition MCS_SYNC_EDEADLK :: int where "MCS_SYNC_EDEADLK = -35"
definition MCS_SYNC_EOVERFLOW :: int where "MCS_SYNC_EOVERFLOW = -75"

lemmas mcs_sync_codes =
  MCS_SYNC_OK_def MCS_SYNC_EINVAL_def MCS_SYNC_EBUSY_def MCS_SYNC_EPERM_def MCS_SYNC_EDEADLK_def
  MCS_SYNC_EOVERFLOW_def

record mcs_lockdep_state =
  held_class :: "u32 list"
  held_name :: "string option list"
  depth :: nat
  violation_count :: u32

subsection \<open>Operations\<close>

definition mcs_lockdep_init :: "mcs_lockdep_state option \<Rightarrow> mcs_lockdep_state option" where
  "mcs_lockdep_init state =
     map_option (\<lambda>s.
       let (cs, ns) = fold (\<lambda>i (cs, ns). (cs[i := 0], ns[i := None])) [0..<MCS_LOCKDEP_MAX_HELD]
                        (held_class s, held_name s)
       in s\<lparr>held_class := cs, held_name := ns, depth := 0, violation_count := 0\<rparr>) state"

definition mcs_lockdep_is_held :: "mcs_lockdep_state option \<Rightarrow> u32 \<Rightarrow> bool" where
  "mcs_lockdep_is_held state class_id =
     (case state of
        None \<Rightarrow> False
      | Some s \<Rightarrow>
          if class_id = 0 then False
          else list_ex (\<lambda>i. held_class s ! i = class_id) [0..<min (depth s) MCS_LOCKDEP_MAX_HELD])"

definition violation :: "mcs_lockdep_state \<Rightarrow> mcs_lockdep_state" where
  "violation s = s\<lparr>violation_count := violation_count s + 1\<rparr>"

definition mcs_lockdep_before_acquire ::
  "mcs_lockdep_state option \<Rightarrow> u32 \<Rightarrow> string option \<Rightarrow> int \<times> mcs_lockdep_state option" where
  "mcs_lockdep_before_acquire state class_id name =
     (case state of
        None \<Rightarrow> (MCS_SYNC_EINVAL, state)
      | Some s \<Rightarrow>
          if class_id = 0 then (MCS_SYNC_EINVAL, state)
          else if depth s \<ge> MCS_LOCKDEP_MAX_HELD then (MCS_SYNC_EOVERFLOW, Some (violation s))
          else if list_ex (\<lambda>i. held_class s ! i = class_id) [0..<depth s]
          then (MCS_SYNC_EDEADLK, Some (violation s))
          else if depth s > 0 \<and> class_id < held_class s ! (depth s - 1)
          then (MCS_SYNC_EDEADLK, Some (violation s))
          else (MCS_SYNC_OK,
                Some (s\<lparr>held_class := (held_class s)[depth s := class_id],
                        held_name := (held_name s)[depth s := name], depth := depth s + 1\<rparr>)))"

definition mcs_lockdep_after_release ::
  "mcs_lockdep_state option \<Rightarrow> u32 \<Rightarrow> string option \<Rightarrow> int \<times> mcs_lockdep_state option" where
  "mcs_lockdep_after_release state class_id name =
     (case state of
        None \<Rightarrow> (MCS_SYNC_EINVAL, state)
      | Some s \<Rightarrow>
          if class_id = 0 then (MCS_SYNC_EINVAL, state)
          else if depth s = 0 then (MCS_SYNC_EPERM, Some (violation s))
          else
            let index = depth s - 1 in
            if held_class s ! index \<noteq> class_id then (MCS_SYNC_EDEADLK, Some (violation s))
            else (MCS_SYNC_OK,
                  Some (s\<lparr>held_class := (held_class s)[index := 0],
                          held_name := (held_name s)[index := None], depth := depth s - 1\<rparr>)))"

subsection \<open>The stack of classes\<close>

definition held :: "mcs_lockdep_state \<Rightarrow> u32 list" where
  "held s = take (depth s) (held_class s)"

definition lockdep_wf :: "mcs_lockdep_state \<Rightarrow> bool" where
  "lockdep_wf s \<longleftrightarrow>
     length (held_class s) = 16 \<and> length (held_name s) = 16 \<and> depth s \<le> 16 \<and>
     sorted_wrt (<) (held s) \<and> 0 \<notin> set (held s)"

lemma held_violation [simp]: "held (violation s) = held s" "lockdep_wf (violation s) = lockdep_wf s"
  "depth (violation s) = depth s"
  by (simp_all add: held_def lockdep_wf_def violation_def)

lemma length_held: "lockdep_wf s \<Longrightarrow> length (held s) = depth s"
  by (simp add: lockdep_wf_def held_def)

lemma list_ex_held: "lockdep_wf s \<Longrightarrow> list_ex (\<lambda>i. held_class s ! i = c) [0..<depth s] \<longleftrightarrow> c \<in> set (held s)"
  by (auto simp: list_ex_iff lockdep_wf_def held_def in_set_conv_nth)

lemma last_held: "lockdep_wf s \<Longrightarrow> depth s > 0 \<Longrightarrow> last (held s) = held_class s ! (depth s - 1)"
  by (subst last_conv_nth) (auto simp: lockdep_wf_def held_def)

text \<open>On an increasing stack the two tests of the acquisition are one: above the last class.\<close>

lemma sorted_accept:
  assumes "sorted_wrt (<) (xs :: u32 list)" and "xs \<noteq> []"
  shows "c \<notin> set xs \<and> \<not> c < last xs \<longleftrightarrow> last xs < c"
proof (cases xs rule: rev_cases)
  case (snoc ys l)
  then have "\<forall>y \<in> set ys. y < l" using assms(1) by (simp add: sorted_wrt_append)
  then show ?thesis using snoc by (auto simp: not_less)
qed (use assms in simp)

lemma before_acquire_eq:
  assumes wf: "lockdep_wf s" and c: "c \<noteq> 0"
  shows "mcs_lockdep_before_acquire (Some s) c name =
    (if depth s = 16 then (MCS_SYNC_EOVERFLOW, Some (violation s))
     else if held s = [] \<or> last (held s) < c
     then (MCS_SYNC_OK, Some (s\<lparr>held_class := (held_class s)[depth s := c],
             held_name := (held_name s)[depth s := name], depth := depth s + 1\<rparr>))
     else (MCS_SYNC_EDEADLK, Some (violation s)))"
proof -
  have d: "depth s \<le> 16" "(depth s = 0) = (held s = [])" "sorted_wrt (<) (held s)"
    using wf by (auto simp: lockdep_wf_def held_def)
  show ?thesis
  proof (cases "held s = []")
    case True
    then show ?thesis using c d by (simp add: mcs_lockdep_before_acquire_def MCS_LOCKDEP_MAX_HELD_def)
  next
    case False
    then have "c \<notin> set (held s) \<and> \<not> c < held_class s ! (depth s - 1) \<longleftrightarrow> last (held s) < c"
      using sorted_accept [OF d(3) False, of c] last_held [OF wf] d(2) by simp
    then show ?thesis
      using False c d list_ex_held [OF wf, of c]
      by (auto simp: mcs_lockdep_before_acquire_def MCS_LOCKDEP_MAX_HELD_def)
  qed
qed

lemma held_push:
  assumes "lockdep_wf s" and "depth s < 16"
  shows "held (s\<lparr>held_class := (held_class s)[depth s := c], held_name := ns, depth := depth s + 1\<rparr>) =
    held s @ [c]"
  using assms by (simp add: held_def lockdep_wf_def take_Suc_conv_app_nth)

lemma held_pop:
  assumes "lockdep_wf s" and "depth s > 0"
  shows "held (s\<lparr>held_class := (held_class s)[depth s - 1 := c], held_name := ns, depth := depth s - 1\<rparr>) =
    butlast (held s)"
  using assms by (auto simp: held_def lockdep_wf_def butlast_take)

lemma before_acquire_wf:
  assumes wf: "lockdep_wf s" and a: "mcs_lockdep_before_acquire (Some s) c name = (r, Some s')"
  shows "lockdep_wf s' \<and> held s' = (if r = MCS_SYNC_OK then held s @ [c] else held s)"
proof (cases "c = 0")
  case True
  then show ?thesis using a wf by (auto simp: mcs_lockdep_before_acquire_def mcs_sync_codes)
next
  case False
  let ?s = "s\<lparr>held_class := (held_class s)[depth s := c], held_name := (held_name s)[depth s := name],
    depth := depth s + 1\<rparr>"
  have push: "lockdep_wf ?s" if "depth s \<noteq> 16" "held s = [] \<or> last (held s) < c"
  proof -
    have d: "depth s < 16" using wf that(1) by (simp add: lockdep_wf_def)
    have "\<forall>x \<in> set (held s). x < c"
    proof (cases "held s" rule: rev_cases)
      case (snoc ys l)
      then show ?thesis
        using wf that(2) by (fastforce simp: lockdep_wf_def sorted_wrt_append)
    qed simp
    then show ?thesis
      using wf d False held_push [OF wf d, where c = c and ns = "(held_name s)[depth s := name]"]
      by (simp add: lockdep_wf_def sorted_wrt_append)
  qed
  have d: "depth s < 16" if "depth s \<noteq> 16" using wf that by (simp add: lockdep_wf_def)
  show ?thesis
    using a before_acquire_eq [OF wf False, of name] wf push d held_push [OF wf, where c = c and ns = "(held_name s)[depth s := name]"]
    by (auto simp: mcs_sync_codes split: if_splits)
qed

lemma sorted_wrt_butlast: "sorted_wrt P xs \<Longrightarrow> sorted_wrt P (butlast xs)"
  by (cases xs rule: rev_cases) (auto simp: sorted_wrt_append)

lemma after_release_eq:
  assumes wf: "lockdep_wf s" and c: "c \<noteq> 0"
  shows "mcs_lockdep_after_release (Some s) c name =
    (if held s = [] then (MCS_SYNC_EPERM, Some (violation s))
     else if last (held s) = c
     then (MCS_SYNC_OK, Some (s\<lparr>held_class := (held_class s)[depth s - 1 := 0],
             held_name := (held_name s)[depth s - 1 := None], depth := depth s - 1\<rparr>))
     else (MCS_SYNC_EDEADLK, Some (violation s)))"
proof -
  have "(depth s = 0) = (held s = [])" using length_held [OF wf] by (metis length_0_conv)
  then show ?thesis
    using c last_held [OF wf] by (auto simp: mcs_lockdep_after_release_def Let_def)
qed

lemma after_release_wf:
  assumes wf: "lockdep_wf s" and a: "mcs_lockdep_after_release (Some s) c name = (r, Some s')"
  shows "lockdep_wf s' \<and> held s' = (if r = MCS_SYNC_OK then butlast (held s) else held s)"
proof (cases "c = 0")
  case True
  then show ?thesis using a wf by (auto simp: mcs_lockdep_after_release_def mcs_sync_codes)
next
  case False
  let ?s = "s\<lparr>held_class := (held_class s)[depth s - 1 := 0], held_name := (held_name s)[depth s - 1 := None],
    depth := depth s - 1\<rparr>"
  have pop: "held ?s = butlast (held s) \<and> lockdep_wf ?s" if "held s \<noteq> []"
  proof -
    have d: "depth s > 0" using that length_held [OF wf] by (metis length_greater_0_conv)
    note pop = held_pop [OF wf d, where c = 0 and ns = "(held_name s)[depth s - 1 := None]"]
    then show ?thesis
      using wf by (auto simp: lockdep_wf_def sorted_wrt_butlast dest: in_set_butlastD)
  qed
  show ?thesis
    using a after_release_eq [OF wf False, of name] wf pop by (auto simp: mcs_sync_codes split: if_splits)
qed

subsection \<open>Waiting threads\<close>

text \<open>
  Every thread has its own checker state and calls \<open>mcs_lockdep_before_acquire\<close> before it takes
  the lock, so while it waits the class it waits for is the last of its stack and it holds the
  locks of the classes before.
\<close>

inductive lockdep_reachable :: "mcs_lockdep_state \<Rightarrow> bool" where
  init: "length (held_class s0) = 16 \<Longrightarrow> length (held_name s0) = 16 \<Longrightarrow>
     mcs_lockdep_init (Some s0) = Some s \<Longrightarrow> lockdep_reachable s"
| acquire: "lockdep_reachable s \<Longrightarrow> mcs_lockdep_before_acquire (Some s) c name = (r, Some s') \<Longrightarrow>
     lockdep_reachable s'"
| release: "lockdep_reachable s \<Longrightarrow> mcs_lockdep_after_release (Some s) c name = (r, Some s') \<Longrightarrow>
     lockdep_reachable s'"

definition owned :: "bool \<Rightarrow> mcs_lockdep_state \<Rightarrow> u32 set" where
  "owned waiting s = (if waiting then set (butlast (held s)) else set (held s))"

definition waits_for :: "('t \<Rightarrow> bool) \<Rightarrow> ('t \<Rightarrow> mcs_lockdep_state) \<Rightarrow> ('t \<times> 't) set" where
  "waits_for waiting st =
     {(t, u). waiting t \<and> held (st t) \<noteq> [] \<and> last (held (st t)) \<in> owned (waiting u) (st u)}"

lemma lockdep_init_wf:
  assumes "length (held_class s) = 16" and "length (held_name s) = 16"
    and "mcs_lockdep_init (Some s) = Some s'"
  shows "lockdep_wf s' \<and> held s' = []"
proof -
  have len: "length (fst (fold (\<lambda>i (cs, ns). (cs[i := 0], ns[i := None])) js p)) = length (fst p) \<and>
      length (snd (fold (\<lambda>i (cs, ns). (cs[i := 0], ns[i := None])) js p)) = length (snd p)"
    for js :: "nat list" and p :: "u32 list \<times> string option list"
    by (induction js arbitrary: p) (simp_all add: split_beta)
  obtain cs ns where f: "fold (\<lambda>i (cs, ns). (cs[i := 0], ns[i := None])) [0..<MCS_LOCKDEP_MAX_HELD]
      (held_class s, held_name s) = (cs, ns)"
    by (rule prod.exhaust)
  then have "length cs = 16" "length ns = 16"
    using len [of "[0..<MCS_LOCKDEP_MAX_HELD]" "(held_class s, held_name s)"] assms(1,2) by simp_all
  moreover have "s' = s\<lparr>held_class := cs, held_name := ns, depth := 0, violation_count := 0\<rparr>"
    using assms(3) by (simp add: mcs_lockdep_init_def f)
  ultimately show ?thesis by (simp add: lockdep_wf_def held_def)
qed

lemma lockdep_reachable_wf: "lockdep_reachable s \<Longrightarrow> lockdep_wf s"
proof (induction rule: lockdep_reachable.induct)
  case (init s0 s)
  then show ?case using lockdep_init_wf [of s0] by auto
qed (use before_acquire_wf after_release_wf in blast)+

lemma butlast_less_last:
  "sorted_wrt (<) (xs :: u32 list) \<Longrightarrow> x \<in> set (butlast xs) \<Longrightarrow> x < last xs"
  by (cases xs rule: rev_cases) (auto simp: sorted_wrt_append)

lemma waits_for_increases:
  assumes "\<And>t. lockdep_wf (st t)" and "(t, u) \<in> (waits_for waiting st)\<^sup>+"
  shows "waiting t \<and> (waiting u \<longrightarrow> last (held (st t)) < last (held (st u)))"
  using assms(2)
proof (induction rule: trancl_induct)
  case (base u)
  then show ?case
    using assms(1) [of u] butlast_less_last [of "held (st u)"] by (auto simp: waits_for_def owned_def lockdep_wf_def)
next
  case (step u v)
  have "waiting u" using step(2) by (simp add: waits_for_def)
  moreover have "waiting v \<longrightarrow> last (held (st u)) < last (held (st v))"
    using step(2) assms(1) [of v] butlast_less_last [of "held (st v)"]
    by (auto simp: waits_for_def owned_def lockdep_wf_def)
  ultimately show ?case using step(3) by (meson less_trans)
qed

subsection \<open>Properties\<close>

text \<open>C30: When every thread follows the lock order checker, that is, asks before it
  acquires a class and waits only for the class the checker granted last, the relation that
  holds between a waiting thread and the thread that owns the class it waits for has no cycle:
  a deadlock cannot arise.\<close>

theorem lockdep_no_deadlock:
  assumes "\<forall>t. lockdep_reachable (st t)"
  shows "acyclic (waits_for waiting st)"
proof (rule acyclicI, rule allI, rule notI)
  fix t
  assume "(t, t) \<in> (waits_for waiting st)\<^sup>+"
  then show False
    using waits_for_increases [of st t t waiting] assms lockdep_reachable_wf by blast
qed

definition fresh_lockdep :: mcs_lockdep_state where
  "fresh_lockdep = \<lparr>held_class = replicate 16 0, held_name = replicate 16 None, depth = 0,
     violation_count = 0\<rparr>"

definition demo_lockdep :: "nat \<Rightarrow> mcs_lockdep_state" where
  "demo_lockdep t =
     (let s = the (snd (mcs_lockdep_before_acquire (Some fresh_lockdep) 10 None))
      in if t = 0 then the (snd (mcs_lockdep_before_acquire (Some s) 20 None)) else s)"

lemma fresh_reachable: "lockdep_reachable fresh_lockdep"
proof -
  have "mcs_lockdep_init (Some fresh_lockdep) = Some fresh_lockdep" by code_simp
  then show ?thesis using lockdep_reachable.init [of fresh_lockdep fresh_lockdep] by (simp add: fresh_lockdep_def)
qed

lemma before_acquire_Some:
  "\<exists>r s'. mcs_lockdep_before_acquire (Some s) c name = (r, Some s')"
  by (auto simp: mcs_lockdep_before_acquire_def)

lemma demo_lockdep_reachable: "lockdep_reachable (demo_lockdep t)"
proof -
  have step: "lockdep_reachable (the (snd (mcs_lockdep_before_acquire (Some s) c None)))"
    if "lockdep_reachable s" for s c
    using before_acquire_Some [of s c None] lockdep_reachable.acquire [OF that] by auto
  then show ?thesis using fresh_reachable by (simp add: demo_lockdep_def Let_def)
qed

theorem lockdep_no_deadlock_witness:
  "acyclic (waits_for (\<lambda>t. t < 2) demo_lockdep) \<and> held (demo_lockdep 0) = [10, 20]"
proof -
  have "held (demo_lockdep 0) = [10, 20]" by code_simp
  then show ?thesis using lockdep_no_deadlock [of demo_lockdep "\<lambda>t. t < 2"] demo_lockdep_reachable by blast
qed

text \<open>In every reachable state the held classes are strictly increasing and at most
  16; an acquisition of a non-zero class is granted exactly when fewer than 16 are held and it
  is above the last one, a release exactly when it is the last one held, and every refusal has
  its code and leaves the held classes alone.\<close>

theorem mcs_lockdep_exact:
  assumes "lockdep_reachable s" and "c \<noteq> 0"
  shows "sorted_wrt (<) (held s) \<and> length (held s) \<le> 16 \<and>
    (\<exists>s'. mcs_lockdep_before_acquire (Some s) c name =
       (if length (held s) = 16 then MCS_SYNC_EOVERFLOW
        else if held s = [] \<or> last (held s) < c then MCS_SYNC_OK else MCS_SYNC_EDEADLK, Some s') \<and>
       held s' = (if length (held s) < 16 \<and> (held s = [] \<or> last (held s) < c) then held s @ [c] else held s)) \<and>
    (\<exists>s'. mcs_lockdep_after_release (Some s) c name =
       (if held s = [] then MCS_SYNC_EPERM
        else if last (held s) = c then MCS_SYNC_OK else MCS_SYNC_EDEADLK, Some s') \<and>
       held s' = (if held s \<noteq> [] \<and> last (held s) = c then butlast (held s) else held s))"
proof -
  have wf: "lockdep_wf s" using assms(1) by (rule lockdep_reachable_wf)
  have d: "depth s \<le> 16" "length (held s) = depth s" "sorted_wrt (<) (held s)"
    using wf length_held by (auto simp: lockdep_wf_def)
  have acq: "\<exists>s'. mcs_lockdep_before_acquire (Some s) c name =
       (if length (held s) = 16 then MCS_SYNC_EOVERFLOW
        else if held s = [] \<or> last (held s) < c then MCS_SYNC_OK else MCS_SYNC_EDEADLK, Some s') \<and>
       held s' = (if length (held s) < 16 \<and> (held s = [] \<or> last (held s) < c) then held s @ [c] else held s)"
    using before_acquire_eq [OF wf assms(2), of name] held_push [OF wf, where c = c] d by auto
  have pos: "depth s > 0" if "held s \<noteq> []" using that d(2) by (metis length_greater_0_conv)
  have rel: "\<exists>s'. mcs_lockdep_after_release (Some s) c name =
       (if held s = [] then MCS_SYNC_EPERM
        else if last (held s) = c then MCS_SYNC_OK else MCS_SYNC_EDEADLK, Some s') \<and>
       held s' = (if held s \<noteq> [] \<and> last (held s) = c then butlast (held s) else held s)"
    using after_release_eq [OF wf assms(2), of name] held_pop [OF wf pos, where c = 0]
    by (cases "held s = []"; cases "last (held s) = c") auto
  show ?thesis using d acq rel by simp
qed

theorem mcs_lockdep_exact_witness:
  "fst (mcs_lockdep_before_acquire (Some (demo_lockdep 0)) 15 None) = MCS_SYNC_EDEADLK \<and>
   fst (mcs_lockdep_after_release (Some (demo_lockdep 0)) 20 None) = MCS_SYNC_OK"
proof -
  have h: "held (demo_lockdep 0) = [10, 20]" by code_simp
  show ?thesis
    using mcs_lockdep_exact [OF demo_lockdep_reachable, of 15 0 None]
      mcs_lockdep_exact [OF demo_lockdep_reachable, of 20 0 None] by (auto simp: h)
qed

end
