(* ===== verification/Locks.thy ===== *)
theory Locks
  imports Lockdep
begin

text \<open>
  Spinlocks and mutexes, \<open>mcsos/kernel/sync/spinlock.c\<close> and \<open>mutex.c\<close>, and the self-test that
  uses a spinlock, \<open>selftest.c\<close>. The functions are given twice from the same atomic accesses:
  as sequential functions, and as the steps of any number of processors that interleave at each
  atomic access (and at the load and the store of the counter the self-test increments). Memory
  is sequentially consistent, which the acquire and release orders of the source give on the
  lock words.
\<close>

subsection \<open>Spinlocks\<close>

record mcs_spinlock =
  sl_locked :: u32
  sl_class_id :: u32
  sl_name :: "string option"

definition mcs_spin_init :: "mcs_spinlock option \<Rightarrow> u32 \<Rightarrow> string option \<Rightarrow> mcs_spinlock option" where
  "mcs_spin_init lock class_id name =
     map_option (\<lambda>l. l\<lparr>sl_locked := 0, sl_class_id := class_id, sl_name := name\<rparr>) lock"

definition mcs_spin_try_lock :: "mcs_spinlock option \<Rightarrow> bool \<times> mcs_spinlock option" where
  "mcs_spin_try_lock lock =
     (case lock of
        None \<Rightarrow> (False, None)
      | Some l \<Rightarrow> let old = sl_locked l in (old = 0, Some (l\<lparr>sl_locked := 1\<rparr>)))"

definition mcs_spin_unlock :: "mcs_spinlock option \<Rightarrow> mcs_spinlock option" where
  "mcs_spin_unlock lock = map_option (\<lambda>l. l\<lparr>sl_locked := 0\<rparr>) lock"

definition mcs_spin_is_locked :: "mcs_spinlock option \<Rightarrow> bool" where
  "mcs_spin_is_locked lock = (case lock of None \<Rightarrow> False | Some l \<Rightarrow> sl_locked l \<noteq> 0)"

text \<open>
  \<open>mcs_spin_lock\<close> on one processor alone: \<open>None\<close> when it spins forever. The inner loop only
  waits until the lock word it reads is 0, and nobody else changes it here.
\<close>

partial_function (option) spin_wait :: "mcs_spinlock option \<Rightarrow> mcs_spinlock option option" where
  "spin_wait lock = (if sl_locked (the lock) \<noteq> 0 then spin_wait lock else Some lock)"

partial_function (option) mcs_spin_lock :: "mcs_spinlock option \<Rightarrow> mcs_spinlock option option" where
  "mcs_spin_lock lock =
     (let (ok, lock) = mcs_spin_try_lock lock in
      if ok then Some lock
      else Option.bind (spin_wait lock) mcs_spin_lock)"

subsection \<open>Processors that share a spinlock\<close>

text \<open>
  Where a processor is in the critical section of \<open>m12_sync_selftest\<close>: outside, before the
  atomic exchange, in the inner loop of \<open>mcs_spin_lock\<close>, and inside, before and after the load of
  the counter and after its store.
\<close>

datatype spin_pc =
  SOut | STry | SWait | SLoad | SStore u64 | SUnlock

record spin_system =
  ss_lock :: mcs_spinlock
  ss_pc :: "nat \<Rightarrow> spin_pc"
  ss_counter :: u64
  ss_done :: nat

definition spin_inside :: "spin_pc \<Rightarrow> bool" where
  "spin_inside pc = (case pc of SLoad \<Rightarrow> True | SStore _ \<Rightarrow> True | SUnlock \<Rightarrow> True | _ \<Rightarrow> False)"

text \<open>One step of processor \<open>t\<close>; \<open>ss_done\<close> counts the completed increments.\<close>

definition spin_step :: "nat \<Rightarrow> spin_system \<Rightarrow> spin_system" where
  "spin_step t s =
     (case ss_pc s t of
        SOut \<Rightarrow> s\<lparr>ss_pc := (ss_pc s)(t := STry)\<rparr>
      | STry \<Rightarrow>
          (case mcs_spin_try_lock (Some (ss_lock s)) of
             (ok, l) \<Rightarrow> s\<lparr>ss_lock := the l, ss_pc := (ss_pc s)(t := if ok then SLoad else SWait)\<rparr>)
      | SWait \<Rightarrow>
          s\<lparr>ss_pc := (ss_pc s)(t := if sl_locked (ss_lock s) \<noteq> 0 then SWait else STry)\<rparr>
      | SLoad \<Rightarrow> s\<lparr>ss_pc := (ss_pc s)(t := SStore (ss_counter s))\<rparr>
      | SStore v \<Rightarrow>
          s\<lparr>ss_counter := v + 1, ss_done := ss_done s + 1, ss_pc := (ss_pc s)(t := SUnlock)\<rparr>
      | SUnlock \<Rightarrow>
          s\<lparr>ss_lock := the (mcs_spin_unlock (Some (ss_lock s))), ss_pc := (ss_pc s)(t := SOut)\<rparr>)"

inductive spin_reachable :: "spin_system \<Rightarrow> bool" where
  init: "spin_reachable
     \<lparr>ss_lock = the (mcs_spin_init (Some l) c n), ss_pc = (\<lambda>_. SOut), ss_counter = 0, ss_done = 0\<rparr>"
| step: "spin_reachable s \<Longrightarrow> spin_reachable (spin_step t s)"

text \<open>The lock word is 1 exactly while some processor, the holder, is inside.\<close>

definition spin_held_by :: "spin_system \<Rightarrow> nat option \<Rightarrow> bool" where
  "spin_held_by s holder \<longleftrightarrow>
     sl_locked (ss_lock s) = (if holder = None then 0 else 1) \<and>
     (\<forall>t. spin_inside (ss_pc s t) \<longleftrightarrow> holder = Some t) \<and>
     ss_counter s = of_nat (ss_done s) \<and>
     (\<forall>t v. ss_pc s t = SStore v \<longrightarrow> v = ss_counter s)"

lemma spin_inside_simps [simp]:
  "\<not> spin_inside SOut" "\<not> spin_inside STry" "\<not> spin_inside SWait" "spin_inside SLoad"
  "spin_inside (SStore v)" "spin_inside SUnlock"
  by (simp_all add: spin_inside_def)

lemma spin_step_holder:
  assumes "spin_held_by s holder"
  shows "\<exists>holder'. spin_held_by (spin_step t s) holder'"
proof -
  have inside: "spin_inside (ss_pc s u) \<longleftrightarrow> holder = Some u" for u
    using assms by (simp add: spin_held_by_def)
  note at_t = inside [of t]
  show ?thesis
  proof (cases "ss_pc s t")
    case SOut
    then have "spin_held_by (spin_step t s) holder"
      using assms at_t by (auto simp: spin_held_by_def spin_step_def)
    then show ?thesis ..
  next
    case STry
    then have "spin_held_by (spin_step t s) (if holder = None then Some t else holder)"
      using assms at_t by (auto simp: spin_held_by_def spin_step_def mcs_spin_try_lock_def split: if_splits)
    then show ?thesis ..
  next
    case SWait
    then have "spin_held_by (spin_step t s) holder"
      using assms at_t by (auto simp: spin_held_by_def spin_step_def)
    then show ?thesis ..
  next
    case SLoad
    then have "spin_held_by (spin_step t s) holder"
      using assms at_t by (auto simp: spin_held_by_def spin_step_def)
    then show ?thesis ..
  next
    case (SStore v)
    have holder: "holder = Some t" using at_t SStore by simp
    have only: "ss_pc s u \<noteq> SStore w" if "u \<noteq> t" for u w
      using inside [of u] holder that by auto
    have eq: "spin_step t s = s\<lparr>ss_counter := v + 1, ss_done := ss_done s + 1, ss_pc := (ss_pc s)(t := SUnlock)\<rparr>"
      using SStore by (simp add: spin_step_def)
    have v: "v = of_nat (ss_done s)" using assms SStore by (metis spin_held_by_def)
    have "spin_held_by (spin_step t s) holder"
      unfolding eq spin_held_by_def using assms inside holder only v by (simp add: spin_held_by_def)
    then show ?thesis ..
  next
    case SUnlock
    moreover have "holder = Some t" using assms SUnlock by (metis spin_held_by_def spin_inside_simps(6))
    ultimately have "spin_held_by (spin_step t s) None"
      using assms at_t by (auto simp: spin_held_by_def spin_step_def mcs_spin_unlock_def)
    then show ?thesis ..
  qed
qed

lemma spin_reachable_holder: "spin_reachable s \<Longrightarrow> \<exists>holder. spin_held_by s holder"
proof (induction rule: spin_reachable.induct)
  case (init l c n)
  have "spin_held_by \<lparr>ss_lock = the (mcs_spin_init (Some l) c n), ss_pc = (\<lambda>_. SOut), ss_counter = 0,
      ss_done = 0\<rparr> None"
    by (simp add: spin_held_by_def mcs_spin_init_def)
  then show ?case ..
next
  case (step s t)
  then show ?case using spin_step_holder by blast
qed

text \<open>C31: For any number of processors that take the spinlock, load and store a shared
  counter and release it, in every interleaving of their memory accesses: at most one is
  inside, the lock word is set exactly when one is, no increment of the counter is lost, and a
  processor that tries while nobody is inside enters.\<close>

theorem mcs_spin_lock_excludes:
  assumes "spin_reachable s"
  shows "(spin_inside (ss_pc s t) \<and> spin_inside (ss_pc s u) \<longrightarrow> t = u) \<and>
    (mcs_spin_is_locked (Some (ss_lock s)) \<longleftrightarrow> (\<exists>t. spin_inside (ss_pc s t))) \<and>
    ss_counter s = of_nat (ss_done s) \<and>
    (ss_pc s t = STry \<and> (\<forall>u. \<not> spin_inside (ss_pc s u)) \<longrightarrow> ss_pc (spin_step t s) t = SLoad)"
proof -
  obtain holder where h: "spin_held_by s holder" using spin_reachable_holder [OF assms] ..
  then have "mcs_spin_is_locked (Some (ss_lock s)) \<longleftrightarrow> holder \<noteq> None"
    "\<And>t. spin_inside (ss_pc s t) \<longleftrightarrow> holder = Some t" "ss_counter s = of_nat (ss_done s)"
    by (auto simp: spin_held_by_def mcs_spin_is_locked_def)
  moreover have "ss_pc (spin_step t s) t = SLoad" if "ss_pc s t = STry" "holder = None"
    using that h by (simp add: spin_held_by_def spin_step_def mcs_spin_try_lock_def)
  ultimately show ?thesis by auto
qed

definition spin_run :: "nat list \<Rightarrow> spin_system" where
  "spin_run ts = fold spin_step ts
     \<lparr>ss_lock = \<lparr>sl_locked = 0, sl_class_id = 10, sl_name = None\<rparr>, ss_pc = (\<lambda>_. SOut), ss_counter = 0,
      ss_done = 0\<rparr>"

lemma spin_run_reachable: "spin_reachable (spin_run ts)"
proof -
  let ?l = "\<lparr>sl_locked = 0, sl_class_id = 10, sl_name = None\<rparr>"
  have "spin_reachable \<lparr>ss_lock = ?l, ss_pc = (\<lambda>_. SOut), ss_counter = 0, ss_done = 0\<rparr>"
    using spin_reachable.init [of ?l 10 None] by (simp add: mcs_spin_init_def)
  then have "spin_reachable (fold spin_step ts \<lparr>ss_lock = ?l, ss_pc = (\<lambda>_. SOut), ss_counter = 0, ss_done = 0\<rparr>)"
    by (induction ts rule: rev_induct) (simp_all add: spin_reachable.step)
  then show ?thesis by (simp add: spin_run_def)
qed

theorem mcs_spin_lock_excludes_witness:
  "mcs_spin_is_locked (Some (ss_lock (spin_run [0, 1, 1, 0, 1, 0]))) \<and>
   (\<exists>t. spin_inside (ss_pc (spin_run [0, 1, 1, 0, 1, 0]) t))"
proof -
  have "sl_locked (ss_lock (spin_run [0, 1, 1, 0, 1, 0])) = 1"
    by (simp add: spin_run_def spin_step_def mcs_spin_try_lock_def)
  then have "mcs_spin_is_locked (Some (ss_lock (spin_run [0, 1, 1, 0, 1, 0])))"
    by (simp add: mcs_spin_is_locked_def)
  then show ?thesis using mcs_spin_lock_excludes [OF spin_run_reachable] by blast
qed

subsection \<open>The boot self-test\<close>

record m12_state =
  boot_stats_lock :: mcs_spinlock
  boot_lockdep :: mcs_lockdep_state
  boot_counter :: u64
  m12_log :: "string list"

definition m12_sync_selftest :: "m12_state \<Rightarrow> m12_state option" where
  "m12_sync_selftest s =
     (let s = s\<lparr>boot_lockdep := the (mcs_lockdep_init (Some (boot_lockdep s))),
                boot_stats_lock := the (mcs_spin_init (Some (boot_stats_lock s)) 10 (Some ''boot_stats''))\<rparr>;
          (rc, ld) = mcs_lockdep_before_acquire (Some (boot_lockdep s)) 10 (Some ''boot_stats'');
          s = s\<lparr>boot_lockdep := the ld\<rparr>
      in if rc \<noteq> MCS_SYNC_OK then Some (s\<lparr>m12_log := m12_log s @ [''[M12] lockdep acquire FAILED'']\<rparr>)
         else case mcs_spin_lock (Some (boot_stats_lock s)) of
           None \<Rightarrow> None
         | Some l \<Rightarrow>
             let s = s\<lparr>boot_stats_lock := the l\<rparr>;
                 s = s\<lparr>boot_counter := boot_counter s + 1\<rparr>;
                 s = s\<lparr>boot_stats_lock := the (mcs_spin_unlock (Some (boot_stats_lock s)))\<rparr>;
                 (rc, ld) = mcs_lockdep_after_release (Some (boot_lockdep s)) 10 (Some ''boot_stats'');
                 s = s\<lparr>boot_lockdep := the ld\<rparr>
             in if rc \<noteq> MCS_SYNC_OK
                then Some (s\<lparr>m12_log := m12_log s @ [''[M12] lockdep release FAILED'']\<rparr>)
                else Some (s\<lparr>m12_log := m12_log s @ [''[M12] synchronization selftest PASSED'']\<rparr>))"

lemma spin_lock_free: "sl_locked l = 0 \<Longrightarrow> mcs_spin_lock (Some l) = Some (Some (l\<lparr>sl_locked := 1\<rparr>))"
  by (subst mcs_spin_lock.simps) (simp add: mcs_spin_try_lock_def)

lemma before_acquire_Some_ex: "\<exists>r s'. mcs_lockdep_before_acquire (Some s) c n = (r, Some s')"
  by (auto simp: mcs_lockdep_before_acquire_def)

text \<open>The boot self-test of the locks always returns, from any contents of its lock,
  checker and counter, logs that it passed, adds one to the counter and leaves the lock free
  and nothing held.\<close>

lemma selftest_passes:
  assumes "length (held_class (boot_lockdep s)) = 16" and "length (held_name (boot_lockdep s)) = 16"
  shows "\<exists>s'. m12_sync_selftest s = Some s' \<and>
    m12_log s' = m12_log s @ [''[M12] synchronization selftest PASSED''] \<and>
    boot_counter s' = boot_counter s + 1 \<and> \<not> mcs_spin_is_locked (Some (boot_stats_lock s')) \<and>
    held (boot_lockdep s') = []"
proof -
  obtain d where d: "mcs_lockdep_init (Some (boot_lockdep s)) = Some d" "lockdep_wf d" "held d = []"
    using lockdep_init_wf [OF assms] by (auto simp: mcs_lockdep_init_def)
  then have r0: "lockdep_reachable d" using lockdep_reachable.init [OF assms] by blast
  obtain rc d1 where a: "mcs_lockdep_before_acquire (Some d) 10 (Some ''boot_stats'') = (rc, Some d1)"
    using before_acquire_Some_ex by blast
  then have rc: "rc = MCS_SYNC_OK"
    using before_acquire_eq [OF d(2), of 10 "Some ''boot_stats''"] d(3) length_held [OF d(2)] by simp
  then have d1: "lockdep_wf d1" "held d1 = [10]" using before_acquire_wf [OF d(2) a] d(3) by simp_all
  then obtain d2 where b: "mcs_lockdep_after_release (Some d1) 10 (Some ''boot_stats'') = (MCS_SYNC_OK, Some d2)"
    using after_release_eq [OF d1(1), of 10 "Some ''boot_stats''"] by simp
  then have d2: "held d2 = []" using after_release_wf [OF d1(1) b] d1(2) by simp
  let ?l = "(boot_stats_lock s)\<lparr>sl_locked := 0, sl_class_id := 10, sl_name := Some ''boot_stats''\<rparr>"
  have "mcs_spin_lock (Some ?l) = Some (Some (?l\<lparr>sl_locked := 1\<rparr>))" by (rule spin_lock_free) simp
  then show ?thesis
    using a b d(1) rc d2
    by (simp add: m12_sync_selftest_def Let_def mcs_spin_init_def mcs_spin_unlock_def mcs_spin_is_locked_def)
qed

theorem selftest_passes_witness:
  "\<exists>s'. m12_sync_selftest \<lparr>boot_stats_lock = \<lparr>sl_locked = 1, sl_class_id = 0, sl_name = None\<rparr>,
      boot_lockdep = fresh_lockdep, boot_counter = 41, m12_log = []\<rparr> = Some s' \<and> boot_counter s' = 42"
  using selftest_passes [of "\<lparr>boot_stats_lock = \<lparr>sl_locked = 1, sl_class_id = 0, sl_name = None\<rparr>,
      boot_lockdep = fresh_lockdep, boot_counter = 41, m12_log = []\<rparr>"]
  by (auto simp: fresh_lockdep_def)

subsection \<open>Mutexes\<close>

record mcs_mutex =
  mx_locked :: u32
  mx_owner :: u64
  mx_class_id :: u32
  mx_name :: "string option"

definition mcs_mutex_init :: "mcs_mutex option \<Rightarrow> u32 \<Rightarrow> string option \<Rightarrow> mcs_mutex option" where
  "mcs_mutex_init mutex class_id name =
     map_option (\<lambda>m. m\<lparr>mx_locked := 0, mx_owner := 0, mx_class_id := class_id, mx_name := name\<rparr>) mutex"

text \<open>The compare-and-exchange of the lock word from 0 to 1.\<close>

definition cas_locked :: "mcs_mutex \<Rightarrow> bool \<times> mcs_mutex" where
  "cas_locked m = (if mx_locked m = 0 then (True, m\<lparr>mx_locked := 1\<rparr>) else (False, m))"

definition mcs_mutex_try_lock :: "mcs_mutex option \<Rightarrow> u64 \<Rightarrow> int \<times> mcs_mutex option" where
  "mcs_mutex_try_lock mutex owner_id =
     (case mutex of
        None \<Rightarrow> (MCS_SYNC_EINVAL, mutex)
      | Some m \<Rightarrow>
          if owner_id = 0 then (MCS_SYNC_EINVAL, mutex)
          else let (ok, m) = cas_locked m in
            if \<not> ok then
              if mx_owner m = owner_id then (MCS_SYNC_EDEADLK, Some m) else (MCS_SYNC_EBUSY, Some m)
            else (MCS_SYNC_OK, Some (m\<lparr>mx_owner := owner_id\<rparr>)))"

definition mcs_mutex_unlock :: "mcs_mutex option \<Rightarrow> u64 \<Rightarrow> int \<times> mcs_mutex option" where
  "mcs_mutex_unlock mutex owner_id =
     (case mutex of
        None \<Rightarrow> (MCS_SYNC_EINVAL, mutex)
      | Some m \<Rightarrow>
          if owner_id = 0 then (MCS_SYNC_EINVAL, mutex)
          else if mx_owner m \<noteq> owner_id then (MCS_SYNC_EPERM, Some m)
          else (MCS_SYNC_OK, Some (m\<lparr>mx_owner := 0, mx_locked := 0\<rparr>)))"

definition mcs_mutex_is_locked :: "mcs_mutex option \<Rightarrow> bool" where
  "mcs_mutex_is_locked mutex = (case mutex of None \<Rightarrow> False | Some m \<Rightarrow> mx_locked m \<noteq> 0)"

definition mcs_mutex_owner :: "mcs_mutex option \<Rightarrow> u64" where
  "mcs_mutex_owner mutex = (case mutex of None \<Rightarrow> 0 | Some m \<Rightarrow> mx_owner m)"

text \<open>
  Where a thread is: idle, between the exchange and the store of the owner, holding the mutex,
  after a failed exchange (without and with holding it), and in the unlock before the store of
  the owner and before the store of the lock word.
\<close>

datatype mutex_pc =
  MIdle | MStoreOwner | MHeld | MFailed | MRelock | MClearOwner | MClearLocked

record mutex_system =
  ms_mutex :: mcs_mutex
  ms_pc :: "u64 \<Rightarrow> mutex_pc"
  ms_result :: "u64 \<Rightarrow> int"

definition mutex_goto :: "u64 \<Rightarrow> mutex_pc \<Rightarrow> mutex_system \<Rightarrow> mutex_system" where
  "mutex_goto t pc s = s\<lparr>ms_pc := (ms_pc s)(t := pc)\<rparr>"

definition mutex_return :: "u64 \<Rightarrow> mutex_pc \<Rightarrow> int \<Rightarrow> mutex_system \<Rightarrow> mutex_system" where
  "mutex_return t pc r s = s\<lparr>ms_pc := (ms_pc s)(t := pc), ms_result := (ms_result s)(t := r)\<rparr>"

inductive mutex_step :: "u64 \<Rightarrow> mutex_system \<Rightarrow> mutex_system \<Rightarrow> bool" for t where
  try_idle: "ms_pc s t = MIdle \<Longrightarrow> cas_locked (ms_mutex s) = (ok, m) \<Longrightarrow>
     mutex_step t s (mutex_goto t (if ok then MStoreOwner else MFailed) (s\<lparr>ms_mutex := m\<rparr>))"
| try_held: "ms_pc s t = MHeld \<Longrightarrow> cas_locked (ms_mutex s) = (ok, m) \<Longrightarrow>
     mutex_step t s (mutex_goto t (if ok then MStoreOwner else MRelock) (s\<lparr>ms_mutex := m\<rparr>))"
| store_owner: "ms_pc s t = MStoreOwner \<Longrightarrow>
     mutex_step t s (mutex_return t MHeld MCS_SYNC_OK (s\<lparr>ms_mutex := (ms_mutex s)\<lparr>mx_owner := t\<rparr>\<rparr>))"
| failed: "ms_pc s t = MFailed \<Longrightarrow>
     mutex_step t s (mutex_return t MIdle
       (if mx_owner (ms_mutex s) = t then MCS_SYNC_EDEADLK else MCS_SYNC_EBUSY) s)"
| relock: "ms_pc s t = MRelock \<Longrightarrow>
     mutex_step t s (mutex_return t MHeld
       (if mx_owner (ms_mutex s) = t then MCS_SYNC_EDEADLK else MCS_SYNC_EBUSY) s)"
| unlock: "ms_pc s t = pc \<Longrightarrow> pc = MIdle \<or> pc = MHeld \<Longrightarrow>
     mutex_step t s (if mx_owner (ms_mutex s) \<noteq> t then mutex_return t pc MCS_SYNC_EPERM s
                     else mutex_goto t MClearOwner s)"
| clear_owner: "ms_pc s t = MClearOwner \<Longrightarrow>
     mutex_step t s (mutex_goto t MClearLocked (s\<lparr>ms_mutex := (ms_mutex s)\<lparr>mx_owner := 0\<rparr>\<rparr>))"
| clear_locked: "ms_pc s t = MClearLocked \<Longrightarrow>
     mutex_step t s (mutex_return t MIdle MCS_SYNC_OK (s\<lparr>ms_mutex := (ms_mutex s)\<lparr>mx_locked := 0\<rparr>\<rparr>))"

inductive mutex_reachable :: "mutex_system \<Rightarrow> bool" where
  init: "mutex_reachable \<lparr>ms_mutex = the (mcs_mutex_init (Some m) c n), ms_pc = (\<lambda>_. MIdle),
     ms_result = (\<lambda>_. MCS_SYNC_OK)\<rparr>"
| step: "mutex_reachable s \<Longrightarrow> t \<noteq> 0 \<Longrightarrow> mutex_step t s s' \<Longrightarrow> mutex_reachable s'"

definition mutex_held_by :: "mutex_system \<Rightarrow> u64 option \<Rightarrow> bool" where
  "mutex_held_by s holder \<longleftrightarrow>
     mx_locked (ms_mutex s) = (if holder = None then 0 else 1) \<and> holder \<noteq> Some 0 \<and>
     (\<forall>t. ms_pc s t \<in> {MIdle, MFailed} \<longleftrightarrow> holder \<noteq> Some t) \<and>
     mx_owner (ms_mutex s) = (case holder of None \<Rightarrow> 0
       | Some t \<Rightarrow> if ms_pc s t \<in> {MStoreOwner, MClearLocked} then 0 else t)"

lemmas mutex_move = mutex_goto_def mutex_return_def

lemma mutex_holder_pc: "mutex_held_by s holder \<Longrightarrow> ms_pc s u \<in> {MIdle, MFailed} \<longleftrightarrow> holder \<noteq> Some u"
  by (simp add: mutex_held_by_def)

text \<open>A step of \<open>t\<close> that keeps the holder and the mutex only moves \<open>t\<close> inside its own phase.\<close>

lemma mutex_held_move:
  assumes "mutex_held_by s holder" and "ms_mutex s' = ms_mutex s" and "ms_pc s' = (ms_pc s)(t := pc)"
    and "pc \<in> {MIdle, MFailed} \<longleftrightarrow> holder \<noteq> Some t"
    and "holder = Some t \<longrightarrow> (pc \<in> {MStoreOwner, MClearLocked} \<longleftrightarrow> ms_pc s t \<in> {MStoreOwner, MClearLocked})"
  shows "mutex_held_by s' holder"
  using assms unfolding mutex_held_by_def
  by (cases holder) (auto split: if_splits)

lemma mutex_step_holder:
  assumes h: "mutex_held_by s holder" and t: "t \<noteq> 0" and st: "mutex_step t s s'"
  shows "\<exists>holder'. mutex_held_by s' holder'"
  using st
proof cases
  case (try_idle ok m)
  have nt: "holder \<noteq> Some t" using mutex_holder_pc [OF h, of t] try_idle(2) by simp
  show ?thesis
  proof (cases holder)
    case None
    then have "mutex_held_by s' (Some t)"
      using h t try_idle unfolding mutex_held_by_def by (auto simp: mutex_move cas_locked_def)
    then show ?thesis ..
  next
    case (Some u)
    then have "ms_mutex s' = ms_mutex s" "ms_pc s' = (ms_pc s)(t := MFailed)"
      using h try_idle by (auto simp: mutex_held_by_def mutex_move cas_locked_def)
    then have "mutex_held_by s' holder" using mutex_held_move [OF h] nt by auto
    then show ?thesis ..
  qed
next
  case (try_held ok m)
  have ht: "holder = Some t" using mutex_holder_pc [OF h, of t] try_held(2) by auto
  then have "ms_mutex s' = ms_mutex s" "ms_pc s' = (ms_pc s)(t := MRelock)"
    using h try_held by (auto simp: mutex_held_by_def mutex_move cas_locked_def)
  then have "mutex_held_by s' holder" using mutex_held_move [OF h] ht try_held(2) by auto
  then show ?thesis ..
next
  case store_owner
  have ht: "holder = Some t" using mutex_holder_pc [OF h, of t] store_owner(2) by auto
  then have "mutex_held_by s' holder"
    using h t store_owner unfolding mutex_held_by_def by (auto simp: mutex_move)
  then show ?thesis ..
next
  case failed
  have "holder \<noteq> Some t" using mutex_holder_pc [OF h, of t] failed(2) by simp
  then have "mutex_held_by s' holder"
    using failed by (intro mutex_held_move [OF h, of s' t MIdle]) (auto simp: mutex_move)
  then show ?thesis ..
next
  case relock
  have "holder = Some t" using mutex_holder_pc [OF h, of t] relock(2) by auto
  then have "mutex_held_by s' holder"
    using relock by (intro mutex_held_move [OF h, of s' t MHeld]) (auto simp: mutex_move)
  then show ?thesis ..
next
  case (unlock pc)
  show ?thesis
  proof (cases "mx_owner (ms_mutex s) = t")
    case True
    have ht: "holder = Some t"
      using h t True by (auto simp: mutex_held_by_def split: option.splits if_splits)
    then have "ms_pc s t = MHeld" using mutex_holder_pc [OF h, of t] unlock by auto
    then have "mutex_held_by s' holder"
      using unlock True ht by (intro mutex_held_move [OF h, of s' t MClearOwner]) (auto simp: mutex_move)
    then show ?thesis ..
  next
    case False
    have "mutex_held_by s' holder"
      using unlock False mutex_holder_pc [OF h, of t]
      by (intro mutex_held_move [OF h, of s' t pc]) (auto simp: mutex_move)
    then show ?thesis ..
  qed
next
  case clear_owner
  have "holder = Some t" using mutex_holder_pc [OF h, of t] clear_owner(2) by auto
  then have "mutex_held_by s' holder"
    using h t clear_owner unfolding mutex_held_by_def by (auto simp: mutex_move)
  then show ?thesis ..
next
  case clear_locked
  have "holder = Some t" using mutex_holder_pc [OF h, of t] clear_locked(2) by auto
  then have "mutex_held_by s' None"
    using h t clear_locked unfolding mutex_held_by_def by (auto simp: mutex_move)
  then show ?thesis ..
qed

lemma mutex_reachable_holder: "mutex_reachable s \<Longrightarrow> \<exists>holder. mutex_held_by s holder"
proof (induction rule: mutex_reachable.induct)
  case (init m c n)
  have "mutex_held_by \<lparr>ms_mutex = the (mcs_mutex_init (Some m) c n), ms_pc = (\<lambda>_. MIdle),
     ms_result = (\<lambda>_. MCS_SYNC_OK)\<rparr> None"
    by (simp add: mutex_held_by_def mcs_mutex_init_def)
  then show ?case ..
next
  case (step s t s')
  then show ?case using mutex_step_holder by blast
qed

lemma mutex_results:
  assumes h: "mutex_held_by s holder" and t: "t \<noteq> 0" and st: "mutex_step t s s'"
  shows "(ms_pc s t = MFailed \<longrightarrow> ms_result s' t = MCS_SYNC_EBUSY) \<and>
    (ms_pc s t = MRelock \<longrightarrow> ms_result s' t = MCS_SYNC_EDEADLK) \<and>
    (ms_pc s t = MIdle \<longrightarrow> ms_pc s' t \<noteq> MClearOwner)"
proof -
  have other: "mx_owner (ms_mutex s) \<noteq> t" if "ms_pc s t \<in> {MIdle, MFailed}"
    using h t that by (auto simp: mutex_held_by_def split: option.splits if_splits)
  have own: "mx_owner (ms_mutex s) = t" if "ms_pc s t = MRelock"
    using h that mutex_holder_pc [OF h, of t] by (auto simp: mutex_held_by_def)
  show ?thesis
    using st by cases (use other own in \<open>auto simp: mutex_move\<close>)
qed

text \<open>C32: For any number of owners that try the mutex and release it, in every
  interleaving of their memory accesses: at most one holds it, the holder is the recorded
  owner, an owner that relocks gets EDEADLK and any other contender EBUSY, and an unlock by an
  owner that does not hold it never starts the release.\<close>

theorem mcs_mutex_excludes:
  assumes "mutex_reachable s" and "t \<noteq> 0"
  shows "(ms_pc s t = MHeld \<and> ms_pc s u = MHeld \<longrightarrow> t = u) \<and>
    (ms_pc s t = MHeld \<longrightarrow>
       mcs_mutex_is_locked (Some (ms_mutex s)) \<and> mcs_mutex_owner (Some (ms_mutex s)) = t) \<and>
    (\<not> mcs_mutex_is_locked (Some (ms_mutex s)) \<longrightarrow> ms_pc s t \<in> {MIdle, MFailed}) \<and>
    (\<forall>s'. mutex_step t s s' \<longrightarrow>
       (ms_pc s t = MFailed \<longrightarrow> ms_result s' t = MCS_SYNC_EBUSY) \<and>
       (ms_pc s t = MRelock \<longrightarrow> ms_result s' t = MCS_SYNC_EDEADLK) \<and>
       (ms_pc s t = MIdle \<longrightarrow> ms_pc s' t \<noteq> MClearOwner))"
proof -
  obtain holder where h: "mutex_held_by s holder" using mutex_reachable_holder [OF assms(1)] ..
  have "ms_pc s r = MHeld \<Longrightarrow> holder = Some r" for r using mutex_holder_pc [OF h, of r] by auto
  moreover have "mcs_mutex_is_locked (Some (ms_mutex s)) \<longleftrightarrow> holder \<noteq> None"
    using h by (simp add: mutex_held_by_def mcs_mutex_is_locked_def)
  moreover have "mcs_mutex_owner (Some (ms_mutex s)) = t" if "ms_pc s t = MHeld"
    using h that calculation(1) [OF that] by (simp add: mutex_held_by_def mcs_mutex_owner_def)
  moreover have "ms_pc s t \<in> {MIdle, MFailed}" if "holder = None"
    using mutex_holder_pc [OF h, of t] that by simp
  ultimately show ?thesis using mutex_results [OF h assms(2)] by auto
qed

definition demo_mutex :: mutex_system where
  "demo_mutex = \<lparr>ms_mutex = \<lparr>mx_locked = 0, mx_owner = 0, mx_class_id = 1, mx_name = None\<rparr>,
     ms_pc = (\<lambda>_. MIdle), ms_result = (\<lambda>_. MCS_SYNC_OK)\<rparr>"

theorem mcs_mutex_excludes_witness:
  "\<exists>s. mutex_reachable s \<and> ms_pc s 7 = MHeld \<and> mcs_mutex_owner (Some (ms_mutex s)) = 7"
proof -
  let ?m = "\<lparr>mx_locked = 0, mx_owner = 0, mx_class_id = 1, mx_name = None\<rparr>"
  let ?s1 = "mutex_goto 7 MStoreOwner (demo_mutex\<lparr>ms_mutex := ?m\<lparr>mx_locked := 1\<rparr>\<rparr>)"
  let ?s2 = "mutex_return 7 MHeld MCS_SYNC_OK (?s1\<lparr>ms_mutex := (ms_mutex ?s1)\<lparr>mx_owner := 7\<rparr>\<rparr>)"
  have r0: "mutex_reachable demo_mutex"
    using mutex_reachable.init [of ?m 1 None] by (simp add: demo_mutex_def mcs_mutex_init_def)
  have s1: "mutex_step 7 demo_mutex ?s1"
    using mutex_step.try_idle [of demo_mutex 7 True "?m\<lparr>mx_locked := 1\<rparr>"]
    by (simp add: demo_mutex_def cas_locked_def)
  have s2: "mutex_step 7 ?s1 ?s2"
    by (rule mutex_step.store_owner) (simp add: mutex_move)
  have r1: "mutex_reachable ?s1" by (rule mutex_reachable.step [OF r0 _ s1]) simp
  have r2: "mutex_reachable ?s2" by (rule mutex_reachable.step [OF r1 _ s2]) simp
  have held: "ms_pc ?s2 7 = MHeld" by (simp add: mutex_move)
  show ?thesis using mcs_mutex_excludes [OF r2, of 7 7] held r2 by auto
qed

end
