(* ===== verification/Mcsos_Boot.thy ===== *)
theory Mcsos_Boot
  imports Sched Fd Locks Traps
begin

text \<open>
  The boot of the second kernel, \<open>src/mcsos/kernel/kmain.c\<close>: lock self-test, scheduler demo and
  file system smoke test, one after the other on one serial log.

  The kernel image is built with \<open>MCSOS_HOST_TEST\<close> defined, in which \<open>mcsos_sched_yield\<close> does all
  its bookkeeping but leaves out the context switch; \<open>mcsos_sched_yield_host\<close> is that build of the
  function, and the demo runs on it. The static variables are the fields of \<open>mcsos_kernel\<close>; the
  boot thread and the two threads of the demo have the addresses 0, 1 and 2, the file system has
  address 0. The addresses of code and stacks are the fields of \<open>mcsos_image\<close>.
\<close>

subsection \<open>Yielding without a context switch\<close>

definition mcsos_thread_trampoline :: "'a io" where
  "mcsos_thread_trampoline = halt_loop"

definition switch_to_host :: "nat \<Rightarrow> nat \<Rightarrow> mcsos_scheduler \<Rightarrow> thread_heap \<Rightarrow> mcsos_context \<Rightarrow> sched_machine" where
  "switch_to_host old new s h cpu =
     (let h = h(new := (h new)\<lparr>t_state := MCSOS_THREAD_RUNNING\<rparr>);
          s = s\<lparr>current := Some new\<rparr>;
          h = h(old := (h old)\<lparr>t_switches := t_switches (h old) + 1\<rparr>);
          h = h(new := (h new)\<lparr>t_switches := t_switches (h new) + 1\<rparr>);
          s = s\<lparr>context_switches := context_switches s + 1\<rparr>
      in \<lparr>m_sched = Some s, m_heap = h, m_cpu = cpu\<rparr>)"

definition mcsos_sched_yield_host :: "sched_machine \<Rightarrow> mcsos_sched_result \<times> sched_machine" where
  "mcsos_sched_yield_host m =
     (case m_sched m of
        None \<Rightarrow> (MCSOS_SCHED_EINVAL, m)
      | Some s \<Rightarrow>
          if \<not> initialized s \<or> \<not> valid_thread_object (m_heap m) (current s)
          then (MCSOS_SCHED_EINVAL, m)
          else
            let old = the (current s);
                (next, s', h) = mcsos_sched_pick_next (m_sched m) (m_heap m)
            in if \<not> valid_thread_object h next
               then (MCSOS_SCHED_ECORRUPT, m\<lparr>m_sched := s', m_heap := h\<rparr>)
               else if next = Some old
               then (MCSOS_SCHED_OK, m\<lparr>m_sched := s',
                       m_heap := h(old := (h old)\<lparr>t_state := MCSOS_THREAD_RUNNING\<rparr>)\<rparr>)
               else
                 let (rc, s', h) =
                   (if t_state (h old) = MCSOS_THREAD_RUNNING \<and> Some old \<noteq> idle (the s')
                    then mcsos_sched_enqueue s' (Some old)
                           (h(old := (h old)\<lparr>t_state := MCSOS_THREAD_READY\<rparr>))
                    else (MCSOS_SCHED_OK, s', h))
                 in if rc \<noteq> MCSOS_SCHED_OK then (rc, m\<lparr>m_sched := s', m_heap := h\<rparr>)
                    else (MCSOS_SCHED_OK, switch_to_host old (the next) (the s') h (m_cpu m)))"

text \<open>It keeps the same books as the full function.\<close>

definition same_books :: "sched_machine \<Rightarrow> sched_machine \<Rightarrow> bool" where
  "same_books m n \<longleftrightarrow> m_sched m = m_sched n \<and>
     (\<forall>p. (m_heap m p)\<lparr>t_context := zero_context\<rparr> = (m_heap n p)\<lparr>t_context := zero_context\<rparr>)"

lemma yield_host_books:
  "fst (mcsos_sched_yield_host m) = fst (mcsos_sched_yield resume m) \<and>
   same_books (snd (mcsos_sched_yield_host m)) (snd (mcsos_sched_yield resume m))"
  by (auto simp: mcsos_sched_yield_host_def mcsos_sched_yield_def same_books_def switch_to_host_def switch_to_def
      mcsos_context_switch_def Let_def split: option.splits prod.splits)

subsection \<open>The static state of the kernel\<close>

record mcsos_image =
  i_trampoline :: u64
  i_thread_a_entry :: u64
  i_thread_b_entry :: u64
  i_stack_a :: u64
  i_stack_b :: u64

record mcsos_kernel =
  g_sched :: mcsos_scheduler
  g_threads :: thread_heap
  g_mem :: "u64 \<Rightarrow> u64"
  g_cpu :: mcsos_context
  g_m12 :: m12_state
  g_fs :: fs_heap
  g_proc :: mcs_process
  g_vfs :: vfs_globals
  g_buf :: "u8 list"

subsection \<open>The file system smoke test\<close>

definition m13_vfs_smoke_test :: "device \<Rightarrow> mcsos_kernel \<Rightarrow> mcsos_kernel io" where
  "m13_vfs_smoke_test d k =
     io_seq (log_writeln d (cstr ''[M13] VFS smoke test start''))
     (let h = (g_fs k)(0 := mcs_ramfs_init (g_fs k 0));
          (r, fs) = mcs_ramfs_seed_file (Some (h 0)) (Some ''/hello.txt'') (Some (map of_char ''hello-mcsos'')) 11;
          h = h(0 := the fs);
          k = k\<lparr>g_fs := h\<rparr>
      in if r \<noteq> Inr () then io_seq (log_writeln d (cstr ''[M13] FAIL: seed_file'')) (io_return k)
         else
           let pr = (g_proc k)\<lparr>p_pid := 1\<rparr>;
               pr = pr\<lparr>fd_table := the (mcs_fd_table_init (Some (fd_table pr)))\<rparr>;
               k = k\<lparr>g_vfs := mcs_vfs_set_active_ramfs_for_test (Some 0) (g_vfs k)\<rparr>;
               (r, pr, h) = mcs_sys_open (Some pr) (Some 0) h (Some ''/hello.txt'') MCS_O_RDONLY;
               k = k\<lparr>g_proc := the pr, g_fs := h\<rparr>
           in case r of
                Inl _ \<Rightarrow> io_seq (log_writeln d (cstr ''[M13] FAIL: open'')) (io_return k)
              | Inr fd \<Rightarrow>
                  let (r, pr, buf) = mcs_sys_read pr h (int fd) (Some (g_buf k)) 5;
                      k = k\<lparr>g_proc := the pr, g_buf := the buf\<rparr>
                  in if r \<noteq> Inr 5 then io_seq (log_writeln d (cstr ''[M13] FAIL: read'')) (io_return k)
                     else if g_buf k ! 0 \<noteq> of_char CHR ''h'' \<or> g_buf k ! 1 \<noteq> of_char CHR ''e'' \<or>
                        g_buf k ! 2 \<noteq> of_char CHR ''l'' \<or> g_buf k ! 3 \<noteq> of_char CHR ''l'' \<or>
                        g_buf k ! 4 \<noteq> of_char CHR ''o''
                     then io_seq (log_writeln d (cstr ''[M13] FAIL: content'')) (io_return k)
                     else
                       let (r, pr) = mcs_sys_close pr (int fd);
                           k = k\<lparr>g_proc := the pr\<rparr>
                       in if r \<noteq> Inr () then io_seq (log_writeln d (cstr ''[M13] FAIL: close'')) (io_return k)
                          else io_seq (log_writeln d (cstr ''[M13] VFS smoke test: PASS'')) (io_return k))"

subsection \<open>The boot function\<close>

definition scheduler_demo :: "mcsos_image \<Rightarrow> mcsos_kernel \<Rightarrow> mcsos_kernel" where
  "scheduler_demo img k =
     (let s = g_sched k; t = g_threads k; mem = g_mem k;
          (_, t, mem) = mcsos_thread_prepare (i_trampoline img) t mem (Some 1) ''a'' (Some (i_thread_a_entry img)) 0
                          (i_stack_a img) 4096 (next_id s);
          s = s\<lparr>next_id := next_id s + 1\<rparr>;
          (_, sp, t) = mcsos_sched_enqueue (Some s) (Some 1) t;
          s = the sp;
          (_, t, mem) = mcsos_thread_prepare (i_trampoline img) t mem (Some 2) ''b'' (Some (i_thread_b_entry img)) 0
                          (i_stack_b img) 4096 (next_id s);
          s = s\<lparr>next_id := next_id s + 1\<rparr>;
          (_, sp, t) = mcsos_sched_enqueue (Some s) (Some 2) t;
          m = \<lparr>m_sched = sp, m_heap = t, m_cpu = g_cpu k\<rparr>;
          (_, m) = mcsos_sched_yield_host m;
          (_, m) = mcsos_sched_yield_host m;
          (_, m) = mcsos_sched_yield_host m
      in k\<lparr>g_sched := the (m_sched m), g_threads := m_heap m, g_mem := mem, g_cpu := m_cpu m\<rparr>)"

definition mcsos_kmain :: "device \<Rightarrow> mcsos_image \<Rightarrow> mcsos_kernel \<Rightarrow> unit io" where
  "mcsos_kmain d img k =
     io_seq log_init
     (io_seq (log_writeln d (cstr ''[M9] MCSOS booting...''))
      (case m12_sync_selftest ((g_m12 k)\<lparr>m12_log := []\<rparr>) of
         None \<Rightarrow> (\<lambda>h. None)
       | Some m12 \<Rightarrow>
           io_seq (io_all (map (\<lambda>s. log_writeln d (cstr s)) (m12_log m12)))
           (let k = k\<lparr>g_m12 := m12\<rparr>;
                (rc, s, t) = mcsos_scheduler_init (Some (g_sched k)) (Some 0) (g_threads k);
                k = k\<lparr>g_sched := the s, g_threads := t\<rparr>
            in if rc \<noteq> MCSOS_SCHED_OK then halt_loop
               else
                 io_seq (log_writeln d (cstr ''[M9] Scheduler OK''))
                 (let k = scheduler_demo img k
                  in io_seq (log_key_value_hex64 d (cstr ''[M9] switches='') (context_switches (g_sched k)))
                     (io_seq (log_writeln d (cstr ''[M9] Scheduler demo COMPLETE''))
                      (io_bind (m13_vfs_smoke_test d k) (\<lambda>k. halt_loop)))))))"

subsection \<open>The scheduler demo\<close>

definition stack_ok :: "u64 \<Rightarrow> bool" where
  "stack_ok a \<longleftrightarrow> a \<noteq> 0 \<and> unat a + 4096 < 2 ^ 64"

lemma prepare_boot_thread:
  assumes "stack_ok base"
  shows "\<exists>top. mcsos_thread_prepare tramp h mem (Some p) name (Some e) arg base 4096 tid =
    (MCSOS_SCHED_OK, h(p := (h p)\<lparr>t_magic := MCSOS_THREAD_MAGIC, t_id := tid, t_name := name,
        t_state := MCSOS_THREAD_NEW, t_context := zero_context\<lparr>rsp := top, rip := tramp\<rparr>,
        t_entry := Some e, t_arg := arg, t_stack_base := base, t_stack_size := 4096, t_next := None, t_switches := 0,
        t_ticks := 0, t_exit_code := 0\<rparr>), mem(top := 0))"
proof -
  have "fst (mcsos_thread_prepare tramp h mem (Some p) name (Some e) arg base 4096 tid) = MCSOS_SCHED_OK"
    using thread_prepare_exact [of base "Some e" e 4096 tramp h mem p name arg tid] assms
    by (auto simp: stack_ok_def)
  then show ?thesis by (auto simp: mcsos_thread_prepare_def Let_def split: if_splits)
qed

text \<open>After the three yields thread a runs, b is the only ready thread and three switches have been
  counted.\<close>

lemma scheduler_demo_result:
  assumes "stack_ok (i_stack_a img)" and "stack_ok (i_stack_b img)"
    and init: "mcsos_scheduler_init (Some s0) (Some 0) t0 = (MCSOS_SCHED_OK, Some (g_sched k), g_threads k)"
  shows "current (g_sched (scheduler_demo img k)) = Some 1 \<and> ready_head (g_sched (scheduler_demo img k)) = Some 2 \<and>
    ready_tail (g_sched (scheduler_demo img k)) = Some 2 \<and> runnable_count (g_sched (scheduler_demo img k)) = 1 \<and>
    context_switches (g_sched (scheduler_demo img k)) = 3 \<and> g_cpu (scheduler_demo img k) = g_cpu k \<and>
    g_fs (scheduler_demo img k) = g_fs k \<and> g_proc (scheduler_demo img k) = g_proc k \<and>
    g_buf (scheduler_demo img k) = g_buf k"
proof -
  define T where "T h mem p name e arg base tid = (SOME top. mcsos_thread_prepare (i_trampoline img) h mem (Some p) name (Some e) arg base 4096 tid =
    (MCSOS_SCHED_OK, h(p := (h p)\<lparr>t_magic := MCSOS_THREAD_MAGIC, t_id := tid, t_name := name,
        t_state := MCSOS_THREAD_NEW, t_context := zero_context\<lparr>rsp := top, rip := i_trampoline img\<rparr>,
        t_entry := Some e, t_arg := arg, t_stack_base := base, t_stack_size := 4096, t_next := None, t_switches := 0,
        t_ticks := 0, t_exit_code := 0\<rparr>), mem(top := 0)))"
    for h mem p name e arg base tid
  have T: "mcsos_thread_prepare (i_trampoline img) h mem (Some p) name (Some e) arg base 4096 tid =
    (MCSOS_SCHED_OK, h(p := (h p)\<lparr>t_magic := MCSOS_THREAD_MAGIC, t_id := tid, t_name := name,
        t_state := MCSOS_THREAD_NEW, t_context := zero_context\<lparr>rsp := T h mem p name e arg base tid, rip := i_trampoline img\<rparr>,
        t_entry := Some e, t_arg := arg, t_stack_base := base, t_stack_size := 4096, t_next := None, t_switches := 0,
        t_ticks := 0, t_exit_code := 0\<rparr>), mem(T h mem p name e arg base tid := 0))"
    if "stack_ok base" for h mem p name e arg base tid
    unfolding T_def by (rule someI_ex) (rule prepare_boot_thread [OF that])
  have k: "g_sched k = s0\<lparr>current := Some 0, idle := Some 0, ready_head := None, ready_tail := None,
        next_id := 1, runnable_count := 0, context_switches := 0, s_ticks := 0, initialized := True\<rparr>"
      "t_magic (g_threads k 0) = MCSOS_THREAD_MAGIC" "t_state (g_threads k 0) = MCSOS_THREAD_RUNNING"
    using init by (auto simp: mcsos_scheduler_init_def dest: sym [of _ "g_threads k"])
  show ?thesis
    unfolding scheduler_demo_def Let_def T [OF assms(1)] prod.case
    by (simp add: T [OF assms(2)] k mcsos_sched_enqueue_def valid_thread_object_def Let_def
      mcsos_sched_yield_host_def mcsos_sched_pick_next_def switch_to_host_def)
qed

subsection \<open>The file system smoke test\<close>

abbreviation hello_bytes :: "u8 list" where
  "hello_bytes \<equiv> map of_char ''hello-mcsos''"

lemma hello_seeded:
  assumes "ramfs_shape fs"
  obtains fs' where "ramfs_wf fs'" "is_file fs' 1" "file_data fs' 1 = hello_bytes"
    "spec_lookup (view fs') [''hello.txt''] = Inr 1"
    "mcs_ramfs_seed_file (Some (mcs_ramfs_init fs)) (Some ''/hello.txt'') (Some hello_bytes) 11 = (Inr (), Some fs')"
proof -
  let ?V = "empty_view\<lparr>fv_bind := (fv_bind empty_view)((0, ''hello.txt'') \<mapsto> 1),
        fv_file := (fv_file empty_view)(1 \<mapsto> []), fv_count := 2, fv_used := 256\<rparr>"
  have new: "spec_create (view (mcs_ramfs_init fs)) [''hello.txt''] = (Inr 1, ?V)"
    unfolding ramfs_init_view [OF assms]
    by (simp add: spec_create_def spec_lookup_def empty_view_def name_ok_def)
  have plain: "list_all plain_comp [''hello.txt'']" by (simp add: plain_comp_def)
  have len: "11 \<le> length hello_bytes" by simp
  obtain fs' where fs': "ramfs_wf fs'" "view fs' = ?V\<lparr>fv_file := (fv_file ?V)(1 \<mapsto> take 11 hello_bytes)\<rparr>"
      "mcs_ramfs_seed_file (Some (mcs_ramfs_init fs)) (Some (path_of [''hello.txt''])) (Some hello_bytes) 11 = (Inr (), Some fs')"
    using seed_file_contents [OF ramfs_init_wf [OF assms] plain _ len new] by auto
  have fdata: "fv_file (view fs') 1 = Some hello_bytes" unfolding fs'(2) by simp
  have "spec_lookup (view fs') [''hello.txt''] = Inr 1"
    unfolding fs'(2) by (simp add: spec_lookup_def empty_view_def name_ok_def)
  moreover have "is_file fs' 1" "file_data fs' 1 = hello_bytes"
    using fdata by (simp_all add: view_def split: if_splits)
  ultimately show thesis using that fs'(1,3) by simp
qed

lemma hello_opened:
  assumes wf: "ramfs_wf (h 0)" and f: "is_file (h 0) 1" and l: "spec_lookup (view (h 0)) [''hello.txt''] = Inr 1"
    and t: "length (files t) = 16" "\<And>i. i < 16 \<Longrightarrow> \<not> f_used (files t ! i)"
  defines "u \<equiv> set_file t 0 \<lparr>f_used = True, f_flags = MCS_O_RDONLY, f_offset = 0, f_node = Some (0, 1), f_fs = Some 0\<rparr>"
  shows "mcs_vfs_open (Some t) (Some 0) h (Some ''/hello.txt'') MCS_O_RDONLY = (Inr 0, Some u, h)"
    and "fd_inv {0} h u"
proof -
  have inv: "fd_inv {0} h t" using wf t by (auto simp: fd_inv_def in_set_conv_nth)
  have free: "\<not> (\<forall>i<16. f_used (files t ! i))" using t(2) [of 0] by (intro notI) simp
  have plain: "list_all plain_comp [''hello.txt'']" by (simp add: plain_comp_def)
  obtain fd h' where fd: "\<forall>j<fd. f_used (files t ! j)" "fd < 16"
      "mcs_vfs_open (Some t) (Some 0) h (Some (path_of [''hello.txt''])) MCS_O_RDONLY =
        (Inr fd, Some (set_file t fd \<lparr>f_used = True, f_flags = MCS_O_RDONLY, f_offset = 0,
           f_node = Some (0, 1), f_fs = Some 0\<rparr>), h')" "h' = h"
    using open_existing [OF inv _ plain _ l f, of MCS_O_RDONLY, unfolded if_not_P [OF free]]
    by (auto simp: mcs_open_flags)
  have "fd = 0" using fd(1) t(2) [of 0] by (cases fd) auto
  with fd show op: "mcs_vfs_open (Some t) (Some 0) h (Some ''/hello.txt'') MCS_O_RDONLY = (Inr 0, Some u, h)"
    by (simp add: u_def)
  show "fd_inv {0} h u" using vfs_open_inv [OF inv _ _ op] by simp
qed

lemma m13_smoke_passes:
  assumes uart: "uart_responsive d" and shape: "ramfs_shape (g_fs k 0)"
    and len: "length (files (fd_table (g_proc k))) = 16" "length (g_buf k) = 32"
  shows "\<exists>k' es. m13_vfs_smoke_test d k h = Some (Returns k' (h @ es)) \<and> list_all serial_event es \<and>
    written es = concat (map (\<lambda>s. s @ [CHR 0x0D, CHR 0x0A]) [''[M13] VFS smoke test start'', ''[M13] VFS smoke test: PASS''])"
proof -
  obtain fs' where fs': "ramfs_wf fs'" "is_file fs' 1" "file_data fs' 1 = hello_bytes"
    "spec_lookup (view fs') [''hello.txt''] = Inr 1"
    "mcs_ramfs_seed_file (Some (mcs_ramfs_init (g_fs k 0))) (Some ''/hello.txt'') (Some hello_bytes) 11 = (Inr (), Some fs')"
    using hello_seeded [OF shape] .
  let ?h = "(g_fs k)(0 := fs')"
  let ?t = "(fd_table (g_proc k))\<lparr>files := map reset_file (files (fd_table (g_proc k)))\<rparr>"
  let ?u = "set_file ?t 0 \<lparr>f_used = True, f_flags = MCS_O_RDONLY, f_offset = 0, f_node = Some (0, 1), f_fs = Some 0\<rparr>"
  have t: "length (files ?t) = 16" using len(1) by simp
  have unused: "\<not> f_used (files ?t ! i)" if "i < 16" for i
    using len(1) that by (simp add: reset_file_def)
  have op: "mcs_vfs_open (Some ?t) (Some 0) ?h (Some ''/hello.txt'') MCS_O_RDONLY = (Inr 0, Some ?u, ?h)"
    and inv: "fd_inv {0} ?h ?u"
    using hello_opened [of ?h ?t, OF _ _ _ t unused] fs' by simp_all
  have f0: "files ?u ! 0 = \<lparr>f_used = True, f_flags = MCS_O_RDONLY, f_offset = 0, f_node = Some (0, 1), f_fs = Some 0\<rparr>"
    using len(1) by simp
  have get: "mcs_fd_get (Some ?u) 0 = Some 0" using f0 by (simp add: mcs_fd_get_def MCS_MAX_OPEN_FILES_def)
  have rd: "mcs_vfs_read (Some ?u) ?h 0 (Some (g_buf k)) 5 =
      (Inr 5, Some (set_file ?u 0 ((files ?u ! 0)\<lparr>f_offset := 5\<rparr>)), Some (mcs_copy_bytes (g_buf k) 0 hello_bytes 0 5))"
    using vfs_read_eq [OF inv get, of 0 1 "g_buf k" 5] f0 fs'(2,3)
    by (simp add: mcs_can_read_def mcs_open_flags Let_def) (simp add: eval_nat_numeral)
  let ?w = "set_file ?u 0 ((files ?u ! 0)\<lparr>f_offset := 5\<rparr>)"
  have "mcs_fd_get (Some ?w) 0 = Some 0"
    using f0 len(1) by (simp add: mcs_fd_get_def MCS_MAX_OPEN_FILES_def)
  then obtain w where cl: "mcs_vfs_close (Some ?w) 0 = (Inr (), Some w)" by (simp add: mcs_vfs_close_def)
  have buf: "mcs_copy_bytes (g_buf k) 0 hello_bytes 0 5 ! i = hello_bytes ! i" if "i < 5" for i
    using that len(2) by (simp add: nth_copy_bytes)
  let ?start = "log_writeln d (cstr ''[M13] VFS smoke test start'')"
  let ?pass = "log_writeln d (cstr ''[M13] VFS smoke test: PASS'')"
  have "\<exists>k'. m13_vfs_smoke_test d k = io_seq ?start (io_seq ?pass (io_return k'))"
    using fs'(5) op rd cl buf [of 0] buf [of 1] buf [of 2] buf [of 3] buf [of 4]
    by (simp add: m13_vfs_smoke_test_def Let_def fd_table_init_eq [OF len(1)] mcs_sys_open_def mcs_sys_read_def
      mcs_sys_close_def) blast
  then obtain k' where k': "m13_vfs_smoke_test d k = io_seq (io_seq ?start ?pass) (io_return k')"
    by (auto simp: io_seq_assoc)
  have "prints (io_seq ?start ?pass) ((''[M13] VFS smoke test start'' @ [CHR 0x0D, CHR 0x0A]) @
      (''[M13] VFS smoke test: PASS'' @ [CHR 0x0D, CHR 0x0A]))"
    by (intro prints_seq mcsos_log.puts_prints uart) simp_all
  from prints_then [OF this, of "io_return k'" h] show ?thesis
    unfolding k' by (auto simp: io_return_def)
qed

subsection \<open>Boot\<close>

definition mcsos_boot_lines :: "string list" where
  "mcsos_boot_lines =
     [''[M9] MCSOS booting...'', ''[M12] synchronization selftest PASSED'', ''[M9] Scheduler OK'',
      ''[M9] switches='', ''0x0000000000000003'', ''[M9] Scheduler demo COMPLETE'',
      ''[M13] VFS smoke test start'', ''[M13] VFS smoke test: PASS'']"

definition mcsos_kernel_ok :: "mcsos_image \<Rightarrow> mcsos_kernel \<Rightarrow> bool" where
  "mcsos_kernel_ok img k \<longleftrightarrow> stack_ok (i_stack_a img) \<and> stack_ok (i_stack_b img) \<and>
     length (held_class (boot_lockdep (g_m12 k))) = 16 \<and> length (held_name (boot_lockdep (g_m12 k))) = 16 \<and>
     ramfs_shape (g_fs k 0) \<and> length (files (fd_table (g_proc k))) = 16 \<and> length (g_buf k) = 32"

lemma three_digits: "map upper_digit (nibbles 3) = ''0000000000000003''"
proof -
  have n: "nibbles 3 = map (\<lambda>i. 3 div 2 ^ (4 * (15 - i)) mod 16) [0..<16]"
    unfolding nibbles_def drop_bit_nibble by simp
  show ?thesis unfolding n by (simp add: upt_rec upper_digit_def)
qed

text \<open>On a serial port that becomes ready, the second kernel's kmain always reaches
  its halt loop, and the UART has sent exactly the lines of a boot in which the lock self-test
  passes, the scheduler starts, its three yields count three switches, and the file system
  smoke test passes.\<close>

theorem mcsos_kmain_boots:
  assumes uart: "uart_responsive d" and ok: "mcsos_kernel_ok img k"
  shows "\<exists>ini ev. mcsos_kmain d img k h = Some (Halts (h @ ini @ ev @ [Hlt])) \<and> list_all serial_event ev \<and>
    u_sent (uart_run (ini @ ev) u) = u_sent u @ concat (map (\<lambda>s. s @ [CHR 0x0D, CHR 0x0A]) mcsos_boot_lines)"
proof -
  obtain ini where ini: "log_init h = Some (Returns () (h @ ini))"
      "uart_run ini u = u\<lparr>u_ier := (if dlab u then u_ier u else 0), u_lcr := 3, u_fcr := 0xC7, u_mcr := 0x0B,
        u_dll := 3, u_dlm := 0\<rparr>"
    using serial_init_Returns [of h u] unfolding log_init_eq by blast
  obtain m12 where m12: "m12_sync_selftest ((g_m12 k)\<lparr>m12_log := []\<rparr>) = Some m12"
      "m12_log m12 = [''[M12] synchronization selftest PASSED'']"
    using selftest_passes [of "(g_m12 k)\<lparr>m12_log := []\<rparr>"] ok by (auto simp: mcsos_kernel_ok_def)
  obtain s t where st: "mcsos_scheduler_init (Some (g_sched k)) (Some 0) (g_threads k) = (MCSOS_SCHED_OK, Some s, t)"
    by (simp add: mcsos_scheduler_init_def)
  define k1 where "k1 = scheduler_demo img (k\<lparr>g_m12 := m12, g_sched := s, g_threads := t\<rparr>)"
  have k1: "context_switches (g_sched k1) = 3" "g_fs k1 = g_fs k" "g_proc k1 = g_proc k" "g_buf k1 = g_buf k"
    using scheduler_demo_result [of img "g_sched k" "g_threads k" "k\<lparr>g_m12 := m12, g_sched := s, g_threads := t\<rparr>"]
      st ok by (simp_all add: k1_def mcsos_kernel_ok_def)
  let ?ms = "[log_writeln d (cstr ''[M9] MCSOS booting...''),
      log_writeln d (cstr ''[M12] synchronization selftest PASSED''), log_writeln d (cstr ''[M9] Scheduler OK''),
      log_key_value_hex64 d (cstr ''[M9] switches='') 3, log_writeln d (cstr ''[M9] Scheduler demo COMPLETE'')]"
  have main: "mcsos_kmain d img k h = io_seq (io_all ?ms) (io_bind (m13_vfs_smoke_test d k1) (\<lambda>k. halt_loop)) (h @ ini)"
    unfolding mcsos_kmain_def io_seq_Returns [where m = log_init and h = h, OF ini(1)]
    by (simp add: m12 st Let_def k1_def [symmetric] k1(1) io_seq_assoc)
  have "list_all2 prints ?ms
      [''[M9] MCSOS booting...'' @ [CHR 0x0D, CHR 0x0A], ''[M12] synchronization selftest PASSED'' @ [CHR 0x0D, CHR 0x0A],
       ''[M9] Scheduler OK'' @ [CHR 0x0D, CHR 0x0A],
       ''[M9] switches='' @ [CHR 0x0D, CHR 0x0A] @ ''0x'' @ map upper_digit (nibbles 3) @ [CHR 0x0D, CHR 0x0A],
       ''[M9] Scheduler demo COMPLETE'' @ [CHR 0x0D, CHR 0x0A]]"
    by (intro list_all2_Cons [THEN iffD2] conjI mcsos_log.puts_prints prints_log_key_value_hex64 uart) simp_all
  from prints_then [OF prints_all [OF this], of "io_bind (m13_vfs_smoke_test d k1) (\<lambda>k. halt_loop)" "h @ ini"]
  obtain ev1 where ev1: "mcsos_kmain d img k h = io_bind (m13_vfs_smoke_test d k1) (\<lambda>k. halt_loop) ((h @ ini) @ ev1)"
      "list_all serial_event ev1"
      "written ev1 = concat (map (\<lambda>s. s @ [CHR 0x0D, CHR 0x0A]) (take 6 mcsos_boot_lines))"
    unfolding main three_digits by (auto simp: mcsos_boot_lines_def simp del: io_all_simps)
  obtain k2 ev2 where ev2: "m13_vfs_smoke_test d k1 ((h @ ini) @ ev1) = Some (Returns k2 (((h @ ini) @ ev1) @ ev2))"
      "list_all serial_event ev2"
      "written ev2 = concat (map (\<lambda>s. s @ [CHR 0x0D, CHR 0x0A]) (drop 6 mcsos_boot_lines))"
    using m13_smoke_passes [OF uart, of k1 "(h @ ini) @ ev1"] ok
    by (auto simp: mcsos_boot_lines_def mcsos_kernel_ok_def k1)
  have "mcsos_kmain d img k h = Some (Halts (h @ ini @ (ev1 @ ev2) @ [Hlt]))"
    unfolding ev1(1) io_bind_Returns [where m = "m13_vfs_smoke_test d k1" and h = "(h @ ini) @ ev1", OF ev2(1)]
    by (simp add: halt_loop_def)
  moreover have "\<not> dlab (uart_run ini u)" by (simp add: ini(2) dlab_def bit_simps)
  from uart_run_serial [of "ev1 @ ev2", OF _ this] have "u_sent (uart_run (ini @ ev1 @ ev2) u) =
      u_sent u @ concat (map (\<lambda>s. s @ [CHR 0x0D, CHR 0x0A]) (take 6 mcsos_boot_lines @ drop 6 mcsos_boot_lines))"
    using ev1(2,3) ev2(2,3) by (simp add: ini(2) del: append_take_drop_id)
  ultimately show ?thesis
    using ev1(2) ev2(2) by (intro exI [of _ ini] exI [of _ "ev1 @ ev2"]) simp
qed

definition sample_image :: mcsos_image where
  "sample_image = \<lparr>i_trampoline = 0x101000, i_thread_a_entry = 0x102000, i_thread_b_entry = 0x102010,
     i_stack_a = 0x200000, i_stack_b = 0x201000\<rparr>"

definition sample_kernel :: mcsos_kernel where
  "sample_kernel = \<lparr>g_sched = demo_sched, g_threads = demo_threads, g_mem = (\<lambda>_. 0), g_cpu = zero_context,
     g_m12 = \<lparr>boot_stats_lock = \<lparr>sl_locked = 0, sl_class_id = 0, sl_name = None\<rparr>,
       boot_lockdep = fresh_lockdep, boot_counter = 0, m12_log = []\<rparr>,
     g_fs = (\<lambda>_. blank_fs), g_proc = \<lparr>p_pid = 0, fd_table = blank_table\<rparr>,
     g_vfs = \<lparr>mcs_active_ramfs_for_test = None\<rparr>, g_buf = replicate 32 0\<rparr>"

lemma sample_kernel_ok: "mcsos_kernel_ok sample_image sample_kernel"
  by (simp add: mcsos_kernel_ok_def stack_ok_def sample_image_def sample_kernel_def fresh_lockdep_def blank_fs_shape
      blank_table_def)

end
