(* ===== verification/Long_Mode.thy ===== *)
theory Long_Mode
  imports Mcsos_Boot
begin

text \<open>
  The entry of the second kernel, \<open>src/mcsos/src/kernel/arch/x86_64/boot.s\<close>: from the 32-bit code the
  boot loader enters, through the switch to long mode, to the call of \<open>kmain\<close>.

  The addresses the linker gives to the symbols are the fields of \<open>boot_image\<close>. The static data
  (Multiboot2 header, descriptor table, page tables) are lists of words, and \<open>loaded\<close> says that
  they are in the physical memory at their symbols. The instructions that change the mode of the
  processor are definitions of their own, written from the architecture manual; one that faults
  gives \<open>None\<close>, because without a descriptor table for interrupts a fault resets the machine.
  \<open>x86_translate\<close> is the walk of the processor through four levels of page tables with pages of
  4 KiB, 2 MiB and 1 GiB.

  The last part is on exceptions: delivered through the tables of \<open>Traps\<close>, on a descriptor table with the
  code segment that the gates name, and on the one this entry code leaves, which lacks it.
\<close>

subsection \<open>Static data\<close>

record boot_image =
  bi_start64 :: u32
  bi_gdt :: u32
  bi_pml4 :: u32
  bi_pdpt :: u32
  bi_pd :: u32
  bi_bss_end :: u32

definition mb2_header :: "u32 list" where
  "mb2_header = [0xe85250d6, 0, 24, - (0xe85250d6 + 0 + 24), 0, 8]"

definition gdt :: "u64 list" where
  "gdt = [0x0000000000000000, 0x00af9a000000ffff, 0x00af92000000ffff]"

definition pml4 :: "boot_image \<Rightarrow> u64 list" where
  "pml4 img = (ucast (bi_pdpt img) + 0x3) # replicate 511 0"

definition pdpt :: "boot_image \<Rightarrow> u64 list" where
  "pdpt img = (ucast (bi_pd img) + 0x3) # replicate 511 0"

definition pd :: "u64 list" where
  "pd = map (\<lambda>i. push_bit 21 (of_nat i) OR 0x83) [0..<512]"

text \<open>Physical memory, by the address of a quadword.\<close>

type_synonym phys_mem = "u64 \<Rightarrow> u64"

definition loaded :: "phys_mem \<Rightarrow> u32 \<Rightarrow> u64 list \<Rightarrow> bool" where
  "loaded mem a ws \<longleftrightarrow> (\<forall>i < length ws. mem (ucast a + 8 * of_nat i) = ws ! i)"

subsection \<open>The processor\<close>

record boot_cpu =
  bc_interrupts :: bool
  bc_rsp :: u64
  bc_gdt_limit :: u16
  bc_gdt_base :: u64
  bc_cr0 :: u64
  bc_cr3 :: u64
  bc_cr4 :: u64
  bc_efer :: u64
  bc_cs :: u16
  bc_ds :: u16
  bc_es :: u16
  bc_ss :: u16
  bc_fs :: u16
  bc_gs :: u16
  bc_rip :: u64

definition table_index :: "nat \<Rightarrow> u64 \<Rightarrow> u64" where
  "table_index n va = drop_bit n va AND 0x1FF"

definition canonical_address :: "u64 \<Rightarrow> bool" where
  "canonical_address va \<longleftrightarrow> drop_bit 47 va = 0 \<or> drop_bit 47 va = 0x1FFFF"

definition table_address :: "u64 \<Rightarrow> u64" where
  "table_address e = e AND 0x000FFFFFFFFFF000"

definition x86_translate :: "phys_mem \<Rightarrow> u64 \<Rightarrow> u64 \<Rightarrow> u64 option" where
  "x86_translate mem cr3 va =
     (if \<not> canonical_address va then None
      else
        let e4 = mem (table_address cr3 + 8 * table_index 39 va) in
        if \<not> bit e4 0 then None
        else
          let e3 = mem (table_address e4 + 8 * table_index 30 va) in
          if \<not> bit e3 0 then None
          else if bit e3 7 then Some ((e3 AND 0x000FFFFFC0000000) OR (va AND 0x3FFFFFFF))
          else
            let e2 = mem (table_address e3 + 8 * table_index 21 va) in
            if \<not> bit e2 0 then None
            else if bit e2 7 then Some ((e2 AND 0x000FFFFFFFE00000) OR (va AND 0x1FFFFF))
            else
              let e1 = mem (table_address e2 + 8 * table_index 12 va) in
              if \<not> bit e1 0 then None
              else Some ((e1 AND 0x000FFFFFFFFFF000) OR (va AND 0xFFF)))"

definition long_mode :: "boot_cpu \<Rightarrow> bool" where
  "long_mode c \<longleftrightarrow> bit (bc_cr0 c) 0 \<and> bit (bc_cr0 c) 31 \<and> bit (bc_cr4 c) 5 \<and> bit (bc_efer c) 8"

text \<open>The descriptor a selector names: none for the null selector, outside the limit, or on a page
  that is not present.\<close>

definition gdt_descriptor :: "phys_mem \<Rightarrow> boot_cpu \<Rightarrow> u16 \<Rightarrow> u64 option" where
  "gdt_descriptor mem c sel =
     (let off = sel AND NOT 7 in
      if off = 0 \<or> unat off + 7 > unat (bc_gdt_limit c) then None
      else map_option mem (x86_translate mem (bc_cr3 c) (bc_gdt_base c + ucast off)))"

definition data_descriptor :: "u64 \<Rightarrow> bool" where
  "data_descriptor e \<longleftrightarrow> bit e 47 \<and> bit e 44 \<and> \<not> bit e 43 \<and> bit e 41 \<and> drop_bit 45 e AND 3 = 0"

text \<open>Setting the paging bit: with the long mode bit set this needs PAE, and the next instruction
  must be on a page that is mapped to where it is.\<close>

definition mov_cr0 :: "phys_mem \<Rightarrow> u64 \<Rightarrow> boot_cpu \<Rightarrow> boot_cpu option" where
  "mov_cr0 mem v c =
     (let c = c\<lparr>bc_cr0 := v\<rparr> in
      if bit v 31 \<and> (\<not> bit v 0 \<or> bit (bc_efer c) 8 \<and> \<not> bit (bc_cr4 c) 5) then None
      else if bit v 31 \<and> x86_translate mem (bc_cr3 c) (bc_rip c) \<noteq> Some (bc_rip c) then None
      else Some c)"

definition ljmp :: "phys_mem \<Rightarrow> u16 \<Rightarrow> u64 \<Rightarrow> boot_cpu \<Rightarrow> boot_cpu option" where
  "ljmp mem sel off c =
     (case gdt_descriptor mem c sel of
        None \<Rightarrow> None
      | Some e \<Rightarrow>
          if long_mode c \<and> code64_descriptor e \<and> x86_translate mem (bc_cr3 c) off = Some off
          then Some (c\<lparr>bc_cs := sel, bc_rip := off\<rparr>) else None)"

definition mov_seg :: "phys_mem \<Rightarrow> ((u16 \<Rightarrow> u16) \<Rightarrow> boot_cpu \<Rightarrow> boot_cpu) \<Rightarrow> u16 \<Rightarrow> boot_cpu \<Rightarrow> boot_cpu option" where
  "mov_seg mem upd sel c =
     (if sel = 0 then Some (upd (\<lambda>_. 0) c)
      else case gdt_descriptor mem c sel of
             None \<Rightarrow> None
           | Some e \<Rightarrow> if data_descriptor e then Some (upd (\<lambda>_. sel) c) else None)"

text \<open>A call pushes its return address: the stack must be mapped.\<close>

definition call_pushes :: "phys_mem \<Rightarrow> boot_cpu \<Rightarrow> boot_cpu option" where
  "call_pushes mem c =
     (let sp = bc_rsp c - 8 in
      if x86_translate mem (bc_cr3 c) sp = None \<or> x86_translate mem (bc_cr3 c) (sp + 7) = None then None
      else Some (c\<lparr>bc_rsp := sp\<rparr>))"

subsection \<open>The entry code\<close>

definition start32 :: "phys_mem \<Rightarrow> boot_image \<Rightarrow> boot_cpu \<Rightarrow> boot_cpu option" where
  "start32 mem img c =
     (let c = c\<lparr>bc_interrupts := False\<rparr>;
          c = c\<lparr>bc_rsp := ucast (bi_bss_end img + 0x4000)\<rparr>;
          c = c\<lparr>bc_gdt_limit := of_nat (8 * length gdt) - 1, bc_gdt_base := ucast (bi_gdt img)\<rparr>;
          c = c\<lparr>bc_cr4 := bc_cr4 c OR 0x20\<rparr>;
          c = c\<lparr>bc_cr3 := ucast (bi_pml4 img)\<rparr>;
          c = c\<lparr>bc_efer := bc_efer c OR 0x100\<rparr>
      in Option.bind (mov_cr0 mem (bc_cr0 c OR 0x80000001) c)
           (ljmp mem 0x08 (ucast (bi_start64 img))))"

definition start64 :: "phys_mem \<Rightarrow> boot_cpu \<Rightarrow> boot_cpu option" where
  "start64 mem c =
     Option.bind (mov_seg mem bc_ds_update 0x10 c) (\<lambda>c.
     Option.bind (mov_seg mem bc_es_update 0x10 c) (\<lambda>c.
     Option.bind (mov_seg mem bc_ss_update 0x10 c) (\<lambda>c.
     Option.bind (mov_seg mem bc_fs_update 0 c) (\<lambda>c.
     Option.bind (mov_seg mem bc_gs_update 0 c) (call_pushes mem)))))"

definition mcsos_start ::
  "device \<Rightarrow> phys_mem \<Rightarrow> boot_image \<Rightarrow> boot_cpu \<Rightarrow> mcsos_image \<Rightarrow> mcsos_kernel \<Rightarrow> unit io" where
  "mcsos_start d mem bi c img k =
     io_seq cpu_cli
       (case Option.bind (start32 mem bi c) (start64 mem) of
          None \<Rightarrow> (\<lambda>h. None)
        | Some c \<Rightarrow> io_seq (mcsos_kmain d img k) halt_loop)"

subsection \<open>The page tables\<close>

definition boot_image_ok :: "boot_image \<Rightarrow> bool" where
  "boot_image_ok bi \<longleftrightarrow>
     take_bit 12 (bi_pml4 bi) = 0 \<and> take_bit 12 (bi_pdpt bi) = 0 \<and> take_bit 12 (bi_pd bi) = 0 \<and>
     take_bit 3 (bi_gdt bi) = 0 \<and> unat (bi_gdt bi) + 24 \<le> 2 ^ 30 \<and> unat (bi_start64 bi) < 2 ^ 30 \<and>
     unat (bi_bss_end bi) + 0x4000 \<le> 2 ^ 30"

definition image_loaded :: "phys_mem \<Rightarrow> boot_image \<Rightarrow> bool" where
  "image_loaded mem bi \<longleftrightarrow> loaded mem (bi_pml4 bi) (pml4 bi) \<and> loaded mem (bi_pdpt bi) (pdpt bi) \<and>
     loaded mem (bi_pd bi) pd \<and> loaded mem (bi_gdt bi) gdt"

lemma aligned_bits:
  fixes p :: u32
  assumes "take_bit 12 p = 0" and "bit p n"
  shows "12 \<le> n" and "n < 32"
proof -
  have "\<not> bit (take_bit 12 p) n" using assms(1) by simp
  with assms(2) show "12 \<le> n" by (simp add: bit_take_bit_iff)
  show "n < 32" using bit_imp_le_length [OF assms(2)] by simp
qed

lemma address_masks:
  "(3 :: u64) = mask 2" "(0x1FF :: u64) = mask 9" "(0x1FFFFF :: u64) = mask 21"
  "(0x000FFFFFFFFFF000 :: u64) = push_bit 12 (mask 40)" "(0x000FFFFFFFE00000 :: u64) = push_bit 21 (mask 31)"
  by (simp_all add: mask_eq_exp_minus_1 push_bit_eq_mult)

lemma boot_table_entry:
  fixes p :: u32
  assumes "take_bit 12 p = 0"
  shows "table_address (ucast p) = ucast p" and "table_address (ucast p + 3) = ucast p"
    and "bit (ucast p + 3 :: u64) 0" and "\<not> bit (ucast p + 3 :: u64) 7"
proof -
  note low = aligned_bits [OF assms]
  show "table_address (ucast p) = ucast p"
    unfolding table_address_def address_masks
    by (rule bit_word_eqI) (use low in \<open>force simp: bit_simps\<close>)
  have "(ucast p :: u64) AND mask 2 = 0"
    by (rule bit_word_eqI) (use low in \<open>force simp: bit_simps\<close>)
  then have "(ucast p + 3 :: u64) = ucast p OR mask 2"
    unfolding address_masks by (rule disjunctive_add_eq_or)
  moreover have "(ucast p OR mask 2) AND push_bit 12 (mask 40) = (ucast p :: u64)"
    by (rule bit_word_eqI) (use low in \<open>force simp: bit_simps\<close>)
  ultimately show "table_address (ucast p + 3) = ucast p" and "bit (ucast p + 3 :: u64) 0"
      and "\<not> bit (ucast p + 3 :: u64) 7"
    using low [of 7] by (simp_all add: table_address_def address_masks(4) bit_simps) auto
qed

lemma index_less: "unat (table_index n va) < 512"
proof -
  have "table_index n va \<le> mask 9" unfolding table_index_def address_masks by (rule word_and_le1)
  then show ?thesis by (simp add: word_le_nat_alt mask_eq_exp_minus_1)
qed

lemma loaded_at_index:
  assumes "loaded mem a ws" and "length ws = 512"
  shows "mem (ucast a + 8 * table_index n va) = ws ! unat (table_index n va)"
  using assms index_less [of n va] by (auto simp: loaded_def)

lemma unat_index: "unat (table_index n va) = unat va div 2 ^ n mod 512"
  unfolding table_index_def address_masks take_bit_eq_mask [symmetric] unsigned_take_bit_eq unat_drop_bit_eq
  by (simp add: drop_bit_eq_div take_bit_eq_mod)

lemma index_zero: "unat va < 2 ^ 30 \<Longrightarrow> table_index 39 va = 0 \<and> table_index 30 va = 0"
  by (simp add: word_unat_eq_iff unat_index)

lemma index_nonzero:
  assumes "canonical_address va" and "2 ^ 30 \<le> unat va"
  shows "table_index 39 va \<noteq> 0 \<or> table_index 30 va \<noteq> 0"
proof -
  define a where "a = unat va div 2 ^ 30"
  have n: "unat va div 2 ^ (30 + k) = a div 2 ^ k" for k
    by (simp add: a_def power_add div_mult2_eq)
  have "1 \<le> a" using div_le_mono [OF assms(2), of "2 ^ 30"] by (simp add: a_def)
  moreover have "a div 131072 = 0 \<or> a div 131072 = 0x1FFFF"
    using assms(1) unat_drop_bit_eq [of 47 va] n [of 17] by (auto simp: canonical_address_def drop_bit_eq_div)
  moreover have "a div 131072 = a div 512 div 256" by (simp add: div_mult2_eq [symmetric])
  moreover have "a div 512 div 256 = 2 * (a div 512 div 512)" if "a div 512 mod 512 = 0"
    using that by auto
  moreover have "2 * q \<noteq> 131071" for q :: nat by presburger
  ultimately have "a div 512 mod 512 \<noteq> 0 \<or> a mod 512 \<noteq> 0" by (auto intro: gr0I)
  then show ?thesis
    using n [of 9] n [of 0] by (auto simp: word_unat_eq_iff unat_index)
qed

lemma bits_below:
  fixes w :: u64
  assumes "bit w m" and "unat w < 2 ^ k"
  shows "m < k"
proof -
  have "take_bit k w = w" using assms(2) by (simp add: word_unat_eq_iff unsigned_take_bit_eq take_bit_nat_eq_self)
  with assms(1) show ?thesis by (metis bit_take_bit_iff)
qed

lemma pd_page:
  assumes "unat va < 2 ^ 30"
  shows "(push_bit 21 (table_index 21 va) OR 0x83) AND 0x000FFFFFFFE00000 OR va AND 0x1FFFFF = va"
proof -
  note va = bits_below [OF _ assms]
  have page: "push_bit 21 (table_index 21 va) = va AND NOT (mask 21)"
    by (rule bit_word_eqI) (use va in \<open>force simp: table_index_def address_masks bit_simps not_less\<close>)
  have "m < 21" if "bit (0x83 :: u64) m" for m using that by (rule bits_below) simp
  then show ?thesis
    unfolding page address_masks by (intro bit_word_eqI) (use va in \<open>force simp: bit_and_iff bit_or_iff bit_not_iff bit_mask_iff bit_push_bit_iff not_less\<close>)
qed

theorem boot_tables_identity:
  assumes ok: "boot_image_ok bi" and mem: "image_loaded mem bi"
  shows "x86_translate mem (ucast (bi_pml4 bi)) va = (if unat va < 2 ^ 30 then Some va else None)"
proof -
  have al: "take_bit 12 (bi_pml4 bi) = 0" "take_bit 12 (bi_pdpt bi) = 0" "take_bit 12 (bi_pd bi) = 0"
    using ok by (auto simp: boot_image_ok_def)
  note tables = boot_table_entry [OF al(1)] boot_table_entry [OF al(2)] boot_table_entry [OF al(3)]
  have e4: "mem (ucast (bi_pml4 bi) + 8 * table_index 39 va) = pml4 bi ! unat (table_index 39 va)"
    and e3: "mem (ucast (bi_pdpt bi) + 8 * table_index 30 va) = pdpt bi ! unat (table_index 30 va)"
    and e2: "mem (ucast (bi_pd bi) + 8 * table_index 21 va) = push_bit 21 (table_index 21 va) OR 0x83"
    using mem index_less [of 21 va] loaded_at_index [of mem "bi_pd bi" pd 21 va]
    by (auto simp: image_loaded_def pml4_def pdpt_def pd_def intro!: loaded_at_index)
  have zero: "(x # replicate 511 (0 :: u64)) ! unat (table_index n va) = (if table_index n va = 0 then x else 0)" for x n
    using index_less [of n va] by (simp add: nth_Cons' unat_eq_0)
  show ?thesis
  proof (cases "unat va < 2 ^ 30")
    case True
    then have "canonical_address va"
      using unat_drop_bit_eq [of 47 va] by (simp add: canonical_address_def word_unat_eq_iff drop_bit_eq_div)
    moreover have "mem (ucast (bi_pml4 bi)) = ucast (bi_pdpt bi) + 3" "mem (ucast (bi_pdpt bi)) = ucast (bi_pd bi) + 3"
      using e4 e3 index_zero [OF True] by (simp_all add: pml4_def pdpt_def)
    moreover have "bit (x OR 0x83 :: u64) 0" "bit (x OR 0x83 :: u64) 7" for x by (simp_all add: bit_simps)
    ultimately show ?thesis
      using True index_zero [OF True] pd_page [OF True] by (simp add: x86_translate_def tables e2)
  next
    case False
    then have "canonical_address va \<longrightarrow> table_index 39 va \<noteq> 0 \<or> table_index 30 va \<noteq> 0"
      using index_nonzero [of va] by auto
    with False show ?thesis
      by (auto simp: x86_translate_def Let_def tables e4 e3 zero pml4_def pdpt_def)
  qed
qed

subsection \<open>The switch to long mode\<close>

lemma unat_ucast_u32: "unat (ucast (a :: u32) :: u64) = unat a"
  by (simp add: unsigned_ucast_eq take_bit_nat_eq_self_iff)
    (rule order.strict_trans [OF unsigned_less], simp)

lemma gdt_entries:
  assumes ok: "boot_image_ok bi" and mem: "image_loaded mem bi"
    and c: "bc_cr3 c = ucast (bi_pml4 bi)" "bc_gdt_base c = ucast (bi_gdt bi)" "bc_gdt_limit c = 23"
  shows "gdt_descriptor mem c 0x08 = Some 0x00af9a000000ffff" and "gdt_descriptor mem c 0x10 = Some 0x00af92000000ffff"
    and "0x10 < sel AND NOT 7 \<Longrightarrow> gdt_descriptor mem c sel = None"
proof -
  have "unat (ucast (bi_gdt bi) :: u64) + 24 \<le> 2 ^ 30" using ok by (simp add: boot_image_ok_def unat_ucast_u32)
  then have u: "unat (ucast (bi_gdt bi) + 8 :: u64) < 2 ^ 30" "unat (ucast (bi_gdt bi) + 16 :: u64) < 2 ^ 30"
    using unat_add_no_wrap [of "ucast (bi_gdt bi) :: u64" 8] unat_add_no_wrap [of "ucast (bi_gdt bi) :: u64" 16] by auto
  have "mem (ucast (bi_gdt bi) + 8) = gdt ! 1" "mem (ucast (bi_gdt bi) + 16) = gdt ! 2"
    using mem spec [of "\<lambda>i. i < length gdt \<longrightarrow> mem (ucast (bi_gdt bi) + 8 * word_of_nat i) = gdt ! i" 1]
      spec [of "\<lambda>i. i < length gdt \<longrightarrow> mem (ucast (bi_gdt bi) + 8 * word_of_nat i) = gdt ! i" 2]
    by (auto simp: image_loaded_def loaded_def gdt_def)
  with u show "gdt_descriptor mem c 0x08 = Some 0x00af9a000000ffff" "gdt_descriptor mem c 0x10 = Some 0x00af92000000ffff"
    by (simp_all add: gdt_descriptor_def c boot_tables_identity [OF ok mem] gdt_def)
  assume "0x10 < sel AND NOT 7"
  then have "16 < unat (sel AND NOT 7)" by (simp add: word_less_nat_alt)
  then show "gdt_descriptor mem c sel = None" by (simp add: gdt_descriptor_def c Let_def)
qed

lemma boot_stack:
  assumes "boot_image_ok bi"
  shows "ucast (bi_bss_end bi + 0x4000) - 8 = (ucast (bi_bss_end bi) + 0x3FF8 :: u64)"
    and "unat (ucast (bi_bss_end bi) + 0x3FF8 :: u64) < 2 ^ 30"
    and "unat (ucast (bi_bss_end bi) + 0x3FF8 + 7 :: u64) < 2 ^ 30"
proof -
  have b: "unat (bi_bss_end bi) + 0x4000 \<le> 2 ^ 30" using assms by (simp add: boot_image_ok_def)
  have a: "unat (ucast (bi_bss_end bi) + x :: u64) = unat (bi_bss_end bi) + unat x" if "unat x \<le> 0x4000" for x
    using b that by (subst unat_add_no_wrap) (simp_all add: unat_ucast_u32)
  have "unat (bi_bss_end bi + 0x4000) = unat (bi_bss_end bi) + 0x4000"
    using b by (subst unat_add_no_wrap) simp_all
  then have "(ucast (bi_bss_end bi + 0x4000) :: u64) = ucast (bi_bss_end bi) + 0x4000"
    using a [of "0x4000"] by (simp add: word_unat_eq_iff unat_ucast_u32)
  then show "ucast (bi_bss_end bi + 0x4000) - 8 = (ucast (bi_bss_end bi) + 0x3FF8 :: u64)" by simp
  show "unat (ucast (bi_bss_end bi) + 0x3FF8 :: u64) < 2 ^ 30"
    and "unat (ucast (bi_bss_end bi) + 0x3FF8 + 7 :: u64) < 2 ^ 30"
    using b a [of "0x3FF8"] a [of "0x3FFF"] by (simp_all add: add.assoc)
qed

lemma boot_descriptors: "code64_descriptor 0x00af9a000000ffff" "data_descriptor 0x00af92000000ffff"
  by (simp_all add: code64_descriptor_def data_descriptor_def)

text \<open>The kernel's C code starts in long mode at ring 0 with interrupts off, on the first GiB mapped to
  itself and nothing else.\<close>

lemma boot_switch:
  assumes ok: "boot_image_ok bi" and mem: "image_loaded mem bi" and rip: "unat (bc_rip c) < 2 ^ 30"
  shows "\<exists>c'. Option.bind (start32 mem bi c) (start64 mem) = Some c' \<and> long_mode c' \<and> \<not> bc_interrupts c' \<and>
    bc_cs c' = 0x08 \<and> bc_ss c' = 0x10 \<and> bc_rsp c' = ucast (bi_bss_end bi) + 0x3FF8 \<and>
    bc_gdt_base c' = ucast (bi_gdt bi) \<and> bc_gdt_limit c' = 23 \<and> bc_cr3 c' = ucast (bi_pml4 bi)"
proof -
  define c1 where "c1 = c\<lparr>bc_interrupts := False, bc_rsp := ucast (bi_bss_end bi + 0x4000),
    bc_gdt_limit := 23, bc_gdt_base := ucast (bi_gdt bi), bc_cr4 := bc_cr4 c OR 0x20, bc_cr3 := ucast (bi_pml4 bi),
    bc_efer := bc_efer c OR 0x100, bc_cr0 := bc_cr0 c OR 0x80000001\<rparr>"
  define c2 where "c2 = c1\<lparr>bc_cs := 0x08, bc_rip := ucast (bi_start64 bi)\<rparr>"
  note walk = boot_tables_identity [OF ok mem] and desc = gdt_entries [OF ok mem]
  have lm: "long_mode c1" by (simp add: long_mode_def c1_def bit_simps)
  have c1: "bc_cr3 c1 = ucast (bi_pml4 bi)" "bc_gdt_base c1 = ucast (bi_gdt bi)" "bc_gdt_limit c1 = 23"
    by (simp_all add: c1_def)
  have "unat (ucast (bi_start64 bi) :: u64) < 2 ^ 30" using ok by (simp add: boot_image_ok_def unat_ucast_u32)
  then have "ljmp mem 0x08 (ucast (bi_start64 bi)) c1 = Some c2"
    by (simp add: ljmp_def desc [OF c1] c1 lm boot_descriptors walk c2_def)
  moreover have "mov_cr0 mem (bc_cr0 c OR 0x80000001) (c1\<lparr>bc_cr0 := bc_cr0 c\<rparr>) = Some c1"
    using rip by (simp add: mov_cr0_def c1_def walk bit_simps)
  ultimately have start: "start32 mem bi c = Some c2"
    by (simp add: start32_def c1_def gdt_def Let_def)
  let ?sp = "ucast (bi_bss_end bi) + 0x3FF8 :: u64"
  note sp = boot_stack [OF ok]
  define c3 where "c3 = c2\<lparr>bc_ds := 0x10, bc_es := 0x10, bc_ss := 0x10, bc_fs := 0, bc_gs := 0\<rparr>"
  have seg: "mov_seg mem upd 0x10 b = Some (upd (\<lambda>_. 0x10) b)" "mov_seg mem upd 0 b = Some (upd (\<lambda>_. 0) b)"
    if "bc_cr3 b = bc_cr3 c1" "bc_gdt_base b = bc_gdt_base c1" "bc_gdt_limit b = bc_gdt_limit c1" for upd b
    using that by (simp_all add: mov_seg_def desc c1 boot_descriptors)
  have rsp: "bc_rsp c3 - 8 = ?sp" by (simp add: c3_def c2_def c1_def sp(1))
  have cr3: "bc_cr3 c3 = ucast (bi_pml4 bi)" by (simp add: c3_def c2_def c1_def)
  have "call_pushes mem c3 = Some (c3\<lparr>bc_rsp := ?sp\<rparr>)"
    unfolding call_pushes_def Let_def rsp cr3 walk using sp(2,3) by simp
  then have "start64 mem c2 = Some (c3\<lparr>bc_rsp := ?sp\<rparr>)"
    by (simp add: start64_def seg c2_def c3_def)
  then show ?thesis using start lm by (simp add: long_mode_def c3_def c2_def c1_def)
qed

subsection \<open>From the entry to the idle loop\<close>

text \<open>C13: From the 32-bit entry point of the second kernel, with its image loaded below 1
  GiB, the processor reaches long mode at ring 0 with interrupts off and exactly the first GiB
  mapped to itself; kmain then always reaches its halt loop, and the UART has sent exactly the
  lines of a boot in which the lock self-test passes, the scheduler starts, its three yields
  count three switches, and the file system smoke test passes.\<close>

theorem mcsos_start_boots:
  assumes uart: "uart_responsive d" and kernel: "mcsos_kernel_ok img k"
    and image: "boot_image_ok bi" "image_loaded mem bi" "unat (bc_rip c) < 2 ^ 30"
  shows "(\<exists>c'. Option.bind (start32 mem bi c) (start64 mem) = Some c' \<and>
      long_mode c' \<and> \<not> bc_interrupts c' \<and> bc_cs c' = 0x08 \<and> bc_ss c' = 0x10 \<and>
      (\<forall>va. x86_translate mem (bc_cr3 c') va = (if unat va < 2 ^ 30 then Some va else None))) \<and>
    (\<exists>ini ev. mcsos_start d mem bi c img k h = Some (Halts (h @ Cli # ini @ ev @ [Hlt])) \<and> list_all serial_event ev \<and>
      u_sent (uart_run (Cli # ini @ ev) u) =
        u_sent u @ concat (map (\<lambda>s. s @ [CHR 0x0D, CHR 0x0A]) mcsos_boot_lines))"
proof -
  obtain c' where c': "Option.bind (start32 mem bi c) (start64 mem) = Some c'" "long_mode c'" "\<not> bc_interrupts c'"
      "bc_cs c' = 0x08" "bc_ss c' = 0x10" "bc_cr3 c' = ucast (bi_pml4 bi)"
    using boot_switch [OF image] by blast
  obtain ini ev where ev: "mcsos_kmain d img k (h @ [Cli]) = Some (Halts ((h @ [Cli]) @ ini @ ev @ [Hlt]))"
      "list_all serial_event ev"
      "u_sent (uart_run (ini @ ev) u) = u_sent u @ concat (map (\<lambda>s. s @ [CHR 0x0D, CHR 0x0A]) mcsos_boot_lines)"
    using mcsos_kmain_boots [OF uart kernel, of "h @ [Cli]" u] by blast
  have "mcsos_start d mem bi c img k h = Some (Halts (h @ Cli # ini @ ev @ [Hlt]))"
    using ev(1) by (simp add: mcsos_start_def c'(1) cpu_cli_def io_event_def io_seq_def io_bind_def)
  then show ?thesis using c' ev(2,3) boot_tables_identity [OF image(1,2)] by auto
qed

subsection \<open>Exceptions of both kernels\<close>

text \<open>The gates of the second kernel name a code segment that its descriptor table does not have.\<close>

lemma boot_gdt_lacks_code_segment:
  assumes "boot_image_ok bi" "image_loaded mem bi" "unat (bc_rip b) < 2 ^ 30"
  shows "\<exists>b'. Option.bind (start32 mem bi b) (start64 mem) = Some b' \<and> \<not> kernel_code_segment (gdt_descriptor mem b')"
proof -
  obtain b' where b': "Option.bind (start32 mem bi b) (start64 mem) = Some b'" "bc_cr3 b' = ucast (bi_pml4 bi)"
      "bc_gdt_base b' = ucast (bi_gdt bi)" "bc_gdt_limit b' = 23"
    using boot_switch [OF assms] by blast
  have "gdt_descriptor mem b' 0x28 = None" using gdt_entries(3) [OF assms(1,2) b'(2-4), of "0x28"] by simp
  with b'(1) show ?thesis by (simp add: kernel_code_segment_def)
qed

text \<open>C15: An exception of any vector below 32 other than the breakpoint never resumes the
  interrupted code. Delivered through the table the first kernel loads, on a descriptor table
  with a 64-bit code segment at selector 0x28 as the boot loader leaves it, the stub and
  handler disable interrupts, print the panic line and halt; its code is whatever the second
  argument register holds. Delivered through the table of the second kernel on such a
  descriptor table, they print vector, error code and instruction pointer and halt. On the
  descriptor table that boot.s loads, which has no segment at 0x28, no vector can be delivered
  through the second kernel's table at all, double faults included, so the processor shuts
  down.\<close>

theorem exceptions_fail_closed:
  assumes exn: "uart_responsive d" "vector < 32" "error_code_pushed vector err" "vector \<noteq> 3"
    and table: "length (idt_table s) = 256" "stubs_ok stubs" and desc: "kernel_code_segment desc"
    and image: "boot_image_ok bi" "image_loaded mem bi" "unat (bc_rip b) < 2 ^ 30"
  shows "(\<exists>s1. x86_64_idt_init addr stubs s h0 = Some (Returns s1 (h0 @ [Lidt 4095 addr])) \<and>
      (\<exists>es. x86_64_interrupt d rsi desc s1 stubs vector err stk c h = Some (Halts (h @ [Cli] @ es @ [Hlt])) \<and>
        list_all serial_event es \<and>
        written es = CHR 0x0A # ''[MCSOS:PANIC] Fail-Closed Unhandled Kernel Exception. code=0x'' @
          map lower_digit (nibbles rsi) @ [CHR 0x0A])) \<and>
    (\<exists>s2 ev. mcsos_idt_init d addr stubs s h0 = Some (Returns s2 (h0 @ [Lidt 4095 addr] @ ev)) \<and> list_all serial_event ev \<and>
      (\<exists>es. mcsos_interrupt d n desc s2 stubs vector err stk c h = Some (Halts (h @ es @ [Hlt])) \<and>
        list_all serial_event es \<and>
        written es = trap_dump (of_nat vector) (case err of None \<Rightarrow> 0 | Some e \<Rightarrow> e) (c_rip c)) \<and>
      (\<exists>b'. Option.bind (start32 mem bi b) (start64 mem) = Some b' \<and>
        mcsos_interrupt d n (gdt_descriptor mem b') s2 stubs vector err stk c h = None \<and>
        (\<forall>v. x86_deliver (gdt_descriptor mem b') s2 v = None)))" (is "?first \<and> ?second")
proof
  obtain s1 where s1: "x86_64_idt_init addr stubs s h0 = Some (Returns s1 (h0 @ [Lidt 4095 addr]))"
      "\<forall>v. x86_deliver desc s1 v = (if v < 32 \<and> kernel_code_segment desc then Some (stubs ! v) else None)"
    using x86_64_idt_delivers [OF table(1)] by blast
  then show ?first
    using x86_64_exception_halts [OF exn, of rsi stk c h]
    by (simp add: x86_64_interrupt_def entered_stub_delivered [OF s1(2) table(2) desc exn(2)])
  obtain s2 ev where s2: "mcsos_idt_init d addr stubs s h0 = Some (Returns s2 (h0 @ [Lidt 4095 addr] @ ev))"
      "list_all serial_event ev"
      "\<forall>desc v. x86_deliver desc s2 v = (if v < 32 \<and> kernel_code_segment desc then Some (stubs ! v) else None)"
    using mcsos_idt_delivers [OF exn(1) table(1), of addr stubs h0] by blast
  have "\<exists>es. mcsos_interrupt d n desc s2 stubs vector err stk c h = Some (Halts (h @ es @ [Hlt])) \<and>
      list_all serial_event es \<and> written es = trap_dump (of_nat vector) (case err of None \<Rightarrow> 0 | Some e \<Rightarrow> e) (c_rip c)"
    using mcsos_exception_halts [OF exn, of n stk c h]
    by (simp add: mcsos_interrupt_def entered_stub_delivered [OF spec [OF s2(3)] table(2) desc exn(2)])
  moreover obtain b' where "Option.bind (start32 mem bi b) (start64 mem) = Some b'" "\<not> kernel_code_segment (gdt_descriptor mem b')"
    using boot_gdt_lacks_code_segment [OF image] by blast
  moreover from this s2(3) have "\<forall>v. x86_deliver (gdt_descriptor mem b') s2 v = None" by simp
  ultimately show ?second using s2(1,2) by (auto simp: mcsos_interrupt_def entered_stub_def)
qed

text \<open>C33: On a descriptor table with a 64-bit code segment at selector 0x28, a breakpoint
  delivered through the table that either kernel's initialisation loads returns to the
  interrupted code with every register, the flags and the stack pointer as they were; the first
  kernel does nothing else, the second counts the trap and prints the trap frame. On the
  descriptor table that boot.s loads, which has no segment at 0x28, the second kernel's
  breakpoint test is not delivered and does not return.\<close>

theorem breakpoint_resumes:
  assumes uart: "uart_responsive d"
    and table: "length (idt_table s) = 256" "stubs_ok stubs" and desc: "kernel_code_segment desc"
    and image: "boot_image_ok bi" "image_loaded mem bi" "unat (bc_rip b) < 2 ^ 30"
  shows "(\<exists>s1. x86_64_idt_init addr stubs s h0 = Some (Returns s1 (h0 @ [Lidt 4095 addr])) \<and>
      x86_64_interrupt d rsi desc s1 stubs 3 None stk c h = Some (Returns c h)) \<and>
    (\<exists>s2 ev. mcsos_idt_init d addr stubs s h0 = Some (Returns s2 (h0 @ [Lidt 4095 addr] @ ev)) \<and> list_all serial_event ev \<and>
      (\<exists>es. x86_64_trigger_breakpoint_for_test d n desc s2 stubs stk c h = Some (Returns (n + 1, c) (h @ es)) \<and>
        list_all serial_event es \<and>
        written es = trap_dump 3 0 (c_rip c) @
          ''[M4] Breakpoint exception handled correctly. Recovering path...'' @ [CHR 0x0D, CHR 0x0A]) \<and>
      (\<exists>b'. Option.bind (start32 mem bi b) (start64 mem) = Some b' \<and>
        x86_64_trigger_breakpoint_for_test d n (gdt_descriptor mem b') s2 stubs stk c h = None))" (is "?first \<and> ?second")
proof
  obtain s1 where s1: "x86_64_idt_init addr stubs s h0 = Some (Returns s1 (h0 @ [Lidt 4095 addr]))"
      "\<forall>v. x86_deliver desc s1 v = (if v < 32 \<and> kernel_code_segment desc then Some (stubs ! v) else None)"
    using x86_64_idt_delivers [OF table(1)] by blast
  then show ?first
    by (simp add: x86_64_interrupt_def entered_stub_delivered [OF s1(2) table(2) desc] breakpoint_returns)
  obtain s2 ev where s2: "mcsos_idt_init d addr stubs s h0 = Some (Returns s2 (h0 @ [Lidt 4095 addr] @ ev))"
      "list_all serial_event ev"
      "\<forall>desc v. x86_deliver desc s2 v = (if v < 32 \<and> kernel_code_segment desc then Some (stubs ! v) else None)"
    using mcsos_idt_delivers [OF uart table(1), of addr stubs h0] by blast
  obtain es where "x86_64_trigger_breakpoint_for_test d n desc s2 stubs stk c h = Some (Returns (n + 1, c) (h @ es))"
      "list_all serial_event es" "written es = trap_dump 3 0 (c_rip c) @
          ''[M4] Breakpoint exception handled correctly. Recovering path...'' @ [CHR 0x0D, CHR 0x0A]"
    using mcsos_breakpoint_returns [OF uart, of n stk c h]
    by (auto simp: x86_64_trigger_breakpoint_for_test_def mcsos_interrupt_def
        entered_stub_delivered [OF spec [OF s2(3)] table(2) desc])
  moreover obtain b' where b': "Option.bind (start32 mem bi b) (start64 mem) = Some b'" "\<not> kernel_code_segment (gdt_descriptor mem b')"
    using boot_gdt_lacks_code_segment [OF image] by blast
  then have "x86_64_trigger_breakpoint_for_test d n (gdt_descriptor mem b') s2 stubs stk c h = None"
    by (simp add: x86_64_trigger_breakpoint_for_test_def mcsos_interrupt_def entered_stub_def s2(3))
  ultimately show ?second using s2(1,2) b'(1) by blast
qed

text \<open>The header the boot loader looks for has the magic number, sums to zero and ends with the end tag.\<close>

lemma mb2_header_checksum: "hd mb2_header = 0xe85250d6 \<and> sum_list (take 4 mb2_header) = 0 \<and> unat (mb2_header ! 2) = 4 * length mb2_header"
  by (simp add: mb2_header_def)

subsection \<open>A concrete image\<close>

definition sample_boot_image :: boot_image where
  "sample_boot_image = \<lparr>bi_start64 = 0x103050, bi_gdt = 0x104000, bi_pml4 = 0x105000, bi_pdpt = 0x106000,
     bi_pd = 0x107000, bi_bss_end = 0x120000\<rparr>"

definition sample_memory :: phys_mem where
  "sample_memory a =
     (let n = unat a; at = (\<lambda>b ws. ws ! ((n - b) div 8)) in
      if 0x107000 \<le> n then at 0x107000 pd
      else if 0x106000 \<le> n then at 0x106000 (pdpt sample_boot_image)
      else if 0x105000 \<le> n then at 0x105000 (pml4 sample_boot_image)
      else at 0x104000 gdt)"

lemma sample_image_loaded: "image_loaded sample_memory sample_boot_image"
proof -
  have at: "unat (b + 8 * of_nat i) = unat b + 8 * i" if "i < 512" "unat b \<le> 0x107000" for b :: u64 and i
  proof -
    have "unat (8 * of_nat i :: u64) = 8 * i" using that(1) by (simp add: unat_word_ariths unat_of_nat)
    then show ?thesis using that by (subst unat_add_no_wrap) simp_all
  qed
  note at_tables = at [of _ "0x104000"] at [of _ "0x105000"] at [of _ "0x106000"] at [of _ "0x107000"]
  show ?thesis
    by (simp add: image_loaded_def loaded_def sample_memory_def sample_boot_image_def gdt_def pml4_def pdpt_def pd_def
        Let_def at_tables)
qed

definition sample_boot_cpu :: boot_cpu where
  "sample_boot_cpu = \<lparr>bc_interrupts = True, bc_rsp = 0, bc_gdt_limit = 0, bc_gdt_base = 0, bc_cr0 = 0x11, bc_cr3 = 0,
     bc_cr4 = 0, bc_efer = 0, bc_cs = 0x10, bc_ds = 0x18, bc_es = 0x18, bc_ss = 0x18, bc_fs = 0, bc_gs = 0,
     bc_rip = 0x103000\<rparr>"

lemma sample_boot: "boot_image_ok sample_boot_image" "image_loaded sample_memory sample_boot_image"
    "unat (bc_rip sample_boot_cpu) < 2 ^ 30"
  using sample_image_loaded by (simp_all add: boot_image_ok_def sample_boot_image_def sample_boot_cpu_def)

theorem mcsos_start_boots_witness:
  "\<exists>ev. mcsos_start slow_uart sample_memory sample_boot_image sample_boot_cpu sample_image sample_kernel [] =
     Some (Halts (Cli # ev @ [Hlt]))"
  using mcsos_start_boots [OF slow_uart_responsive sample_kernel_ok sample_boot, of "[]"] by (metis append.assoc append_Nil)

lemma blank_idt_length: "length (idt_table blank_idt) = 256"
  by (simp add: blank_idt_def)

theorem exceptions_fail_closed_witness:
  "\<exists>s1 es. x86_64_idt_init 0xffffffff80200000 sample_stubs blank_idt [] = Some (Returns s1 [Lidt 4095 0xffffffff80200000]) \<and>
     x86_64_interrupt slow_uart 0 sample_desc s1 sample_stubs 14 (Some 2) [] sample_regs [] = Some (Halts (Cli # es @ [Hlt]))"
proof -
  have "error_code_pushed 14 (Some 2)" by (simp add: error_code_pushed_def x86_error_vectors_def)
  from exceptions_fail_closed [OF slow_uart_responsive _ this _ blank_idt_length sample_stubs_ok sample_code_segment sample_boot,
      of "0xffffffff80200000" "[]" 0 "[]" sample_regs "[]" 0]
  show ?thesis by auto
qed

theorem breakpoint_resumes_witness:
  "\<exists>s1. x86_64_idt_init 0xffffffff80200000 sample_stubs blank_idt [] = Some (Returns s1 [Lidt 4095 0xffffffff80200000]) \<and>
     x86_64_interrupt slow_uart 0 sample_desc s1 sample_stubs 3 None [] sample_regs [] = Some (Returns sample_regs [])"
  using breakpoint_resumes [OF slow_uart_responsive blank_idt_length sample_stubs_ok sample_code_segment sample_boot,
      of "0xffffffff80200000" "[]" 0 "[]" sample_regs "[]" 0] by simp

end
