(* ===== verification/Spec2Isabelle.thy ===== *)
theory Spec2Isabelle
  imports Address_Space Elf Int80 Timer Boot Long_Mode
begin

text \<open>
  \<^bold>\<open>Verification of the MCSOS teaching kernel.\<close>

  The repository holds two x86-64 kernels in C that grew out of one course. The first one
  (\<open>src/kernel\<close>, \<open>src/src\<close>, \<open>src/include\<close>) starts from the Limine boot loader: it programs the serial
  port, loads an interrupt descriptor table, hands the memory map to a physical memory manager,
  sets up a kernel heap and idles; it also has a virtual memory manager, the interrupt controllers
  and the timer. The second one (\<open>src/mcsos\<close>) has threads and a cooperative scheduler, system calls,
  an ELF loader for user programs, locks with a lock-order checker, and a RAM file system with file
  descriptors; its \<open>kmain\<close> runs the self-tests of these parts. This development models every function
  of both kernels that is written in C, together with the assembly of the second kernel's entry, of the
  context switch, of the exception stubs and of the system call entry.

  \<^bold>\<open>Theories and sources.\<close>

  \<^item> \<open>Kernel_Prelude\<close>: the C integer types as words, the C \<open>for\<close> loop, shared lemmas on words and lists.
  \<^item> \<open>Frame_Allocator\<close>, \<open>Fifo_Queue\<close>, and the locale \<open>console\<close> of \<open>Port_IO\<close>: the interfaces between the
    components, as locales. \<open>Pmm\<close>, \<open>Sched\<close> and \<open>Serial\<close> interpret them on the code's definitions.
    \<open>Vmm\<close> states what it relies on in the locale \<open>page_memory\<close>, which \<open>Address_Space\<close> discharges.
  \<^item> \<open>Pmm\<close>: \<open>src/src/pmm.c\<close>, \<open>src/include/pmm.h\<close>. Bitmap, counters and hint of page frames. What is
    free after the boot map has been read; lowest-frame allocation; exact conditions and effects of
    free and reserve; the invariant of all reachable states.
  \<^item> \<open>Vmm\<close> and \<open>Address_Space\<close>: \<open>src/src/vmm.c\<close>, \<open>src/include/vmm.h\<close>. Four-level page tables in a memory
    of words; map, query and unmap implement update, lookup and deletion of a map from pages to
    frames, on top of \<open>Pmm\<close>, and the tables stay a tree of frames nobody else gets.
  \<^item> \<open>Kmem\<close>: \<open>src/kernel/mm/kmem.c\<close>, \<open>src/include/mcsos/kmem.h\<close>. The heap in a memory of bytes that
    holds block headers and the callers' data; first fit, coalescing, zeroed allocation, statistics
    and the heap check; no two blocks in use overlap in any reachable state.
  \<^item> \<open>Ramfs\<close> and \<open>Fd\<close>: \<open>src/mcsos/kernel/vfs/ramfs.c\<close>, \<open>fd.c\<close>, \<open>sys_vfs.c\<close> and \<open>mcs_vfs.h\<close>. Path lookup and
    creation refine a directory tree; open, read, write, seek, close and dup, with the exact effect
    of a write, the round trip through a file, and the invariant of descriptors and vnodes.
  \<^item> \<open>Sched\<close>: \<open>src/mcsos/kernel/mcsos_thread.c\<close>, \<open>mcsos_thread.h\<close>, \<open>context_switch.S\<close>. The ready queue as
    a linked list on a heap of threads; round robin, the scheduler's own check, what a context
    switch saves and restores.
  \<^item> \<open>Elf\<close>: \<open>src/mcsos/kernel/user/m11_elf_loader.c\<close>. When an image is accepted, and that an accepted
    plan stays inside the user region and the image and has no writable executable segment.
  \<^item> \<open>Syscall\<close> and \<open>Int80\<close>: \<open>src/mcsos/kernel/syscall/syscall.c\<close>, \<open>syscall_entry.S\<close>. The dispatch of every
    number, the check of user ranges, and what a user program gets back from \<open>int 0x80\<close>.
  \<^item> \<open>Lockdep\<close> and \<open>Locks\<close>: \<open>src/mcsos/kernel/sync\<close>. Threads that pass the order check cannot deadlock;
    mutual exclusion of spinlocks and mutexes for any number of processors and any interleaving.
  \<^item> \<open>Port_IO\<close> and \<open>Serial\<close>: \<open>src/include/io.h\<close>, \<open>src/kernel/driver/serial.c\<close>, the logs, the early writers and
    the panics of both kernels. When a write to the port ends, that numbers print so that they
    read back, that the three hexadecimal writers agree, what a UART sends.
  \<^item> \<open>Timer\<close>: \<open>src/src/pic.c\<close>, \<open>src/src/pit.c\<close>. What the port accesses do to the two 8259A controllers and the
    8254 timer, and the tick report.
  \<^item> \<open>Traps\<close>: both interrupt descriptor tables, exception stubs and trap handlers
    (\<open>src/src/kernel/arch/x86_64\<close>, \<open>src/mcsos/kernel/arch/x86_64\<close>, \<open>src/mcsos/kernel/core/trap.c\<close>). The bytes of
    the table decode to the gates meant, and exceptions are delivered through them, with the descriptor table
    in force as a parameter: a breakpoint resumes the interrupted code unchanged, every other exception
    ends in a halt. \<open>Long_Mode\<close> states this together with what holds on the descriptor table of the second
    kernel, which lacks the segment its gates name.
  \<^item> \<open>Boot\<close>: \<open>src/kernel/kernel.c\<close>, \<open>src/kmain.c\<close>, \<open>src/mcsos/kmain.c\<close>; \<open>Mcsos_Boot\<close>: \<open>src/mcsos/kernel/kmain.c\<close>;
    \<open>Long_Mode\<close>: \<open>src/mcsos/src/kernel/arch/x86_64/boot.s\<close>, the switch to long mode with its page tables and
    descriptor table. The components together: both kernels reach their idle loop, and what the serial
    port has sent by then is exactly the log of a boot in which every test passes.

  \<^bold>\<open>How code becomes definitions.\<close> A structure is a record, an enumeration a datatype or its numbers, an
  unsigned integer a word of its width, so wrap-around is part of the definitions; where the model
  uses natural numbers (sizes in the RAM file system, all at most 8192) or integers cut to a width
  (\<open>lseek\<close>), the theory says so. A pointer the code compares with \<open>NULL\<close> is an option. Static
  variables are passed as a record and returned updated. Where aliasing matters the memory is
  explicit: words for page tables, bytes for the heap, a heap of records for threads and file
  systems. Code that talks to hardware is a function on the list of its port accesses and special
  instructions.

  \<^bold>\<open>Loops and bounds.\<close> Counted loops are folds or \<open>for_loop\<close>, a \<open>while\<close> over the counter with the lemma that it is a
  fold when the counter reaches its bound without wrapping. Loops that follow pointers, or wait for a device, are partial functions whose value \<open>None\<close> is not returning; that they return
  is part of the theorems, and for the wait on the serial port the exact condition is. The only bound
  on a number of iterations is the code's own, the 1048576 blocks after which \<open>kmem_validate\<close>
  gives up; no fuel is used. \<open>None\<close> also stands for what C leaves undefined: division by zero,
  shifts by too much, reads past a string, writes before a buffer, calls through a null pointer, and for
  an exception the processor cannot deliver.

  \<^bold>\<open>What is assumed of the outside.\<close> The hypotheses that describe it are \<open>uart_responsive\<close> (after any
  history the serial port says ready after finitely many polls), \<open>masks_readable\<close> and \<open>pics_ready\<close>
  (the data ports of the controllers read back the masks; no initialisation is under way),
  \<open>error_code_pushed\<close> (the processor pushes an error code for the vectors that have one by its manual),
  \<open>kernel_code_segment\<close> (the descriptor table in force has a 64-bit code segment at selector 0x28, as the boot
  loader of the first kernel promises), \<open>stubs_ok\<close> (the linker gives the 32 stubs different addresses),
  \<open>memmap_ok\<close> (the boot loader's map is not empty, and the entries the kernel reads, the first 128, end
  below the last page of the address space),
  \<open>heap_array_ok\<close> and \<open>mcsos_kernel_ok\<close> (the linker puts static arrays at aligned addresses that do not
  wrap), \<open>boot_image_ok\<close> and \<open>image_loaded\<close> (the boot loader has put the image of the second kernel below
  1 GiB, its tables at aligned addresses), a direct map of physical memory for the page tables, and
  the calling convention for the compiled dispatcher. Memory is sequentially consistent for the locks, as the acquire and release
  orders of the source make it on the lock words.

  \<^bold>\<open>Not modelled.\<close> The rest of the vendored \<open>limine.h\<close>, of which only the memory map is used.
  Prototypes, duplicate headers (of which the model follows the one the build includes first) and
  files that hold only a comment. The variants of the control register functions in \<open>vmm.c\<close> for host
  tests, which do nothing, \<open>mcs_cpu_relax\<close>, which only hints the processor, and \<open>x86_64_read_cs\<close>, which nothing calls. Tests, scripts and build files. Interrupts during
  the C code are not modelled: only the exceptions the code raises itself and those handled by the stubs.
  In particular no device interrupt is: the tables have no gate from vector 32 on, and nothing calls
  \<open>timer_on_irq0\<close>, whose property is on calls of it one after the other.
\<close>

end
